(* ===== verification/Prelude.thy ===== *)
theory Prelude
  imports Main "HOL-Library.Word" "HOL-Library.Signed_Division"
begin

text \<open>
  What the components share: the ways a run of C code can stop before it returns, the
  sequencing of steps that may stop, C's \<open>int\<close> arithmetic, byte memory with
  bounds, and counted loops with an early exit.

  A step has type \<open>'a res\<close>.  \<open>Inr x\<close> is a normal return.  \<open>Inl (UB u)\<close> is a point where
  the C program has undefined behaviour (the model stops there and says why),
  \<open>Inl Blocked\<close> is a thread that still waits on a condition variable when the recorded
  wake-ups are used up, and \<open>Inl (Exit n)\<close> is a call of \<open>exit(n)\<close>.
\<close>

section \<open>Results\<close>

datatype ub =
    Out_Of_Bounds
  | Null_Deref
  | Bad_Free
  | Use_After_Free
  | Div_By_Zero
  | Signed_Overflow
  | Bad_Call
  | Overlap
  | Uninitialised

datatype stop = UB ub | Blocked | Exit int

type_synonym 'a res = "stop + 'a"
type_synonym byte = "8 word"
type_synonym bytes = "int \<Rightarrow> byte"

definition bnd :: "'a res \<Rightarrow> ('a \<Rightarrow> 'b res) \<Rightarrow> 'b res" where
  "bnd m f = (case m of Inl e \<Rightarrow> Inl e | Inr x \<Rightarrow> f x)"

definition guard :: "bool \<Rightarrow> ub \<Rightarrow> unit res" where
  "guard b u = (if b then Inr () else Inl (UB u))"

definition deref :: "'a option \<Rightarrow> 'a res" where
  "deref p = (case p of None \<Rightarrow> Inl (UB Null_Deref) | Some x \<Rightarrow> Inr x)"

section \<open>C integers\<close>

text \<open>
  \<open>int\<close> is 32 bits wide; a result that does not fit is undefined.  \<open>%\<close> truncates towards
  zero, so it can be negative, and it traps for a zero divisor.
\<close>

definition INT_MIN :: int where "INT_MIN = - 2147483648"
definition INT_MAX :: int where "INT_MAX = 2147483647"

definition cint :: "int \<Rightarrow> int res" where
  "cint x = (if INT_MIN \<le> x \<and> x \<le> INT_MAX then Inr x else Inl (UB Signed_Overflow))"

definition c_rem :: "int \<Rightarrow> int \<Rightarrow> int res" where
  "c_rem a b =
     (if b = 0 then Inl (UB Div_By_Zero)
      else if a = INT_MIN \<and> b = -1 then Inl (UB Signed_Overflow)
      else Inr (a smod b))"

section \<open>Byte memory\<close>

text \<open>
  \<open>mem_get m a n\<close> is the list of the \<open>n\<close> bytes at address \<open>a\<close>; \<open>mem_put m a xs\<close> stores
  \<open>xs\<close> there.  \<open>load\<close> and \<open>store\<close> are the two sides of a \<open>memcpy\<close> on an object of \<open>cap\<close>
  bytes: a negative length becomes a huge \<open>size_t\<close>, so it is out of bounds too.
  \<open>sub_bytes\<close> and \<open>byte_at\<close> read an object given as the list of its bytes.
\<close>

definition mem_get :: "bytes \<Rightarrow> int \<Rightarrow> int \<Rightarrow> byte list" where
  "mem_get m a n = map (\<lambda>k. m (a + int k)) [0..<nat n]"

definition mem_put :: "bytes \<Rightarrow> int \<Rightarrow> byte list \<Rightarrow> bytes" where
  "mem_put m a xs =
     (\<lambda>b. if a \<le> b \<and> b < a + int (length xs) then xs ! nat (b - a) else m b)"

definition load :: "int \<Rightarrow> bytes \<Rightarrow> int \<Rightarrow> int \<Rightarrow> byte list res" where
  "load cap m a n =
     (if 0 \<le> n \<and> 0 \<le> a \<and> a + n \<le> cap then Inr (mem_get m a n)
      else Inl (UB Out_Of_Bounds))"

definition store :: "int \<Rightarrow> bytes \<Rightarrow> int \<Rightarrow> byte list \<Rightarrow> bytes res" where
  "store cap m a xs =
     (if 0 \<le> a \<and> a + int (length xs) \<le> cap then Inr (mem_put m a xs)
      else Inl (UB Out_Of_Bounds))"

definition sub_bytes :: "byte list \<Rightarrow> int \<Rightarrow> int \<Rightarrow> byte list res" where
  "sub_bytes d a n =
     (if 0 \<le> n \<and> 0 \<le> a \<and> a + n \<le> int (length d) then Inr (take (nat n) (drop (nat a) d))
      else Inl (UB Out_Of_Bounds))"

definition byte_at :: "byte list \<Rightarrow> int \<Rightarrow> byte res" where
  "byte_at d i =
     (if 0 \<le> i \<and> i < int (length d) then Inr (d ! nat i) else Inl (UB Out_Of_Bounds))"

definition index :: "'a list \<Rightarrow> int \<Rightarrow> 'a res" where
  "index xs i =
     (if 0 \<le> i \<and> i < int (length xs) then Inr (xs ! nat i) else Inl (UB Out_Of_Bounds))"

section \<open>Loops\<close>

text \<open>
  \<open>for_loop c b is s\<close> is \<open>for (i = ...; c; ++i) b\<close> over the successive values \<open>is\<close> of the
  loop variable.  The condition is evaluated on the current state before each round; the
  body says whether the enclosing function goes on (\<open>True\<close>) or returns (\<open>False\<close>), and the
  loop's result says which of the two ended it.  \<open>is\<close> must reach at least as far as the
  condition can hold.
\<close>

fun for_loop ::
  "('s \<Rightarrow> int \<Rightarrow> bool res) \<Rightarrow> ('s \<Rightarrow> int \<Rightarrow> ('s \<times> bool) res) \<Rightarrow> int list \<Rightarrow> 's \<Rightarrow> ('s \<times> bool) res"
where
  "for_loop c b [] s = Inr (s, True)"
| "for_loop c b (i # is) s =
     bnd (c s i) (\<lambda>go. if \<not> go then Inr (s, True)
       else bnd (b s i) (\<lambda>(s', k). if k then for_loop c b is s' else Inr (s', False)))"

section \<open>Lemma collections\<close>

named_theorems ring_simps \<open>unfolding of the ring buffer operations\<close>
named_theorems frame_rules \<open>fields an operation leaves alone\<close>

section \<open>Generic lemmas\<close>

lemma bnd_Inl [simp]: "bnd (Inl e) f = Inl e"
  by (simp add: bnd_def)

lemma bnd_Inr [simp]: "bnd (Inr x) f = f x"
  by (simp add: bnd_def)

lemma bnd_eq_Inr: "bnd m f = Inr y \<longleftrightarrow> (\<exists>x. m = Inr x \<and> f x = Inr y)"
  by (cases m) auto

lemma bnd_InrE [elim!]:
  assumes "bnd m f = Inr y"
  obtains x where "m = Inr x" and "f x = Inr y"
  using assms by (cases m) auto

lemma bnd_assoc: "bnd (bnd m f) g = bnd m (\<lambda>x. bnd (f x) g)"
  by (cases m) auto

lemma bnd_cong [fundef_cong]:
  "m = m' \<Longrightarrow> (\<And>x. m' = Inr x \<Longrightarrow> f x = f' x) \<Longrightarrow> bnd m f = bnd m' f'"
  by (cases m') auto

lemma guard_True [simp]: "guard True u = Inr ()"
  by (simp add: guard_def)

lemma guard_False [simp]: "guard False u = Inl (UB u)"
  by (simp add: guard_def)

lemma guard_Inr [simp]: "guard b u = Inr x \<longleftrightarrow> b"
  by (simp add: guard_def)

lemma deref_simps [simp]: "deref None = Inl (UB Null_Deref)" "deref (Some x) = Inr x"
  by (simp_all add: deref_def)

lemma deref_Inr [simp]: "deref p = Inr x \<longleftrightarrow> p = Some x"
  by (cases p) auto

lemma cint_Inr: "cint x = Inr y \<longleftrightarrow> INT_MIN \<le> x \<and> x \<le> INT_MAX \<and> y = x"
  by (auto simp: cint_def)

lemma cint_in [simp]: "INT_MIN \<le> x \<Longrightarrow> x \<le> INT_MAX \<Longrightarrow> cint x = Inr x"
  by (simp add: cint_def)

lemma smod_nonneg: "0 \<le> a \<Longrightarrow> 0 < b \<Longrightarrow> (a::int) smod b = a mod b"
  by (simp add: signed_modulo_int_def signed_divide_int_def sgn_if abs_if
      minus_div_mult_eq_mod)

lemma smod_one: "1 < b \<Longrightarrow> (1 :: int) smod b = 1"
  using smod_nonneg [of 1 b] by simp

lemma c_rem_pos: "0 \<le> a \<Longrightarrow> 0 < b \<Longrightarrow> c_rem a b = Inr (a mod b)"
  by (simp add: c_rem_def smod_nonneg)

lemma c_rem_minus_one: "1 < b \<Longrightarrow> c_rem (- 1) b = Inr (- 1)"
  by (simp add: c_rem_def smod_one INT_MIN_def)

lemma length_mem_get [simp]: "length (mem_get m a n) = nat n"
  by (simp add: mem_get_def)

lemma nth_mem_get [simp]: "k < nat n \<Longrightarrow> mem_get m a n ! k = m (a + int k)"
  by (simp add: mem_get_def)

lemma mem_get_0 [simp]: "mem_get m a 0 = []"
  by (simp add: mem_get_def)

lemma mem_put_Nil [simp]: "mem_put m a [] = m"
  by (auto simp: mem_put_def fun_eq_iff)

lemma mem_put_in:
  "a \<le> b \<Longrightarrow> b < a + int (length xs) \<Longrightarrow> mem_put m a xs b = xs ! nat (b - a)"
  by (simp add: mem_put_def)

lemma mem_put_out: "b < a \<or> a + int (length xs) \<le> b \<Longrightarrow> mem_put m a xs b = m b"
  by (auto simp: mem_put_def)

lemma mem_get_put: "mem_get (mem_put m a xs) a (int (length xs)) = xs"
  by (rule nth_equalityI) (simp_all add: mem_put_in)

lemma load_Inr:
  "load cap m a n = Inr xs \<longleftrightarrow> 0 \<le> n \<and> 0 \<le> a \<and> a + n \<le> cap \<and> xs = mem_get m a n"
  by (auto simp: load_def)

lemma store_Inr:
  "store cap m a xs = Inr m' \<longleftrightarrow>
     0 \<le> a \<and> a + int (length xs) \<le> cap \<and> m' = mem_put m a xs"
  by (auto simp: store_def)

lemma sub_bytes_Inr:
  "sub_bytes d a n = Inr xs \<longleftrightarrow>
     0 \<le> n \<and> 0 \<le> a \<and> a + n \<le> int (length d) \<and> xs = take (nat n) (drop (nat a) d)"
  by (auto simp: sub_bytes_def)

lemma byte_at_Inr:
  "byte_at d i = Inr x \<longleftrightarrow> 0 \<le> i \<and> i < int (length d) \<and> x = d ! nat i"
  by (auto simp: byte_at_def)

lemma index_Inr:
  "index xs i = Inr x \<longleftrightarrow> 0 \<le> i \<and> i < int (length xs) \<and> x = xs ! nat i"
  by (auto simp: index_def)

lemmas res_Inr = cint_Inr load_Inr store_Inr sub_bytes_Inr byte_at_Inr index_Inr

lemma load_in [simp]:
  "0 \<le> n \<Longrightarrow> 0 \<le> a \<Longrightarrow> a + n \<le> cap \<Longrightarrow> load cap m a n = Inr (mem_get m a n)"
  by (simp add: load_def)

lemma store_in [simp]:
  "0 \<le> a \<Longrightarrow> a + int (length xs) \<le> cap \<Longrightarrow> store cap m a xs = Inr (mem_put m a xs)"
  by (simp add: store_def)

lemma sub_bytes_in [simp]:
  "0 \<le> n \<Longrightarrow> 0 \<le> a \<Longrightarrow> a + n \<le> int (length d) \<Longrightarrow>
     sub_bytes d a n = Inr (take (nat n) (drop (nat a) d))"
  by (simp add: sub_bytes_def)

lemma byte_at_in [simp]: "0 \<le> i \<Longrightarrow> i < int (length d) \<Longrightarrow> byte_at d i = Inr (d ! nat i)"
  by (simp add: byte_at_def)

lemma index_in [simp]: "0 \<le> i \<Longrightarrow> i < int (length xs) \<Longrightarrow> index xs i = Inr (xs ! nat i)"
  by (simp add: index_def)

text \<open>An invariant of the body is an invariant of the loop.\<close>

lemma for_loop_inv:
  assumes "for_loop c b is s = Inr (s', k)" and "P s"
    and "\<And>s i s' k. i \<in> set is \<Longrightarrow> P s \<Longrightarrow> c s i = Inr True \<Longrightarrow> b s i = Inr (s', k) \<Longrightarrow> P s'"
  shows "P s'"
  using assms
proof (induction "is" arbitrary: s)
  case Nil
  then show ?case by simp
next
  case (Cons i "is")
  from Cons.prems(1) obtain go where go: "c s i = Inr go"
    and rest: "(if \<not> go then Inr (s, True)
       else bnd (b s i) (\<lambda>(s', k). if k then for_loop c b is s' else Inr (s', False))) = Inr (s', k)"
    by auto
  show ?case
  proof (cases go)
    case False
    with rest Cons.prems(2) show ?thesis by simp
  next
    case True
    with rest obtain s1 k1 where body: "b s i = Inr (s1, k1)"
      and cont: "(if k1 then for_loop c b is s1 else Inr (s1, False)) = Inr (s', k)"
      by auto
    have P1: "P s1"
      using Cons.prems(2,3) go True body by (metis list.set_intros(1))
    show ?thesis
    proof (cases k1)
      case True
      with cont have "for_loop c b is s1 = Inr (s', k)" by simp
      then show ?thesis
        using Cons.IH P1 Cons.prems(3) by (meson list.set_intros(2))
    next
      case False
      with cont P1 show ?thesis by simp
    qed
  qed
qed

end
