(* ===== verification/Output_Interface.thy ===== *)
theory Output_Interface
  imports Prelude
begin

text \<open>
  \<open>src/output_interface.h\<close> and the type \<open>struct output_module\<close> of \<open>src/output_factory.h\<close>: the
  table of functions through which the network code uses an output module, and the
  contract it relies on.  The state \<open>'w\<close> is everything a module's functions read and write:
  its context, the player's ring, the schedule.  \<open>'e\<close> is what its \<open>init\<close> is given.
\<close>

section \<open>Chunks and the table of functions\<close>

text \<open>The members of GRAPES's \<open>struct chunk\<close> that the program uses; \<open>None\<close> is \<open>NULL\<close>.\<close>

record chunk =
  ck_id :: int
  ck_size :: int
  ck_data :: "byte list option"
  ck_attributes :: "byte list option"

text \<open>\<open>deliver\<close> reads the global \<open>firstChunk\<close>, its first argument here.\<close>

record ('e, 'w) output_interface =
  oi_init :: "'e \<Rightarrow> string \<Rightarrow> 'w option res"
  oi_deliver :: "int \<Rightarrow> 'w \<Rightarrow> chunk \<Rightarrow> (int \<times> 'w) res"
  oi_close :: "'w \<Rightarrow> unit res"
  oi_deliver_secured_data_chunk :: "'w \<Rightarrow> chunk \<Rightarrow> (int \<times> 'w) res"
  oi_deliver_secured_data_login :: "'w \<Rightarrow> chunk \<Rightarrow> (int \<times> 'w) res"
  oi_secured_data_enabled_chunk :: "'w \<Rightarrow> int"
  oi_secured_data_enabled_login :: "'w \<Rightarrow> int"

text \<open>
  The member \<open>id\<close> of a chunk is a C \<open>int\<close>: the numbers that exist in the program are those
  of this range.
\<close>

definition int_id :: "chunk \<Rightarrow> bool" where
  "int_id c \<longleftrightarrow> INT_MIN \<le> ck_id c \<and> ck_id c \<le> INT_MAX"

text \<open>A sequence of deliveries, each with the \<open>firstChunk\<close> of its moment.\<close>

fun deliver_all ::
  "('e, 'w) output_interface \<Rightarrow> (int \<times> chunk) list \<Rightarrow> 'w \<Rightarrow> 'w res"
where
  "deliver_all m [] w = Inr w"
| "deliver_all m ((fc, c) # cs) w =
     bnd (oi_deliver m fc w c) (\<lambda>(res, w'). deliver_all m cs w')"

section \<open>The contract of a module\<close>

text \<open>
  Every function keeps the module's invariant, the handlers return 0 or -1, and the
  switches return 0 or 1.
\<close>

locale output_contract =
  fixes m :: "('e, 'w) output_interface"
    and inv :: "'w \<Rightarrow> bool"
  assumes deliver_inv: "inv w \<Longrightarrow> int_id c \<Longrightarrow> oi_deliver m fc w c = Inr (res, w') \<Longrightarrow> inv w'"
    and deliver_code: "oi_deliver m fc w c = Inr (res, w') \<Longrightarrow> res = 0 \<or> res = - 1"
    and secured_chunk_inv:
      "inv w \<Longrightarrow> oi_deliver_secured_data_chunk m w c = Inr (res, w') \<Longrightarrow> inv w'"
    and secured_login_inv:
      "inv w \<Longrightarrow> oi_deliver_secured_data_login m w c = Inr (res, w') \<Longrightarrow> inv w'"
    and enabled_chunk: "oi_secured_data_enabled_chunk m w = 0 \<or> oi_secured_data_enabled_chunk m w = 1"
    and enabled_login: "oi_secured_data_enabled_login m w = 0 \<or> oi_secured_data_enabled_login m w = 1"
begin

lemma deliveries_inv:
  "deliver_all m cs w = Inr w' \<Longrightarrow> inv w \<Longrightarrow> \<forall>(fc, c)\<in>set cs. int_id c \<Longrightarrow> inv w'"
proof (induction cs arbitrary: w)
  case Nil
  then show ?case by simp
next
  case (Cons a cs)
  obtain fc c where a: "a = (fc, c)" by (cases a)
  then obtain x w1 where d: "oi_deliver m fc w c = Inr (x, w1)"
    and rest: "deliver_all m cs w1 = Inr w'"
    using Cons.prems(1) by auto
  have "inv w1"
    using deliver_inv [OF _ _ d] Cons.prems(2,3) a by simp
  then show ?case
    using Cons.IH [OF rest] Cons.prems(3) by simp
qed

end

end
