(* ===== verification/Network.thy ===== *)
theory Network
  imports Output_Interface
begin

text \<open>
  \<open>src/network.c\<close> and the global state of \<open>src/streamer.c\<close> it works on: chunks received and
  handed to the output module, the list of chunks to send, buffer maps.  The library GRAPES
  is the argument \<open>grapes\<close>; its own state (chunk buffer, peer sampler, peer set) is a value
  of type \<open>'g\<close>, a chunk id set one of type \<open>'c\<close>, a node id one of type \<open>'n\<close>.  What the
  program sends, locks and frees is recorded in a log.
\<close>

section \<open>The library and the state\<close>

text \<open>
  Out-parameters are results.  \<open>None\<close> is a \<open>NULL\<close> result, except in \<open>signal\<close>, where a
  field \<open>None\<close> is an out-parameter the parser has not written.
\<close>

datatype signaling_type =
    sig_offer | sig_accept | sig_request | sig_deliver
  | sig_send_buffermap | sig_request_buffermap | sig_ack

record ('c, 'n) signal =
  sg_result :: int
  sg_owner :: "'n option option"
  sg_cset :: "'c option option"
  sg_maxDeliver :: "int option"
  sg_transId :: "int option"
  sg_type :: "signaling_type option"

record ('g, 'c, 'n) grapes =
  cb_get_chunk :: "'g \<Rightarrow> int \<Rightarrow> chunk option"
  cb_get_chunks :: "'g \<Rightarrow> chunk list"
  cb_add_chunk :: "'g \<Rightarrow> chunk \<Rightarrow> int \<times> 'g"
  psample_parse_data :: "'g \<Rightarrow> byte list option \<Rightarrow> int \<Rightarrow> 'g"
  psample_get_cache :: "'g \<Rightarrow> 'n list"
  peerset_get_peer :: "'g \<Rightarrow> 'n \<Rightarrow> nat option"
  chunkID_set_init :: "string option \<Rightarrow> 'c option"
  chunkID_set_add_chunk :: "'c \<Rightarrow> int \<Rightarrow> 'c"
  chunkID_set_size :: "'c \<Rightarrow> int"
  chunkID_set_get_chunk :: "'c \<Rightarrow> int \<Rightarrow> int"
  chunkID_set_get_earliest :: "'c \<Rightarrow> int"
  parseChunkMsg :: "byte list \<Rightarrow> int \<Rightarrow> int \<times> chunk \<times> int"
  parseSignaling :: "byte list \<Rightarrow> int \<Rightarrow> ('c, 'n) signal"
  nodeid_equal :: "'n option \<Rightarrow> 'n \<Rightarrow> int"
  msg_TOPOLOGY :: byte
  msg_CHUNK :: byte
  msg_SECURED_DATA_CHUNK :: byte
  msg_SECURED_DATA_LOGIN :: byte
  msg_SIGNALLING :: byte

datatype mutex = topologyMutex | chunkBufferMutex | peerChunkMutex

datatype ('c, 'n) event =
    Lock mutex
  | Unlock mutex
  | SendChunk "'n option" chunk
  | OfferChunks 'n "'c option" int int
  | AcceptChunks 'n "'c option" int
  | DeliverChunks 'n 'c int
  | RequestChunks 'n "'c option" int int
  | SendBufferMap 'n "'c option" int int
  | RequestSecuredDataChunk "'n option" 'c int
  | RequestSecuredDataLogin "'n option" int
  | FreeChunk chunk
  | Thread string

text \<open>
  A \<open>struct peer\<close> lives in the heap \<open>nt_peers\<close>, shared with the peer set, whose peers are there
  from the start; its member \<open>id\<close> may be \<open>NULL\<close>.  An entry \<open>None\<close> of \<open>nt_peerChunks\<close> has never been written; the list
  itself is \<open>None\<close> for the pointer \<open>NULL\<close>.
\<close>

datatype 'n peer = Freed | Peer "'n option"

record ('g, 'c, 'n, 'w) net =
  nt_lib :: 'g
  nt_chunkBufferSize :: int
  nt_chunkIDSet :: "'c option"
  nt_peerChunks :: "(nat option \<times> int) option list option"
  nt_peerChunksSize :: int
  nt_peers :: "nat \<Rightarrow> 'n peer"
  nt_firstChunk :: int
  nt_transId :: int
  nt_stopThreads :: int
  nt_serverSocket :: "'n option"
  nt_output :: "'w option"
  nt_log :: "('c, 'n) event list"

definition initialised :: "'a option \<Rightarrow> 'a res" where
  "initialised v = (case v of None \<Rightarrow> Inl (UB Uninitialised) | Some x \<Rightarrow> Inr x)"

definition emit :: "('c, 'n) event \<Rightarrow> ('g, 'c, 'n, 'w) net \<Rightarrow> ('g, 'c, 'n, 'w) net" where
  "emit e s = s\<lparr>nt_log := nt_log s @ [e]\<rparr>"

section \<open>The local interface\<close>

text \<open>
  The system calls' results: the socket handle, and for an interface name the result of the
  \<open>ioctl\<close> with the address in the form \<open>inet_ntop\<close> prints it.  \<open>ifr_name\<close> has \<open>IFNAMSIZ\<close>
  bytes.
\<close>

record sys =
  sy_socket :: int
  sy_ioctl :: "string \<Rightarrow> int \<times> string"
  sy_IFNAMSIZ :: int
  sy_EXIT_FAILURE :: int

definition network_create_interface :: "sys \<Rightarrow> string \<Rightarrow> string res" where
  "network_create_interface y interface =
     (if sy_socket y < 0 then Inl (Exit (sy_EXIT_FAILURE y))
      else bnd (guard (int (length interface) < sy_IFNAMSIZ y) Out_Of_Bounds) (\<lambda>_.
        case sy_ioctl y interface of (res, address) \<Rightarrow>
          if res < 0 then Inl (Exit (sy_EXIT_FAILURE y)) else Inr address))"

section \<open>The list of chunks to send\<close>

text \<open>
  \<open>realloc\<close> to the size of one entry, which keeps the first entry; then two stores at the
  index \<open>peerChunksSize\<close>, which goes up by two.  The peer \<open>p\<close> that the code allocates in between
  is never used and leaks; the allocations of the function are taken to succeed.
\<close>

definition realloc_one :: "'a option list option \<Rightarrow> 'a option list" where
  "realloc_one p = (case p of Some (x # xs) \<Rightarrow> [x] | _ \<Rightarrow> [None])"

definition network_add_to_peerChunk ::
  "('g, 'c, 'n) grapes \<Rightarrow> 'n \<Rightarrow> int \<Rightarrow> ('g, 'c, 'n, 'w) net \<Rightarrow> (int \<times> ('g, 'c, 'n, 'w) net) res"
where
  "network_add_to_peerChunk g remote chunkId s =
     (if cb_get_chunk g (nt_lib s) chunkId \<noteq> None then
        let pcs = realloc_one (nt_peerChunks s);
            k = nt_peerChunksSize s
        in bnd (index pcs k) (\<lambda>_.
           bnd (cint (k + 2)) (\<lambda>k2.
           Inr (0, s\<lparr>nt_peerChunks := Some (pcs[nat k :=
                        Some (peerset_get_peer g (nt_lib s) remote, chunkId)]),
                     nt_peerChunksSize := k2\<rparr>)))
      else Inr (- 1, s))"

text \<open>One round of the sending loop, and the whole function.\<close>

definition peer_at :: "('g, 'c, 'n, 'w) net \<Rightarrow> nat \<Rightarrow> 'n option res" where
  "peer_at s r = (case nt_peers s r of Freed \<Rightarrow> Inl (UB Use_After_Free) | Peer i \<Rightarrow> Inr i)"

definition free_peer :: "nat option \<Rightarrow> ('g, 'c, 'n, 'w) net \<Rightarrow> ('g, 'c, 'n, 'w) net res" where
  "free_peer p s = (case p of None \<Rightarrow> Inr s
     | Some r \<Rightarrow> bnd (peer_at s r) (\<lambda>_. Inr (s\<lparr>nt_peers := (nt_peers s)(r := Freed)\<rparr>)))"

definition send_one ::
  "('g, 'c, 'n) grapes \<Rightarrow> ('g, 'c, 'n, 'w) net \<Rightarrow> int \<Rightarrow> (('g, 'c, 'n, 'w) net \<times> bool) res"
where
  "send_one g s i =
     bnd (deref (nt_peerChunks s)) (\<lambda>pcs.
     bnd (index pcs i) (\<lambda>e.
     bnd (initialised e) (\<lambda>(p, chunk).
     bnd (case (cb_get_chunk g (nt_lib s) chunk, p) of
            (Some c, Some r) \<Rightarrow>
              bnd (peer_at s r) (\<lambda>i.
              Inr ((emit (SendChunk i c) s)\<lparr>nt_peers := (nt_peers s)(r := Peer None)\<rparr>))
          | _ \<Rightarrow> Inr s) (\<lambda>s1.
     bnd (free_peer p s1) (\<lambda>s2.
     Inr (s2\<lparr>nt_peerChunks := Some (pcs[nat i := Some (None, chunk)])\<rparr>, True))))))"

definition network_send_chunks_to_peers ::
  "('g, 'c, 'n) grapes \<Rightarrow> ('g, 'c, 'n, 'w) net \<Rightarrow> ('g, 'c, 'n, 'w) net res"
where
  "network_send_chunks_to_peers g s =
     bnd (for_loop (\<lambda>s i. Inr (i < nt_peerChunksSize s)) (send_one g)
            [0 .. nt_peerChunksSize s] s) (\<lambda>(s1, _).
     Inr (s1\<lparr>nt_peerChunks := None, nt_peerChunksSize := 0\<rparr>))"

section \<open>Buffer maps\<close>

text \<open>The adds on a set that \<open>chunkID_set_init\<close> did not return.\<close>

definition add_id :: "('g, 'c, 'n) grapes \<Rightarrow> int \<Rightarrow> 'c option \<Rightarrow> 'c option res" where
  "add_id g k cs = bnd (deref cs) (\<lambda>c. Inr (Some (chunkID_set_add_chunk g c k)))"

fun add_ids :: "('g, 'c, 'n) grapes \<Rightarrow> int list \<Rightarrow> 'c option \<Rightarrow> 'c option res" where
  "add_ids g [] cs = Inr cs"
| "add_ids g (k # ks) cs = bnd (add_id g k cs) (add_ids g ks)"

definition network_chunkBuffer_to_buffermap ::
  "('g, 'c, 'n) grapes \<Rightarrow> ('g, 'c, 'n, 'w) net \<Rightarrow> 'c option res"
where
  "network_chunkBuffer_to_buffermap g s =
     add_ids g (map ck_id (cb_get_chunks g (nt_lib s))) (chunkID_set_init g None)"

definition set_ids :: "('g, 'c, 'n) grapes \<Rightarrow> 'c \<Rightarrow> int list" where
  "set_ids g cs = map (\<lambda>i. chunkID_set_get_chunk g cs i) [0 .. chunkID_set_size g cs - 1]"

definition network_get_needed_chunks ::
  "('g, 'c, 'n) grapes \<Rightarrow> 'c option \<Rightarrow> ('g, 'c, 'n, 'w) net \<Rightarrow> 'c option res"
where
  "network_get_needed_chunks g received s =
     (case chunkID_set_init g (Some ''size=0,type=bitmap'') of
        None \<Rightarrow> Inr None
      | Some cset \<Rightarrow>
          bnd (deref received) (\<lambda>rcv.
          add_ids g (filter (\<lambda>k. nt_firstChunk s < k) (set_ids g rcv)) (Some cset)))"

section \<open>Messages with chunks\<close>

definition network_handle_chunk_message ::
  "('g, 'c, 'n) grapes \<Rightarrow> ('e, 'w) output_interface \<Rightarrow> 'n \<Rightarrow> byte list \<Rightarrow> int
     \<Rightarrow> ('g, 'c, 'n, 'w) net \<Rightarrow> ('g, 'c, 'n, 'w) net res"
where
  "network_handle_chunk_message g m remote buffer n s =
     (case parseChunkMsg g (drop 1 buffer) (n - 1) of (res, c, transid) \<Rightarrow>
        if res > 0 then
          bnd (deref (nt_output s)) (\<lambda>w.
          bnd (if oi_secured_data_enabled_chunk m w = 1 then
                 bnd (deref (chunkID_set_init g (Some ''size=1''))) (\<lambda>cset.
                 Inr (emit (RequestSecuredDataChunk (nt_serverSocket s)
                        (chunkID_set_add_chunk g cset (ck_id c)) transid) s))
               else
                 bnd (oi_deliver m (nt_firstChunk s) w c) (\<lambda>(_, w1). Inr (s\<lparr>nt_output := Some w1\<rparr>)))
            (\<lambda>s1.
          case cb_add_chunk g (nt_lib s1) c of (added, lib) \<Rightarrow>
            let s2 = s1\<lparr>nt_lib := lib\<rparr>
            in Inr (if added < 0 then emit (FreeChunk c) s2 else s2)))
        else Inr s)"

definition network_handle_secured_chunk_message ::
  "('g, 'c, 'n) grapes \<Rightarrow> ('e, 'w) output_interface \<Rightarrow> 'n \<Rightarrow> byte list \<Rightarrow> int
     \<Rightarrow> ('g, 'c, 'n, 'w) net \<Rightarrow> ('g, 'c, 'n, 'w) net res"
where
  "network_handle_secured_chunk_message g m remote buffer n s =
     (case parseChunkMsg g (drop 1 buffer) (n - 1) of (res, c, transid) \<Rightarrow>
        if res > 0 then
          bnd (deref (nt_output s)) (\<lambda>w.
          bnd (oi_deliver_secured_data_chunk m w c) (\<lambda>(res1, w1).
          let s1 = s\<lparr>nt_output := Some w1\<rparr>
          in Inr (if res1 < 0 then emit (FreeChunk c) s1 else s1)))
        else Inr s)"

definition network_handle_secured_login_message ::
  "('g, 'c, 'n) grapes \<Rightarrow> ('e, 'w) output_interface \<Rightarrow> 'n \<Rightarrow> byte list \<Rightarrow> int
     \<Rightarrow> ('g, 'c, 'n, 'w) net \<Rightarrow> ('g, 'c, 'n, 'w) net res"
where
  "network_handle_secured_login_message g m remote buffer n s =
     (case parseChunkMsg g (drop 1 buffer) (n - 1) of (res, c, transid) \<Rightarrow>
        if res > 0 then
          bnd (deref (nt_output s)) (\<lambda>w.
          bnd (oi_deliver_secured_data_login m w c) (\<lambda>(res1, w1).
          let s1 = s\<lparr>nt_output := Some w1\<rparr>
          in Inr (if res1 < 0 then emit (FreeChunk c) s1 else s1)))
        else Inr s)"

text \<open>The set the requests name is an uninitialised local, \<open>None\<close> here.\<close>

definition network_ask_for_chunk ::
  "('g, 'c, 'n) grapes \<Rightarrow> int \<Rightarrow> ('g, 'c, 'n, 'w) net \<Rightarrow> ('g, 'c, 'n, 'w) net res"
where
  "network_ask_for_chunk g chunkId s =
     (let neighbours = psample_get_cache g (nt_lib s); cset = None
      in bnd (initialised cset) (\<lambda>c.
         let cset1 = chunkID_set_add_chunk g c chunkId
         in Inr (fold (\<lambda>n. emit (RequestChunks n (Some cset1) 1 0)) neighbours s)))"

section \<open>Lemmas\<close>

lemma initialised_simps [simp]:
  "initialised None = Inl (UB Uninitialised)" "initialised (Some x) = Inr x"
  by (simp_all add: initialised_def)

lemma initialised_Inr [simp]: "initialised v = Inr x \<longleftrightarrow> v = Some x"
  by (cases v) auto

lemma emit_simps [simp]:
  "nt_lib (emit e s) = nt_lib s" "nt_peerChunks (emit e s) = nt_peerChunks s"
  "nt_peerChunksSize (emit e s) = nt_peerChunksSize s" "nt_peers (emit e s) = nt_peers s"
  "nt_firstChunk (emit e s) = nt_firstChunk s" "nt_output (emit e s) = nt_output s"
  "nt_transId (emit e s) = nt_transId s" "nt_stopThreads (emit e s) = nt_stopThreads s"
  "nt_chunkIDSet (emit e s) = nt_chunkIDSet s" "nt_serverSocket (emit e s) = nt_serverSocket s"
  "nt_chunkBufferSize (emit e s) = nt_chunkBufferSize s"
  "nt_log (emit e s) = nt_log s @ [e]"
  by (simp_all add: emit_def)

lemma length_realloc_one [simp]: "length (realloc_one p) = 1"
  by (simp add: realloc_one_def split: option.splits list.splits)

text \<open>
  The documented behaviour of GRAPES's chunk id sets: \<open>ids\<close> lists the ids of a set in the
  order in which \<open>chunkID_set_get_chunk\<close> numbers them.
\<close>

definition cset_laws :: "('g, 'c, 'n) grapes \<Rightarrow> ('c \<Rightarrow> int list) \<Rightarrow> bool" where
  "cset_laws g ids \<longleftrightarrow>
     (\<forall>cfg c. chunkID_set_init g cfg = Some c \<longrightarrow> ids c = [])
     \<and> (\<forall>c k. set (ids (chunkID_set_add_chunk g c k)) = insert k (set (ids c)))
     \<and> (\<forall>c. chunkID_set_size g c = int (length (ids c)))
     \<and> (\<forall>c i. 0 \<le> i \<and> i < int (length (ids c)) \<longrightarrow> chunkID_set_get_chunk g c i = ids c ! nat i)"

lemma set_ids_abs:
  assumes "cset_laws g ids"
  shows "set_ids g c = ids c"
proof (rule nth_equalityI)
  have sz: "chunkID_set_size g c = int (length (ids c))"
    using assms by (simp add: cset_laws_def)
  then show "length (set_ids g c) = length (ids c)"
    by (simp add: set_ids_def)
  fix i assume "i < length (set_ids g c)"
  then show "set_ids g c ! i = ids c ! i"
    using assms sz by (simp add: set_ids_def cset_laws_def nth_upto)
qed

lemma add_ids_abs:
  assumes "cset_laws g ids"
  shows "\<exists>c'. add_ids g ks (Some c) = Inr (Some c') \<and> set (ids c') = set (ids c) \<union> set ks"
proof (induction ks arbitrary: c)
  case (Cons k ks)
  have "set (ids (chunkID_set_add_chunk g c k)) = insert k (set (ids c))"
    using assms by (simp add: cset_laws_def)
  then show ?case
    using Cons [of "chunkID_set_add_chunk g c k"] by (auto simp: add_id_def)
qed simp

section \<open>A concrete library\<close>

text \<open>
  For runs on concrete input: a chunk buffer that holds a list of chunks and refuses none,
  id sets as lists, nodes as numbers, no peer sampler.
\<close>

definition ex_grapes :: "chunk \<Rightarrow> (int list, nat) signal \<Rightarrow> (chunk list, int list, nat) grapes" where
  "ex_grapes c sig = \<lparr>
     cb_get_chunk = (\<lambda>l k. List.find (\<lambda>c. ck_id c = k) l),
     cb_get_chunks = (\<lambda>l. l),
     cb_add_chunk = (\<lambda>l c. (0, l @ [c])),
     psample_parse_data = (\<lambda>l bs n. l),
     psample_get_cache = (\<lambda>l. [1, 2]),
     peerset_get_peer = (\<lambda>l n. None),
     chunkID_set_init = (\<lambda>cfg. Some []),
     chunkID_set_add_chunk = (\<lambda>cs k. List.insert k cs),
     chunkID_set_size = (\<lambda>cs. int (length cs)),
     chunkID_set_get_chunk = (\<lambda>cs i. cs ! nat i),
     chunkID_set_get_earliest = (\<lambda>cs. case cs of [] \<Rightarrow> - 1 | k # ks \<Rightarrow> fold min ks k),
     parseChunkMsg = (\<lambda>bs n. (1, c, 7)),
     parseSignaling = (\<lambda>bs n. sig),
     nodeid_equal = (\<lambda>a b. if a = Some b then 1 else 0),
     msg_TOPOLOGY = 16, msg_CHUNK = 17, msg_SECURED_DATA_CHUNK = 19,
     msg_SECURED_DATA_LOGIN = 20, msg_SIGNALLING = 18\<rparr>"

definition ex_net :: "chunk list \<Rightarrow> (chunk list, int list, nat, 'w) net" where
  "ex_net l = \<lparr>nt_lib = l, nt_chunkBufferSize = 0, nt_chunkIDSet = Some [],
     nt_peerChunks = None, nt_peerChunksSize = 0, nt_peers = (\<lambda>r. Freed), nt_firstChunk = - 1,
     nt_transId = 1, nt_stopThreads = 0, nt_serverSocket = Some 1, nt_output = None, nt_log = []\<rparr>"

definition ex_ck :: "int \<Rightarrow> chunk" where
  "ex_ck k = \<lparr>ck_id = k, ck_size = 1, ck_data = Some [1], ck_attributes = None\<rparr>"

lemma ex_cset_laws: "cset_laws (ex_grapes c sig) (\<lambda>cs. cs)"
  by (simp add: cset_laws_def ex_grapes_def)

section \<open>Properties\<close>

text \<open>
  The buffer map is the chunk buffer: the set made by
  \<open>network_chunkBuffer_to_buffermap\<close> has exactly the ids of the chunks in the buffer.
\<close>

lemma buffermap_exact:
  assumes "cset_laws g ids" and "chunkID_set_init g None = Some c0"
  shows "\<exists>c. network_chunkBuffer_to_buffermap g s = Inr (Some c)
    \<and> set (ids c) = ck_id ` set (cb_get_chunks g (nt_lib s))"
proof -
  have "ids c0 = []" using assms by (auto simp: cset_laws_def)
  then show ?thesis
    using add_ids_abs [OF assms(1), of "map ck_id (cb_get_chunks g (nt_lib s))" c0] assms(2)
    by (simp add: network_chunkBuffer_to_buffermap_def)
qed

text \<open>
  The chunks asked for after a buffer map are exactly the received ids above
  \<open>firstChunk\<close>, whether or not the chunk buffer already holds them.
\<close>

lemma needed_chunks_exact:
  assumes "cset_laws g ids" and "chunkID_set_init g (Some ''size=0,type=bitmap'') = Some c0"
  shows "\<exists>c. network_get_needed_chunks g (Some rcv) s = Inr (Some c)
    \<and> set (ids c) = {k \<in> set (ids rcv). nt_firstChunk s < k}"
proof -
  have "ids c0 = []" using assms by (auto simp: cset_laws_def)
  then show ?thesis
    using add_ids_abs [OF assms(1), of "filter (\<lambda>k. nt_firstChunk s < k) (ids rcv)" c0] assms
    by (simp add: network_get_needed_chunks_def set_ids_abs [OF assms(1)])
qed

text \<open>
  C31. The list of chunks to send cannot be used: after \<open>network_add_to_peerChunk\<close> has put
  its first entry into the empty list, both the next one and the sending loop reach outside
  the one entry that was allocated.
\<close>

theorem peerChunks_overrun:
  assumes "nt_peerChunksSize s = 0" and "cb_get_chunk g (nt_lib s) k = Some c"
    and "\<And>r. peerset_get_peer g (nt_lib s) remote = Some r \<Longrightarrow> nt_peers s r \<noteq> Freed"
  shows "\<exists>s1. network_add_to_peerChunk g remote k s = Inr (0, s1)
    \<and> network_send_chunks_to_peers g s1 = Inl (UB Out_Of_Bounds)
    \<and> network_add_to_peerChunk g remote k s1 = Inl (UB Out_Of_Bounds)"
proof -
  obtain e where r: "realloc_one (nt_peerChunks s) = [e]"
    by (metis length_realloc_one length_0_conv length_Suc_conv One_nat_def)
  let ?p = "peerset_get_peer g (nt_lib s) remote"
  let ?s1 = "s\<lparr>nt_peerChunks := Some [Some (?p, k)], nt_peerChunksSize := 2\<rparr>"
  have a: "network_add_to_peerChunk g remote k s = Inr (0, ?s1)"
    using assms(1,2) r by (simp add: network_add_to_peerChunk_def cint_def INT_MIN_def INT_MAX_def)
  have "network_add_to_peerChunk g remote k ?s1 = Inl (UB Out_Of_Bounds)"
    using assms(2) by (simp add: network_add_to_peerChunk_def index_def)
  moreover have "\<exists>s2. send_one g ?s1 0 = Inr (s2\<lparr>nt_peerChunks := Some [Some (None, k)]\<rparr>, True)
      \<and> nt_peerChunksSize s2 = 2"
    using assms(2,3) by (cases ?p) (auto simp: send_one_def free_peer_def peer_at_def split: peer.splits)
  then have "network_send_chunks_to_peers g ?s1 = Inl (UB Out_Of_Bounds)"
    by (auto simp: network_send_chunks_to_peers_def upto.simps send_one_def index_def)
  ultimately show ?thesis using a by blast
qed

theorem peerChunks_overrun_witness:
  "\<exists>s1. network_add_to_peerChunk (ex_grapes (ex_ck 0) undefined) 1 3 (ex_net [ex_ck 3]) = Inr (0, s1)
    \<and> network_send_chunks_to_peers (ex_grapes (ex_ck 0) undefined) s1 = Inl (UB Out_Of_Bounds)"
  using peerChunks_overrun [of "ex_net [ex_ck 3]" "ex_grapes (ex_ck 0) undefined" 3 "ex_ck 3" 1]
  by (auto simp: ex_grapes_def ex_net_def ex_ck_def)

end
