(* ===== verification/Locking.thy ===== *)
theory Locking
  imports Prelude
begin

text \<open>
  Threads that take mutexes in the order of a rank and give them back in reverse order: the
  interleaved execution of their lock and unlock actions, mutual exclusion, and the absence
  of deadlocks.  The locale states what a program owes to the protocol; theory \<open>Threads\<close>
  shows that the code of \<open>src/threads.c\<close> pays it.
\<close>

section \<open>Actions and their interleaving\<close>

datatype 'm act = Acq 'm | Rel 'm

text \<open>
  The mutexes held after a sequence of actions, the latest first; \<open>None\<close> when one is taken
  against the order, or given back though it is not the latest.
\<close>

fun held :: "('m \<Rightarrow> nat) \<Rightarrow> 'm list \<Rightarrow> 'm act list \<Rightarrow> 'm list option" where
  "held rank hs [] = Some hs"
| "held rank hs (Acq m # as) =
     (if \<forall>h\<in>set hs. rank h < rank m then held rank (m # hs) as else None)"
| "held rank [] (Rel m # as) = None"
| "held rank (h # hs) (Rel m # as) = (if h = m then held rank hs as else None)"

text \<open>
  A configuration: for each thread the mutexes it holds and the actions it has left.  A step
  of a thread takes a mutex no thread holds, or gives one back.
\<close>

type_synonym 'm config = "('m list \<times> 'm act list) list"

inductive lock_step :: "'m config \<Rightarrow> 'm config \<Rightarrow> bool" where
  acquire: "i < length ts \<Longrightarrow> ts ! i = (hs, Acq m # as) \<Longrightarrow> \<forall>t\<in>set ts. m \<notin> set (fst t) \<Longrightarrow>
     lock_step ts (ts[i := (m # hs, as)])"
| release: "i < length ts \<Longrightarrow> ts ! i = (m # hs, Rel m # as) \<Longrightarrow> lock_step ts (ts[i := (hs, as)])"

inductive_cases lock_stepE: "lock_step ts ts'"

definition finished :: "'m config \<Rightarrow> bool" where
  "finished ts \<longleftrightarrow> (\<forall>t\<in>set ts. snd t = [])"

definition exclusive :: "'m config \<Rightarrow> bool" where
  "exclusive ts \<longleftrightarrow> (\<forall>i<length ts. \<forall>j<length ts. i \<noteq> j \<longrightarrow>
     set (fst (ts ! i)) \<inter> set (fst (ts ! j)) = {})"

definition config_ok :: "('m \<Rightarrow> nat) \<Rightarrow> 'm config \<Rightarrow> bool" where
  "config_ok rank ts \<longleftrightarrow> exclusive ts \<and> (\<forall>t\<in>set ts. held rank (fst t) (snd t) = Some [])"

section \<open>Lemmas\<close>

lemma held_append:
  "held rank hs as = Some hs1 \<Longrightarrow> held rank hs (as @ bs) = held rank hs1 bs"
  by (induction rank hs as rule: held.induct) (auto split: if_splits)

lemma held_block:
  assumes "held rank (m # hs) as = Some (m # hs)" and "\<forall>h\<in>set hs. rank h < rank m"
  shows "held rank hs (Acq m # as @ [Rel m]) = Some hs"
  using assms by (simp add: held_append)

lemma exclusive_update:
  assumes "exclusive ts" and "i < length ts"
    and "\<And>j. j < length ts \<Longrightarrow> j \<noteq> i \<Longrightarrow> set hs \<inter> set (fst (ts ! j)) = {}"
  shows "exclusive (ts[i := (hs, as)])"
  using assms by (auto simp: exclusive_def nth_list_update)

lemma config_ok_at:
  "config_ok rank ts \<Longrightarrow> i < length ts \<Longrightarrow> ts ! i = (hs, as) \<Longrightarrow> held rank hs as = Some []"
  unfolding config_ok_def by (metis fst_conv snd_conv nth_mem)

lemma config_ok_step:
  assumes "lock_step ts ts'" and "config_ok rank ts"
  shows "config_ok rank ts'"
  using assms(1)
proof (rule lock_stepE)
  fix i hs m as
  assume i: "i < length ts" and t: "ts ! i = (hs, Acq m # as)"
    and free: "\<forall>t\<in>set ts. m \<notin> set (fst t)" and ts': "ts' = ts[i := (m # hs, as)]"
  have "set (m # hs) \<inter> set (fst (ts ! j)) = {}" if "j < length ts" "j \<noteq> i" for j
    using assms(2) that i t free by (fastforce simp: config_ok_def exclusive_def)
  then have "exclusive ts'"
    using assms(2) i ts' by (simp add: config_ok_def exclusive_update)
  moreover have "held rank hs (Acq m # as) = Some []"
    using config_ok_at [OF assms(2) i t] .
  then have "held rank (m # hs) as = Some []"
    by (simp split: if_splits)
  ultimately show ?thesis
    using assms(2) ts' set_update_subset_insert [of ts i] by (fastforce simp: config_ok_def)
next
  fix i m hs as
  assume i: "i < length ts" and t: "ts ! i = (m # hs, Rel m # as)" and ts': "ts' = ts[i := (hs, as)]"
  have "set hs \<inter> set (fst (ts ! j)) = {}" if "j < length ts" "j \<noteq> i" for j
    using assms(2) that i t by (fastforce simp: config_ok_def exclusive_def)
  then have "exclusive ts'"
    using assms(2) i ts' by (simp add: config_ok_def exclusive_update)
  moreover have "held rank (m # hs) (Rel m # as) = Some []"
    using config_ok_at [OF assms(2) i t] .
  then have "held rank hs as = Some []" by simp
  ultimately show ?thesis
    using assms(2) ts' set_update_subset_insert [of ts i] by (fastforce simp: config_ok_def)
qed

text \<open>A thread that cannot move waits for a mutex above all it holds.\<close>

lemma stuck_thread:
  assumes "config_ok rank ts" and "\<nexists>ts'. lock_step ts ts'" and "(hs, as) \<in> set ts" and "as \<noteq> []"
  obtains m as' where "as = Acq m # as'" and "\<forall>h\<in>set hs. rank h < rank m"
    and "\<exists>t\<in>set ts. m \<in> set (fst t)"
proof -
  obtain i where i: "i < length ts" "ts ! i = (hs, as)"
    using assms(3) by (metis in_set_conv_nth)
  have h: "held rank hs as = Some []"
    using assms(1,3) by (fastforce simp: config_ok_def)
  obtain a as' where as: "as = a # as'" using assms(4) by (cases as) auto
  show ?thesis
  proof (cases a)
    case (Acq m)
    have "\<exists>t\<in>set ts. m \<in> set (fst t)"
      using assms(2) i as Acq acquire [of i ts hs m as'] by blast
    then show ?thesis using that as Acq h by (auto split: if_splits)
  next
    case (Rel m)
    then obtain hs' where "hs = m # hs'" using h as by (cases hs) (auto split: if_splits)
    then have False using assms(2) i as Rel release [of i ts m hs' as'] by blast
    then show ?thesis ..
  qed
qed

lemma progress:
  assumes "config_ok rank ts" and "\<not> finished ts"
  shows "\<exists>ts'. lock_step ts ts'"
proof (rule ccontr)
  assume stuck: "\<nexists>ts'. lock_step ts ts'"
  define W where "W = {m. \<exists>hs as. (hs, Acq m # as) \<in> set ts}"
  have "W \<subseteq> (\<lambda>t. case snd t of Acq m # as \<Rightarrow> m | _ \<Rightarrow> undefined) ` set ts"
    by (force simp: W_def)
  then have fin: "finite W" by (rule finite_subset) simp
  obtain hs as where u: "(hs, as) \<in> set ts" "as \<noteq> []"
    using assms(2) by (auto simp: finished_def)
  then obtain m0 as0 where "as = Acq m0 # as0"
    by (rule stuck_thread [OF assms(1) stuck])
  then have "W \<noteq> {}"
    using u(1) by (auto simp: W_def)
  then have "Max (rank ` W) \<in> rank ` W" using fin by simp
  then obtain m where m: "m \<in> W" and mx: "rank m = Max (rank ` W)" by auto
  have max: "rank k \<le> rank m" if "k \<in> W" for k
    using that fin mx by simp
  from m obtain hs1 as1 where t1: "(hs1, Acq m # as1) \<in> set ts" by (auto simp: W_def)
  obtain t where t: "t \<in> set ts" "m \<in> set (fst t)"
    by (rule stuck_thread [OF assms(1) stuck t1]) auto
  then have "held rank (fst t) (snd t) = Some []" using assms(1) by (simp add: config_ok_def)
  then have busy: "snd t \<noteq> []" using t(2) by (cases "snd t") auto
  have "(fst t, snd t) \<in> set ts" using t(1) by simp
  then obtain k as' where k: "snd t = Acq k # as'" "\<forall>h\<in>set (fst t). rank h < rank k"
    using busy by (rule stuck_thread [OF assms(1) stuck])
  then have "k \<in> W" using t(1) by (cases t) (auto simp: W_def)
  then show False using max k(2) t(2) by fastforce
qed

text \<open>Every step leaves fewer actions, so the threads can always be run to their end.\<close>

definition actions_left :: "'m config \<Rightarrow> nat" where
  "actions_left ts = sum_list (map (\<lambda>t. length (snd t)) ts)"

lemma actions_left_update:
  assumes "i < length ts" and "length as < length (snd (ts ! i))"
  shows "actions_left (ts[i := (hs, as)]) < actions_left ts"
proof -
  have "actions_left ts = actions_left (take i ts) + length (snd (ts ! i)) + actions_left (drop (Suc i) ts)"
    using id_take_nth_drop [OF assms(1)] by (metis (no_types, lifting) actions_left_def map_append
        sum_list_append list.simps(9) sum_list.Cons add.assoc)
  moreover have "actions_left (ts[i := (hs, as)])
      = actions_left (take i ts) + length as + actions_left (drop (Suc i) ts)"
    using assms(1) by (simp add: upd_conv_take_nth_drop actions_left_def)
  ultimately show ?thesis using assms(2) by simp
qed

lemma actions_left_step: "lock_step ts ts' \<Longrightarrow> actions_left ts' < actions_left ts"
  by (induction rule: lock_step.induct) (simp_all add: actions_left_update)

lemma runs_to_end: "config_ok rank ts \<Longrightarrow> \<exists>ts'. lock_step\<^sup>*\<^sup>* ts ts' \<and> finished ts'"
proof (induction "actions_left ts" arbitrary: ts rule: less_induct)
  case less
  show ?case
  proof (cases "finished ts")
    case False
    then obtain ts1 where "lock_step ts ts1" using progress less.prems by blast
    then show ?thesis
      using less.hyps actions_left_step config_ok_step less.prems
      by (meson converse_rtranclp_into_rtranclp)
  qed auto
qed

lemma config_ok_steps: "lock_step\<^sup>*\<^sup>* ts ts' \<Longrightarrow> config_ok rank ts \<Longrightarrow> config_ok rank ts'"
  by (induction rule: rtranclp_induct) (auto intro: config_ok_step)

section \<open>Programs that keep the order\<close>

locale lock_client =
  fixes rank :: "'m \<Rightarrow> nat"
    and acts :: "'p \<Rightarrow> 'm act list"
    and prog :: "'p \<Rightarrow> bool"
  assumes disciplined: "prog p \<Longrightarrow> held rank [] (acts p) = Some []"
begin

lemma start_ok: "\<forall>p\<in>set ps. prog p \<Longrightarrow> config_ok rank (map (\<lambda>p. ([], acts p)) ps)"
  using disciplined by (auto simp: config_ok_def exclusive_def)

lemma reachable_safe:
  assumes "\<forall>p\<in>set ps. prog p" and "lock_step\<^sup>*\<^sup>* (map (\<lambda>p. ([], acts p)) ps) ts"
  shows "exclusive ts" and "finished ts \<or> (\<exists>ts'. lock_step ts ts')"
    and "\<exists>ts'. lock_step\<^sup>*\<^sup>* ts ts' \<and> finished ts'"
proof -
  have ok: "config_ok rank ts"
    using config_ok_steps [OF assms(2) start_ok [OF assms(1)]] .
  then show "exclusive ts" by (simp add: config_ok_def)
  show "finished ts \<or> (\<exists>ts'. lock_step ts ts')" using progress [OF ok] by blast
  show "\<exists>ts'. lock_step\<^sup>*\<^sup>* ts ts' \<and> finished ts'" using runs_to_end [OF ok] .
qed

end

end
