(* ===== verification/Threads.thy ===== *)
theory Threads
  imports Network Locking
begin

text \<open>
  \<open>src/threads.c\<close>: what one received message does, one round of each of the other threads,
  the threads' loops, and \<open>threads_start\<close>.  Each is a function on the state of theory
  \<open>Network\<close>; locking and unlocking the three mutexes is recorded in the log.
\<close>

section \<open>Signalling messages\<close>

definition locked ::
  "mutex \<Rightarrow> (('g, 'c, 'n, 'w) net \<Rightarrow> ('g, 'c, 'n, 'w) net res) \<Rightarrow> ('g, 'c, 'n, 'w) net
     \<Rightarrow> ('g, 'c, 'n, 'w) net res"
where
  "locked mx f s = bnd (f (emit (Lock mx) s)) (\<lambda>s1. Inr (emit (Unlock mx) s1))"

text \<open>The set that came with a message.\<close>

definition received_set :: "('c, 'n) signal \<Rightarrow> 'c res" where
  "received_set sg = bnd (initialised (sg_cset sg)) deref"

text \<open>\<open>sig_accept\<close> and \<open>sig_deliver\<close> have the same body.\<close>

definition handle_accept ::
  "('g, 'c, 'n) grapes \<Rightarrow> 'n \<Rightarrow> ('c, 'n) signal \<Rightarrow> ('g, 'c, 'n, 'w) net \<Rightarrow> ('g, 'c, 'n, 'w) net res"
where
  "handle_accept g remote sg =
     locked peerChunkMutex (\<lambda>s.
     bnd (received_set sg) (\<lambda>rcv.
     bnd (for_loop (\<lambda>_ i. Inr (i < chunkID_set_size g rcv))
            (\<lambda>s1 i. bnd (network_add_to_peerChunk g remote (chunkID_set_get_chunk g rcv i) s1)
               (\<lambda>(_, s2). Inr (s2, True)))
            [0 .. chunkID_set_size g rcv] s) (\<lambda>(s3, _). Inr s3)))"

text \<open>One offered chunk: the loop state is the network state, the set to accept, the count.\<close>

definition offer_one ::
  "('g, 'c, 'n) grapes \<Rightarrow> 'c \<Rightarrow> ('g, 'c, 'n, 'w) net \<times> 'c option \<times> int \<Rightarrow> int
     \<Rightarrow> ((('g, 'c, 'n, 'w) net \<times> 'c option \<times> int) \<times> bool) res"
where
  "offer_one g rcv = (\<lambda>(s, forMe, count) i.
     let chunkId = chunkID_set_get_chunk g rcv i
     in if cb_get_chunk g (nt_lib s) chunkId = None then
          let s1 = (if nt_firstChunk s = - 1 then s\<lparr>nt_firstChunk := chunkId\<rparr> else s)
          in if chunkId \<ge> nt_firstChunk s1 then
               bnd (add_id g chunkId forMe) (\<lambda>forMe1.
               bnd (cint (count + 1)) (\<lambda>count1. Inr ((s1, forMe1, count1), True)))
             else Inr ((s1, forMe, count), True)
        else Inr ((s, forMe, count), True))"

definition offer_loop ::
  "('g, 'c, 'n) grapes \<Rightarrow> ('c, 'n) signal \<Rightarrow> 'c option \<Rightarrow> ('g, 'c, 'n, 'w) net
     \<Rightarrow> (('g, 'c, 'n, 'w) net \<times> 'c option) res"
where
  "offer_loop g sg forMe s =
     bnd (received_set sg) (\<lambda>rcv.
     bnd (for_loop
            (\<lambda>(_, _, count) i.
               if i < chunkID_set_size g rcv
               then bnd (initialised (sg_maxDeliver sg)) (\<lambda>mx. Inr (count < mx)) else Inr False)
            (offer_one g rcv) [0 .. chunkID_set_size g rcv] (s, forMe, 0)) (\<lambda>((s1, forMe1, _), _).
     Inr (s1, forMe1)))"

definition handle_offer ::
  "('g, 'c, 'n) grapes \<Rightarrow> 'n \<Rightarrow> ('c, 'n) signal \<Rightarrow> ('g, 'c, 'n, 'w) net \<Rightarrow> ('g, 'c, 'n, 'w) net res"
where
  "handle_offer g remote sg s =
     bnd (offer_loop g sg (chunkID_set_init g (Some ''size=0'')) (emit (Lock chunkBufferMutex) s))
       (\<lambda>(s1, forMe).
     let s2 = emit (Unlock chunkBufferMutex) s1
     in bnd (initialised (sg_transId sg)) (\<lambda>t. Inr (emit (AcceptChunks remote forMe t) s2)))"

definition handle_request ::
  "('g, 'c, 'n) grapes \<Rightarrow> 'n \<Rightarrow> ('c, 'n) signal \<Rightarrow> ('g, 'c, 'n, 'w) net \<Rightarrow> ('g, 'c, 'n, 'w) net res"
where
  "handle_request g remote sg s =
     bnd (deref (nt_chunkIDSet s)) (\<lambda>own.
     let chunkToSend = chunkID_set_get_earliest g own
     in locked chunkBufferMutex (locked peerChunkMutex (\<lambda>s1.
        bnd (network_add_to_peerChunk g remote chunkToSend s1) (\<lambda>(res, s2).
        if res = 0 then
          bnd (deref (chunkID_set_init g (Some ''size=1''))) (\<lambda>cset.
          bnd (initialised (sg_transId sg)) (\<lambda>t.
          Inr (emit (DeliverChunks remote (chunkID_set_add_chunk g cset chunkToSend) t) s2)))
        else
          bnd (network_chunkBuffer_to_buffermap g s2) (\<lambda>bmap.
          bnd (initialised (sg_transId sg)) (\<lambda>t.
          Inr (emit (SendBufferMap remote bmap (nt_chunkBufferSize s2) t) s2)))))) s)"

definition handle_send_buffermap ::
  "('g, 'c, 'n) grapes \<Rightarrow> 'n \<Rightarrow> ('c, 'n) signal \<Rightarrow> ('g, 'c, 'n, 'w) net \<Rightarrow> ('g, 'c, 'n, 'w) net res"
where
  "handle_send_buffermap g remote sg s =
     bnd (received_set sg) (\<lambda>rcv.
     bnd (network_get_needed_chunks g (Some rcv) (emit (Lock chunkBufferMutex) s)) (\<lambda>forMe.
     let s1 = emit (Unlock chunkBufferMutex) (emit (Lock chunkBufferMutex) s)
     in bnd (deref forMe) (\<lambda>cset.
        bnd (initialised (sg_transId sg)) (\<lambda>t.
        Inr (emit (RequestChunks remote forMe (chunkID_set_size g cset) t) s1)))))"

definition handle_request_buffermap ::
  "('g, 'c, 'n) grapes \<Rightarrow> 'n \<Rightarrow> ('c, 'n) signal \<Rightarrow> ('g, 'c, 'n, 'w) net \<Rightarrow> ('g, 'c, 'n, 'w) net res"
where
  "handle_request_buffermap g remote sg =
     locked chunkBufferMutex (\<lambda>s.
     bnd (deref (nt_chunkIDSet s)) (\<lambda>own.
     bnd (initialised (sg_transId sg)) (\<lambda>t.
     Inr (emit (SendBufferMap remote (Some own) (chunkID_set_size g own) t) s))))"

definition handle_signalling ::
  "('g, 'c, 'n) grapes \<Rightarrow> 'n \<Rightarrow> byte list \<Rightarrow> int \<Rightarrow> ('g, 'c, 'n, 'w) net \<Rightarrow> ('g, 'c, 'n, 'w) net res"
where
  "handle_signalling g remote buffer n s =
     (let sg = parseSignaling g (drop 1 buffer) (n - 1)
      in bnd (initialised (sg_owner sg)) (\<lambda>_.
         bnd (initialised (sg_type sg)) (\<lambda>ty.
         case ty of
           sig_accept \<Rightarrow> handle_accept g remote sg s
         | sig_deliver \<Rightarrow> handle_accept g remote sg s
         | sig_ack \<Rightarrow> Inr s
         | sig_offer \<Rightarrow> handle_offer g remote sg s
         | sig_request \<Rightarrow> handle_request g remote sg s
         | sig_send_buffermap \<Rightarrow> handle_send_buffermap g remote sg s
         | sig_request_buffermap \<Rightarrow> handle_request_buffermap g remote sg s)))"

section \<open>The receiving thread\<close>

text \<open>
  One message: \<open>buffer\<close> is the static receive buffer after \<open>recv_from_peer\<close> returned \<open>n\<close>.  The
  code does not test \<open>n\<close>: after an error, -1, it goes on with the buffer of the message before
  and with whatever \<open>remote\<close> holds.  Here such a call is one more message, with \<open>n = -1\<close>, that
  buffer, and any node as \<open>remote\<close>; that \<open>remote\<close> may be a wild pointer is not modelled.
\<close>

definition receive_message ::
  "('g, 'c, 'n) grapes \<Rightarrow> ('e, 'w) output_interface \<Rightarrow> 'n \<Rightarrow> byte list \<Rightarrow> int
     \<Rightarrow> ('g, 'c, 'n, 'w) net \<Rightarrow> ('g, 'c, 'n, 'w) net res"
where
  "receive_message g m remote buffer n s =
     bnd (byte_at buffer 0) (\<lambda>msg.
     if msg = msg_TOPOLOGY g then
       locked topologyMutex (\<lambda>s1.
         Inr (s1\<lparr>nt_lib := psample_parse_data g (nt_lib s1) (Some buffer) n\<rparr>)) s
     else if msg = msg_CHUNK g then
       locked chunkBufferMutex (network_handle_chunk_message g m remote buffer n) s
     else if msg = msg_SECURED_DATA_CHUNK g then
       bnd (deref (nt_output s)) (\<lambda>w.
       if oi_secured_data_enabled_chunk m w = 1
       then locked chunkBufferMutex (network_handle_secured_chunk_message g m remote buffer n) s
       else Inr s)
     else if msg = msg_SECURED_DATA_LOGIN g then
       bnd (deref (nt_output s)) (\<lambda>w.
       if oi_secured_data_enabled_login m w = 1
       then network_handle_secured_login_message g m remote buffer n s
       else Inr s)
     else if msg = msg_SIGNALLING g then handle_signalling g remote buffer n s
     else Inr s)"

text \<open>
  The loop over the messages that arrive; at the end of the list the thread waits in
  \<open>recv_from_peer\<close>.
\<close>

fun threads_receive_data ::
  "('g, 'c, 'n) grapes \<Rightarrow> ('e, 'w) output_interface \<Rightarrow> ('n \<times> byte list \<times> int) list
     \<Rightarrow> ('g, 'c, 'n, 'w) net \<Rightarrow> ('g, 'c, 'n, 'w) net res"
where
  "threads_receive_data g m [] s = Inr s"
| "threads_receive_data g m ((remote, buffer, n) # ms) s =
     (if nt_stopThreads s = 1 then Inr s
      else bnd (receive_message g m remote buffer n s) (threads_receive_data g m ms))"

section \<open>The other threads\<close>

text \<open>The first \<open>k\<close> rounds of \<open>while (stopThreads != 1)\<close>.\<close>

fun thread_rounds ::
  "(('g, 'c, 'n, 'w) net \<Rightarrow> ('g, 'c, 'n, 'w) net res) \<Rightarrow> nat \<Rightarrow> ('g, 'c, 'n, 'w) net
     \<Rightarrow> ('g, 'c, 'n, 'w) net res"
where
  "thread_rounds f 0 s = Inr s"
| "thread_rounds f (Suc k) s =
     (if nt_stopThreads s = 1 then Inr s else bnd (f s) (thread_rounds f k))"

definition threads_send_topology ::
  "('g, 'c, 'n) grapes \<Rightarrow> ('g, 'c, 'n, 'w) net \<Rightarrow> ('g, 'c, 'n, 'w) net res"
where
  "threads_send_topology g =
     locked topologyMutex (\<lambda>s.
       let lib = psample_parse_data g (nt_lib s) None 0;
           s1 = s\<lparr>nt_lib := lib\<rparr>
       in Inr (if psample_get_cache g lib = [] then s1\<lparr>nt_stopThreads := 1\<rparr> else s1))"

text \<open>\<open>transId++\<close> as an argument of type \<open>uint16_t\<close>.\<close>

definition next_transId :: "('g, 'c, 'n, 'w) net \<Rightarrow> (int \<times> ('g, 'c, 'n, 'w) net) res" where
  "next_transId s =
     bnd (cint (nt_transId s + 1)) (\<lambda>t. Inr (nt_transId s mod 2 ^ 16, s\<lparr>nt_transId := t\<rparr>))"

fun offer_to ::
  "('g, 'c, 'n) grapes \<Rightarrow> 'n list \<Rightarrow> ('g, 'c, 'n, 'w) net \<Rightarrow> ('g, 'c, 'n, 'w) net res"
where
  "offer_to g [] s = Inr s"
| "offer_to g (n # ns) s =
     (if nodeid_equal g (nt_serverSocket s) n = 0 then
        bnd (network_chunkBuffer_to_buffermap g s) (\<lambda>cset.
        bnd (next_transId s) (\<lambda>(t, s1).
        offer_to g ns (emit (OfferChunks n cset 50 t) s1)))
      else offer_to g ns s)"

definition threads_offer_chunk ::
  "('g, 'c, 'n) grapes \<Rightarrow> ('g, 'c, 'n, 'w) net \<Rightarrow> ('g, 'c, 'n, 'w) net res"
where
  "threads_offer_chunk g =
     locked topologyMutex (locked chunkBufferMutex (\<lambda>s.
       offer_to g (take 10 (psample_get_cache g (nt_lib s))) s))"

definition threads_send_chunk ::
  "('g, 'c, 'n) grapes \<Rightarrow> ('g, 'c, 'n, 'w) net \<Rightarrow> ('g, 'c, 'n, 'w) net res"
where
  "threads_send_chunk g =
     locked topologyMutex (locked chunkBufferMutex (locked peerChunkMutex
       (network_send_chunks_to_peers g)))"

definition threads_request_secured_data_login ::
  "('e, 'w) output_interface \<Rightarrow> ('g, 'c, 'n, 'w) net \<Rightarrow> ('g, 'c, 'n, 'w) net res"
where
  "threads_request_secured_data_login m s =
     bnd (deref (nt_output s)) (\<lambda>w.
     if oi_secured_data_enabled_login m w = 1 then
       bnd (next_transId s) (\<lambda>(t, s1). Inr (emit (RequestSecuredDataLogin (nt_serverSocket s) t) s1))
     else Inr s)"

definition threads_start ::
  "('g, 'c, 'n) grapes \<Rightarrow> ('g, 'c, 'n, 'w) net \<Rightarrow> ('g, 'c, 'n, 'w) net"
where
  "threads_start g s =
     fold (\<lambda>name. emit (Thread name))
       [''receive_data'', ''send_topology'', ''offer_chunk'', ''send_chunk'',
        ''request_secured_data_login'']
       (s\<lparr>nt_stopThreads := 0, nt_lib := psample_parse_data g (nt_lib s) None 0\<rparr>)"

section \<open>The order of the mutexes\<close>

text \<open>
  The order in which the code nests its locks, as the library's \<open>linorder\<close> on mutexes.
\<close>

fun mutex_rank :: "mutex \<Rightarrow> nat" where
  "mutex_rank topologyMutex = 0"
| "mutex_rank chunkBufferMutex = 1"
| "mutex_rank peerChunkMutex = 2"

lemma mutex_rank_inj: "mutex_rank a = mutex_rank b \<Longrightarrow> a = b"
  by (cases a; cases b) auto

instantiation mutex :: linorder
begin

definition less_eq_mutex :: "mutex \<Rightarrow> mutex \<Rightarrow> bool" where
  "less_eq_mutex a b \<longleftrightarrow> mutex_rank a \<le> mutex_rank b"

definition less_mutex :: "mutex \<Rightarrow> mutex \<Rightarrow> bool" where
  "less_mutex a b \<longleftrightarrow> mutex_rank a < mutex_rank b"

instance
  by standard (auto simp: less_eq_mutex_def less_mutex_def intro: mutex_rank_inj)

end

fun lock_act :: "('c, 'n) event \<Rightarrow> mutex act list" where
  "lock_act (Lock m) = [Acq m]"
| "lock_act (Unlock m) = [Rel m]"
| "lock_act e = []"

definition lock_actions :: "('c, 'n) event list \<Rightarrow> mutex act list" where
  "lock_actions es = concat (map lock_act es)"

lemma lock_actions_simps [simp]:
  "lock_actions [] = []" "lock_actions (e # es) = lock_act e @ lock_actions es"
  "lock_actions (es @ fs) = lock_actions es @ lock_actions fs"
  by (simp_all add: lock_actions_def)

text \<open>From \<open>s\<close> to \<open>s'\<close>: no lock action; lock actions that keep the order and are balanced.\<close>

definition quiet :: "('g, 'c, 'n, 'w) net \<Rightarrow> ('g, 'c, 'n, 'w) net \<Rightarrow> bool" where
  "quiet s s' \<longleftrightarrow> (\<exists>es. nt_log s' = nt_log s @ es \<and> lock_actions es = [])"

definition balanced ::
  "mutex list \<Rightarrow> ('g, 'c, 'n, 'w) net \<Rightarrow> ('g, 'c, 'n, 'w) net \<Rightarrow> bool"
where
  "balanced hs s s' \<longleftrightarrow>
     (\<exists>es. nt_log s' = nt_log s @ es \<and> held mutex_rank hs (lock_actions es) = Some hs)"

lemma quiet_same: "nt_log s' = nt_log s \<Longrightarrow> quiet s s'"
  by (simp add: quiet_def)

lemma quiet_trans: "quiet s s1 \<Longrightarrow> quiet s1 s2 \<Longrightarrow> quiet s s2"
  by (auto simp: quiet_def)

lemma quiet_emit: "lock_act e = [] \<Longrightarrow> quiet s s1 \<Longrightarrow> quiet s (emit e s1)"
  by (auto simp: quiet_def)

lemma quiet_log: "quiet s s1 \<Longrightarrow> nt_log s2 = nt_log s1 \<Longrightarrow> quiet s s2"
  by (simp add: quiet_def)

lemma quiet_balanced: "quiet s s' \<Longrightarrow> balanced hs s s'"
  by (auto simp: quiet_def balanced_def)

lemma balanced_same: "nt_log s' = nt_log s \<Longrightarrow> balanced hs s s'"
  by (simp add: quiet_balanced quiet_same)

lemma balanced_trans: "balanced hs s s1 \<Longrightarrow> balanced hs s1 s2 \<Longrightarrow> balanced hs s s2"
  by (auto simp: balanced_def held_append)

lemma balanced_block:
  assumes "balanced (mx # hs) (emit (Lock mx) s) s1" and "\<forall>h\<in>set hs. h < mx"
  shows "balanced hs s (emit (Unlock mx) s1)"
proof -
  obtain es where "nt_log s1 = nt_log s @ Lock mx # es"
    and "held mutex_rank (mx # hs) (lock_actions es) = Some (mx # hs)"
    using assms(1) by (auto simp: balanced_def)
  then show ?thesis
    using held_block [of mutex_rank mx hs "lock_actions es"] assms(2)
    by (auto simp: balanced_def less_mutex_def intro!: exI [of _ "Lock mx # es @ [Unlock mx]"])
qed

lemma balanced_locked:
  assumes "locked mx f s = Inr s'" and "\<forall>h\<in>set hs. h < mx"
    and "\<And>t t'. f t = Inr t' \<Longrightarrow> balanced (mx # hs) t t'"
  shows "balanced hs s s'"
  using assms by (auto simp: locked_def intro: balanced_block)

lemma mutex_order: "topologyMutex < chunkBufferMutex" "chunkBufferMutex < peerChunkMutex"
  "topologyMutex < peerChunkMutex"
  by (simp_all add: less_mutex_def)

section \<open>What the operations log\<close>

lemma quiet_add: "network_add_to_peerChunk g n k s = Inr (r, s') \<Longrightarrow> quiet s s'"
  by (auto simp: network_add_to_peerChunk_def Let_def split: if_splits intro: quiet_same)

lemma quiet_send_one:
  assumes "send_one g s i = Inr (s', k)"
  shows "quiet s s'"
  using assms unfolding send_one_def free_peer_def
  by (auto simp: quiet_def split: option.splits)

lemma quiet_send_chunks:
  assumes "network_send_chunks_to_peers g s = Inr s'"
  shows "quiet s s'"
proof -
  obtain s1 k where l: "for_loop (\<lambda>s i. Inr (i < nt_peerChunksSize s)) (send_one g)
      [0 .. nt_peerChunksSize s] s = Inr (s1, k)"
    and s': "s' = s1\<lparr>nt_peerChunks := None, nt_peerChunksSize := 0\<rparr>"
    using assms by (auto simp: network_send_chunks_to_peers_def)
  from l have "quiet s s1"
    by (rule for_loop_inv) (auto intro: quiet_same quiet_trans quiet_send_one)
  then show ?thesis using s' by (simp add: quiet_def)
qed

lemma quiet_chunk_message:
  "network_handle_chunk_message g m remote buffer n s = Inr s' \<Longrightarrow> quiet s s'"
  by (auto simp: network_handle_chunk_message_def Let_def quiet_def split: prod.splits if_splits)

lemma quiet_secured_chunk_message:
  "network_handle_secured_chunk_message g m remote buffer n s = Inr s' \<Longrightarrow> quiet s s'"
  by (auto simp: network_handle_secured_chunk_message_def Let_def quiet_def
      split: prod.splits if_splits)

lemma quiet_secured_login_message:
  "network_handle_secured_login_message g m remote buffer n s = Inr s' \<Longrightarrow> quiet s s'"
  by (auto simp: network_handle_secured_login_message_def Let_def quiet_def
      split: prod.splits if_splits)

lemmas balanced_messages =
  quiet_chunk_message [THEN quiet_balanced]
  quiet_secured_chunk_message [THEN quiet_balanced]
  quiet_secured_login_message [THEN quiet_balanced]

lemma balanced_accept: "handle_accept g remote sg s = Inr s' \<Longrightarrow> balanced [] s s'"
  unfolding handle_accept_def
proof (erule balanced_locked, simp)
  fix t t'
  assume "bnd (received_set sg) (\<lambda>rcv.
     bnd (for_loop (\<lambda>_ i. Inr (i < chunkID_set_size g rcv))
            (\<lambda>s1 i. bnd (network_add_to_peerChunk g remote (chunkID_set_get_chunk g rcv i) s1)
               (\<lambda>(_, s2). Inr (s2, True)))
            [0 .. chunkID_set_size g rcv] t) (\<lambda>(s3, _). Inr s3)) = Inr t'"
  then obtain rcv k where "for_loop (\<lambda>_ i. Inr (i < chunkID_set_size g rcv))
            (\<lambda>s1 i. bnd (network_add_to_peerChunk g remote (chunkID_set_get_chunk g rcv i) s1)
               (\<lambda>(_, s2). Inr (s2, True)))
            [0 .. chunkID_set_size g rcv] t = Inr (t', k)" by auto
  then have "quiet t t'"
    by (rule for_loop_inv) (auto intro: quiet_same quiet_trans quiet_add)
  then show "balanced [peerChunkMutex] t t'" by (rule quiet_balanced)
qed

lemma quiet_offer_one:
  "offer_one g rcv (s, cs, k) i = Inr ((s', cs', k'), go) \<Longrightarrow> quiet s s'"
  by (auto simp: offer_one_def Let_def split: if_splits intro: quiet_same)

lemma quiet_offer_loop:
  assumes "offer_loop g sg cs s = Inr (s', cs')"
  shows "quiet s s'"
proof -
  obtain rcv c k r where "for_loop c (offer_one g rcv) [0 .. chunkID_set_size g rcv] (s, cs, 0)
      = Inr ((s', cs', k), r)"
    using assms by (auto simp: offer_loop_def)
  then have "(case (s', cs', k) of (t, _) \<Rightarrow> quiet s t)"
    by (rule for_loop_inv) (auto intro: quiet_same quiet_trans quiet_offer_one)
  then show ?thesis by simp
qed

lemma balanced_unlocked:
  "balanced hs s s1 \<Longrightarrow> lock_act e = [] \<Longrightarrow> balanced hs s (emit e s1)"
  by (rule balanced_trans) (auto intro: quiet_balanced quiet_emit quiet_same)

lemma balanced_offer:
  assumes "handle_offer g remote sg s = Inr s'"
  shows "balanced [] s s'"
proof -
  obtain s1 cs t where l: "offer_loop g sg (chunkID_set_init g (Some ''size=0''))
      (emit (Lock chunkBufferMutex) s) = Inr (s1, cs)"
    and s': "s' = emit (AcceptChunks remote cs t) (emit (Unlock chunkBufferMutex) s1)"
    using assms by (auto simp: handle_offer_def Let_def)
  have "balanced [] s (emit (Unlock chunkBufferMutex) s1)"
    by (rule balanced_block) (simp_all add: quiet_balanced quiet_offer_loop [OF l])
  then show ?thesis unfolding s' by (rule balanced_unlocked) simp
qed

lemma balanced_request:
  assumes "handle_request g remote sg s = Inr s'"
  shows "balanced [] s s'"
proof -
  obtain own where l: "locked chunkBufferMutex (locked peerChunkMutex (\<lambda>s1.
        bnd (network_add_to_peerChunk g remote (chunkID_set_get_earliest g own) s1) (\<lambda>(res, s2).
        if res = 0 then
          bnd (deref (chunkID_set_init g (Some ''size=1''))) (\<lambda>cset.
          bnd (initialised (sg_transId sg)) (\<lambda>t.
          Inr (emit (DeliverChunks remote
                 (chunkID_set_add_chunk g cset (chunkID_set_get_earliest g own)) t) s2)))
        else
          bnd (network_chunkBuffer_to_buffermap g s2) (\<lambda>bmap.
          bnd (initialised (sg_transId sg)) (\<lambda>t.
          Inr (emit (SendBufferMap remote bmap (nt_chunkBufferSize s2) t) s2)))))) s = Inr s'"
    (is "locked _ (locked _ ?f) s = _")
    using assms by (auto simp: handle_request_def Let_def)
  have f: "balanced [peerChunkMutex, chunkBufferMutex] t t'" if "?f t = Inr t'" for t t'
    using that by (intro quiet_balanced)
      (auto split: if_splits dest!: quiet_add intro!: quiet_emit)
  show ?thesis
    by (rule balanced_locked [OF l], simp, erule balanced_locked) (simp_all add: mutex_order f)
qed

lemma balanced_send_buffermap:
  assumes "handle_send_buffermap g remote sg s = Inr s'"
  shows "balanced [] s s'"
proof -
  obtain cs k t where s': "s' = emit (RequestChunks remote cs k t)
      (emit (Unlock chunkBufferMutex) (emit (Lock chunkBufferMutex) s))"
    using assms by (auto simp: handle_send_buffermap_def Let_def)
  have "balanced [] s (emit (Unlock chunkBufferMutex) (emit (Lock chunkBufferMutex) s))"
    by (rule balanced_block) (simp_all add: quiet_balanced quiet_same)
  then show ?thesis unfolding s' by (rule balanced_unlocked) simp
qed

lemma balanced_request_buffermap:
  "handle_request_buffermap g remote sg s = Inr s' \<Longrightarrow> balanced [] s s'"
  unfolding handle_request_buffermap_def
  by (erule balanced_locked) (auto intro: balanced_unlocked balanced_same)

lemma balanced_signalling:
  "handle_signalling g remote buffer n s = Inr s' \<Longrightarrow> balanced [] s s'"
  by (auto simp: handle_signalling_def Let_def split: signaling_type.splits
      intro: balanced_accept balanced_offer balanced_request balanced_send_buffermap
        balanced_request_buffermap balanced_same)

lemma balanced_receive:
  assumes "receive_message g m remote buffer n s = Inr s'"
  shows "balanced [] s s'"
proof -
  have top: "balanced [] s s'" if "locked topologyMutex (\<lambda>s1.
      Inr (s1\<lparr>nt_lib := psample_parse_data g (nt_lib s1) (Some buffer) n\<rparr>)) s = Inr s'"
    using that by (rule balanced_locked) (auto intro: balanced_same)
  have chunk: "balanced [] s s'"
    if "locked chunkBufferMutex (network_handle_chunk_message g m remote buffer n) s = Inr s'"
    using that by (rule balanced_locked) (auto intro: balanced_messages)
  have secured: "balanced [] s s'"
    if "locked chunkBufferMutex (network_handle_secured_chunk_message g m remote buffer n) s = Inr s'"
    using that by (rule balanced_locked) (auto intro: balanced_messages)
  have login: "balanced [] s s'"
    if "network_handle_secured_login_message g m remote buffer n s = Inr s'"
    using that by (rule balanced_messages)
  have none: "balanced [] s s'" if "s = s'"
    using that by (simp add: balanced_same)
  show ?thesis
    using assms top chunk secured login none balanced_signalling
    by (auto simp: receive_message_def split: if_splits)
qed

lemma balanced_topology: "threads_send_topology g s = Inr s' \<Longrightarrow> balanced [] s s'"
  unfolding threads_send_topology_def
  by (erule balanced_locked) (auto simp: Let_def intro: balanced_same split: if_splits)

lemma next_transId_log: "next_transId s = Inr (t, s') \<Longrightarrow> nt_log s' = nt_log s"
  by (auto simp: next_transId_def)

lemma quiet_offer_to: "offer_to g ns s = Inr s' \<Longrightarrow> quiet s s'"
proof (induction ns arbitrary: s)
  case Nil
  then show ?case by (simp add: quiet_same)
next
  case (Cons n ns)
  show ?case
  proof (cases "nodeid_equal g (nt_serverSocket s) n = 0")
    case True
    then obtain cs t s1 where "next_transId s = Inr (t, s1)"
      and "offer_to g ns (emit (OfferChunks n cs 50 t) s1) = Inr s'"
      using Cons.prems by auto
    then show ?thesis
      using Cons.IH quiet_trans quiet_emit [of "OfferChunks n cs 50 t" s s1]
        quiet_same [OF next_transId_log] by force
  next
    case False
    then show ?thesis using Cons by simp
  qed
qed

lemma balanced_offer_chunk: "threads_offer_chunk g s = Inr s' \<Longrightarrow> balanced [] s s'"
  unfolding threads_offer_chunk_def
  by (erule balanced_locked, simp, erule balanced_locked)
    (auto simp: mutex_order intro: quiet_balanced quiet_offer_to)

lemma balanced_send_chunk: "threads_send_chunk g s = Inr s' \<Longrightarrow> balanced [] s s'"
  unfolding threads_send_chunk_def
  by (erule balanced_locked, simp, erule balanced_locked, simp add: mutex_order,
      erule balanced_locked)
    (auto simp: mutex_order intro: quiet_balanced quiet_send_chunks)

lemma balanced_login: "threads_request_secured_data_login m s = Inr s' \<Longrightarrow> balanced [] s s'"
  by (auto simp: threads_request_secured_data_login_def balanced_def split: if_splits
      dest!: next_transId_log)

text \<open>What a thread can add to the log, in any number of rounds.\<close>

inductive thread_log ::
  "('g, 'c, 'n) grapes \<Rightarrow> ('e, 'w) output_interface \<Rightarrow> ('c, 'n) event list \<Rightarrow> bool"
  for g :: "('g, 'c, 'n) grapes" and m :: "('e, 'w) output_interface"
where
  idle: "thread_log g m []"
| receive: "thread_log g m es \<Longrightarrow> receive_message g m remote buffer n s = Inr s' \<Longrightarrow>
     nt_log s' = nt_log s @ fs \<Longrightarrow> thread_log g m (es @ fs)"
| topology: "thread_log g m es \<Longrightarrow> threads_send_topology g (s :: ('g, 'c, 'n, 'w) net) = Inr s' \<Longrightarrow>
     nt_log s' = nt_log s @ fs \<Longrightarrow> thread_log g m (es @ fs)"
| offer: "thread_log g m es \<Longrightarrow> threads_offer_chunk g (s :: ('g, 'c, 'n, 'w) net) = Inr s' \<Longrightarrow>
     nt_log s' = nt_log s @ fs \<Longrightarrow> thread_log g m (es @ fs)"
| send: "thread_log g m es \<Longrightarrow> threads_send_chunk g (s :: ('g, 'c, 'n, 'w) net) = Inr s' \<Longrightarrow>
     nt_log s' = nt_log s @ fs \<Longrightarrow> thread_log g m (es @ fs)"
| login: "thread_log g m es \<Longrightarrow>
     threads_request_secured_data_login m (s :: ('g, 'c, 'n, 'w) net) = Inr s' \<Longrightarrow>
     nt_log s' = nt_log s @ fs \<Longrightarrow> thread_log g m (es @ fs)"

lemma balanced_held:
  "balanced hs s s' \<Longrightarrow> nt_log s' = nt_log s @ fs \<Longrightarrow> held mutex_rank hs (lock_actions fs) = Some hs"
  by (auto simp: balanced_def)

lemmas thread_balanced = balanced_receive balanced_topology balanced_offer_chunk
  balanced_send_chunk balanced_login

lemma thread_log_disciplined:
  "thread_log g m es \<Longrightarrow> held mutex_rank [] (lock_actions es) = Some []"
  by (induction rule: thread_log.induct)
    (auto simp: held_append dest!: thread_balanced balanced_held)

interpretation lk: lock_client mutex_rank lock_actions "thread_log g m"
  by unfold_locales (rule thread_log_disciplined)

section \<open>Properties\<close>

text \<open>
  C5. The threads do not deadlock on the three mutexes: whatever number of threads run
  whatever messages and rounds, in any interleaving of their lock operations no mutex is
  held by two threads, some thread can always go on until all are done, and all can be run
  to their end.
\<close>

theorem threads_no_deadlock:
  assumes "\<forall>es\<in>set logs. thread_log g m es"
    and "lock_step\<^sup>*\<^sup>* (map (\<lambda>es. ([], lock_actions es)) logs) ts"
  shows "exclusive ts \<and> (finished ts \<or> (\<exists>ts'. lock_step ts ts'))
    \<and> (\<exists>ts'. lock_step\<^sup>*\<^sup>* ts ts' \<and> finished ts')"
  using lk.reachable_safe [OF assms] by blast

theorem threads_no_deadlock_witness:
  "\<exists>ts. lock_step\<^sup>*\<^sup>* [([], [Acq topologyMutex, Rel topologyMutex]),
      ([], [Acq topologyMutex, Acq chunkBufferMutex, Acq peerChunkMutex,
        Rel peerChunkMutex, Rel chunkBufferMutex, Rel topologyMutex])] ts \<and> finished ts"
proof -
  let ?g = "ex_grapes (ex_ck 0) undefined" and ?m = "undefined :: (unit, unit) output_interface"
  let ?s = "ex_net [] :: (chunk list, int list, nat, unit) net"
  let ?a = "[Lock topologyMutex, Unlock topologyMutex] :: (int list, nat) event list"
  let ?b = "[Lock topologyMutex, Lock chunkBufferMutex, Lock peerChunkMutex,
      Unlock peerChunkMutex, Unlock chunkBufferMutex, Unlock topologyMutex] :: (int list, nat) event list"
  have a: "thread_log ?g ?m ?a"
    using thread_log.topology [OF thread_log.idle, of ?g ?s _ ?a ?m]
    by (simp add: threads_send_topology_def locked_def Let_def ex_grapes_def ex_net_def emit_def)
  have b: "thread_log ?g ?m ?b"
    using thread_log.send [OF thread_log.idle, of ?g ?s _ ?b ?m]
    by (simp add: threads_send_chunk_def locked_def network_send_chunks_to_peers_def upto.simps
        ex_net_def emit_def)
  show ?thesis
    using threads_no_deadlock [of "[?a, ?b]" ?g ?m "map (\<lambda>es. ([], lock_actions es)) [?a, ?b]"] a b
    by simp
qed

text \<open>
  C33. The answer to a request does not depend on the chunks it names: the code looks at the
  earliest id of the plugin's own chunk id set instead.  When this id is not in the chunk
  buffer, the answer is the buffer map, whatever set the request names, also when all of its
  chunks are in the buffer: one message to the sender, with exactly the ids in the chunk
  buffer, under both locks, and the list of chunks to send is left alone.
\<close>

theorem request_ignores_ids:
  assumes "cset_laws g ids" and "chunkID_set_init g None = Some c0"
    and "nt_chunkIDSet s = Some own"
    and "cb_get_chunk g (nt_lib s) (chunkID_set_get_earliest g own) = None"
    and "sg_transId sg = Some t"
  shows "\<exists>s' c. (\<forall>requested. handle_request g remote (sg\<lparr>sg_cset := requested\<rparr>) s = Inr s')
    \<and> nt_log s' = nt_log s @ [Lock chunkBufferMutex, Lock peerChunkMutex,
         SendBufferMap remote (Some c) (nt_chunkBufferSize s) t,
         Unlock peerChunkMutex, Unlock chunkBufferMutex]
    \<and> set (ids c) = ck_id ` set (cb_get_chunks g (nt_lib s))
    \<and> nt_peerChunks s' = nt_peerChunks s \<and> nt_lib s' = nt_lib s"
proof -
  have "ids c0 = []" using assms(1,2) by (auto simp: cset_laws_def)
  then obtain c where "add_ids g (map ck_id (cb_get_chunks g (nt_lib s))) (Some c0) = Inr (Some c)"
    and "set (ids c) = ck_id ` set (cb_get_chunks g (nt_lib s))"
    using add_ids_abs [OF assms(1), of "map ck_id (cb_get_chunks g (nt_lib s))" c0] by auto
  then show ?thesis
    using assms(2-5)
    by (simp add: handle_request_def locked_def network_add_to_peerChunk_def
        network_chunkBuffer_to_buffermap_def)
qed

definition ex_signal :: "int list \<Rightarrow> int \<Rightarrow> signaling_type \<Rightarrow> (int list, nat) signal" where
  "ex_signal ks mx ty = \<lparr>sg_result = 1, sg_owner = Some None, sg_cset = Some (Some ks),
     sg_maxDeliver = Some mx, sg_transId = Some 9, sg_type = Some ty\<rparr>"

theorem request_ignores_ids_witness:
  "\<exists>s' c. handle_request (ex_grapes (ex_ck 0) undefined) 2 (ex_signal [3] 1 sig_request)
      (ex_net [ex_ck 3, ex_ck 4] :: (chunk list, int list, nat, unit) net) = Inr s'
    \<and> handle_request (ex_grapes (ex_ck 0) undefined) 2 (ex_signal [8, 9] 1 sig_request)
      (ex_net [ex_ck 3, ex_ck 4]) = Inr s'
    \<and> SendBufferMap 2 (Some c) 0 9 \<in> set (nt_log s') \<and> set c = {3, 4}"
proof -
  let ?g = "ex_grapes (ex_ck 0) undefined" 
    and ?s = "ex_net [ex_ck 3, ex_ck 4] :: (chunk list, int list, nat, unit) net"
  have "chunkID_set_init ?g None = Some []" and "nt_chunkIDSet ?s = Some []"
    and "cb_get_chunk ?g (nt_lib ?s) (chunkID_set_get_earliest ?g []) = None"
    and "sg_transId (ex_signal [3] 1 sig_request) = Some 9"
    and "nt_log ?s = []" and "nt_chunkBufferSize ?s = 0"
    and "ck_id ` set (cb_get_chunks ?g (nt_lib ?s)) = {3, 4}"
    by (simp_all add: ex_grapes_def ex_net_def ex_ck_def ex_signal_def)
  then obtain s' c where r: "\<And>requested. handle_request ?g 2
      ((ex_signal [3] 1 sig_request)\<lparr>sg_cset := requested\<rparr>) ?s = Inr s'"
    and "SendBufferMap 2 (Some c) 0 9 \<in> set (nt_log s')" and "set c = {3, 4}"
    using request_ignores_ids [OF ex_cset_laws, of "ex_ck 0" undefined "[]" ?s "[]"
      "ex_signal [3] 1 sig_request" 9 2] by auto
  moreover have "ex_signal ks 1 sig_request = (ex_signal [3] 1 sig_request)\<lparr>sg_cset := Some (Some ks)\<rparr>"
    for ks
    by (simp add: ex_signal_def)
  ultimately show ?thesis by metis
qed

text \<open>
  A round of the topology thread always returns; it stops the threads exactly when the
  peer sampler has no neighbour left, and then no loop that has not yet read
  \<open>stopThreads\<close> starts another round.
\<close>

lemma send_topology_stops:
  "\<exists>s'. threads_send_topology g s = Inr s'
    \<and> nt_stopThreads s' =
        (if psample_get_cache g (psample_parse_data g (nt_lib s) None 0) = [] then 1
         else nt_stopThreads s)
    \<and> nt_log s' = nt_log s @ [Lock topologyMutex, Unlock topologyMutex]
    \<and> (psample_get_cache g (psample_parse_data g (nt_lib s) None 0) \<noteq> []
       \<or> (\<forall>f k ms. thread_rounds f k s' = Inr s' \<and> threads_receive_data g m ms s' = Inr s'))"
proof -
  have rounds: "thread_rounds f k t = Inr t" if "nt_stopThreads t = 1"
    for f k and t :: "('a, 'b, 'c, 'd) net"
    using that by (cases k) simp_all
  have recv: "threads_receive_data g m ms t = Inr t" if "nt_stopThreads t = 1" for ms t
    using that by (cases "(g, m, ms, t)" rule: threads_receive_data.cases) simp_all
  show ?thesis
    by (simp add: threads_send_topology_def locked_def Let_def rounds recv)
qed

text \<open>The offering loop.\<close>

lemma next_transId_ok:
  "0 \<le> nt_transId s \<Longrightarrow> nt_transId s < INT_MAX \<Longrightarrow>
     next_transId s = Inr (nt_transId s mod 2 ^ 16, s\<lparr>nt_transId := nt_transId s + 1\<rparr>)"
  by (simp add: next_transId_def INT_MIN_def)

fun receiver :: "('c, 'n) event \<Rightarrow> 'n option" where
  "receiver (OfferChunks n cs k t) = Some n"
| "receiver e = None"

lemma buffermap_same:
  "nt_lib s' = nt_lib s \<Longrightarrow> network_chunkBuffer_to_buffermap g s' = network_chunkBuffer_to_buffermap g s"
  by (simp add: network_chunkBuffer_to_buffermap_def)

lemma offer_to_log:
  assumes "network_chunkBuffer_to_buffermap g s = Inr cs" and "0 \<le> nt_transId s"
    and "nt_transId s + int (length ns) \<le> INT_MAX"
  shows "\<exists>s' os. offer_to g ns s = Inr s' \<and> nt_log s' = nt_log s @ os
    \<and> map receiver os = map Some (filter (\<lambda>n. nodeid_equal g (nt_serverSocket s) n = 0) ns)
    \<and> (\<forall>e\<in>set os. \<exists>n t. e = OfferChunks n cs 50 t)"
  using assms
proof (induction ns arbitrary: s)
  case Nil
  then show ?case by simp
next
  case (Cons n ns)
  show ?case
  proof (cases "nodeid_equal g (nt_serverSocket s) n = 0")
    case True
    let ?t = "nt_transId s mod 2 ^ 16"
    let ?s1 = "emit (OfferChunks n cs 50 ?t) (s\<lparr>nt_transId := nt_transId s + 1\<rparr>)"
    have "network_chunkBuffer_to_buffermap g ?s1 = Inr cs"
      using Cons.prems(1) buffermap_same [of ?s1 s g] by simp
    then obtain s' os where "offer_to g ns ?s1 = Inr s'" and "nt_log s' = nt_log ?s1 @ os"
      and "map receiver os = map Some (filter (\<lambda>n. nodeid_equal g (nt_serverSocket s) n = 0) ns)"
      and "\<forall>e\<in>set os. \<exists>n t. e = OfferChunks n cs 50 t"
      using Cons.IH [of ?s1] Cons.prems(2,3) by auto
    then show ?thesis
      using True Cons.prems next_transId_ok [of s]
      by (intro exI [of _ s'] exI [of _ "OfferChunks n cs 50 ?t # os"]) simp
  next
    case False
    then show ?thesis using Cons by simp
  qed
qed

text \<open>
  C32. A round of the offering thread sends the buffer map, exactly the ids in the chunk
  buffer, to each of the first ten neighbours that is not the server, in their order and
  once each, while it holds both locks.
\<close>

theorem offer_round:
  assumes "cset_laws g ids" and "chunkID_set_init g None = Some c0"
    and "0 \<le> nt_transId s" and "nt_transId s + 10 \<le> INT_MAX"
  shows "\<exists>s' os c. threads_offer_chunk g s = Inr s'
    \<and> nt_log s' = nt_log s @ [Lock topologyMutex, Lock chunkBufferMutex] @ os
         @ [Unlock chunkBufferMutex, Unlock topologyMutex]
    \<and> map receiver os = map Some (filter (\<lambda>n. nodeid_equal g (nt_serverSocket s) n = 0)
         (take 10 (psample_get_cache g (nt_lib s))))
    \<and> (\<forall>e\<in>set os. \<exists>n t. e = OfferChunks n (Some c) 50 t)
    \<and> set (ids c) = ck_id ` set (cb_get_chunks g (nt_lib s))"
proof -
  have "ids c0 = []" using assms(1,2) by (auto simp: cset_laws_def)
  then obtain c where c: "network_chunkBuffer_to_buffermap g s = Inr (Some c)"
    and ids: "set (ids c) = ck_id ` set (cb_get_chunks g (nt_lib s))"
    using add_ids_abs [OF assms(1), of "map ck_id (cb_get_chunks g (nt_lib s))" c0] assms(2)
    by (auto simp: network_chunkBuffer_to_buffermap_def)
  let ?s1 = "emit (Lock chunkBufferMutex) (emit (Lock topologyMutex) s)"
  have "network_chunkBuffer_to_buffermap g ?s1 = Inr (Some c)"
    using c buffermap_same [of ?s1 s g] by simp
  then have "\<exists>s' os. offer_to g (take 10 (psample_get_cache g (nt_lib s))) ?s1 = Inr s'
    \<and> nt_log s' = nt_log ?s1 @ os
    \<and> map receiver os = map Some (filter (\<lambda>n. nodeid_equal g (nt_serverSocket ?s1) n = 0)
        (take 10 (psample_get_cache g (nt_lib s))))
    \<and> (\<forall>e\<in>set os. \<exists>n t. e = OfferChunks n (Some c) 50 t)"
    by (rule offer_to_log) (use assms(3,4) in simp_all)
  then obtain s1 os where o: "offer_to g (take 10 (psample_get_cache g (nt_lib s))) ?s1 = Inr s1"
    and "nt_log s1 = nt_log s @ [Lock topologyMutex, Lock chunkBufferMutex] @ os"
    and "map receiver os = map Some (filter (\<lambda>n. nodeid_equal g (nt_serverSocket s) n = 0)
        (take 10 (psample_get_cache g (nt_lib s))))"
    and "\<forall>e\<in>set os. \<exists>n t. e = OfferChunks n (Some c) 50 t"
    by auto
  moreover have "threads_offer_chunk g s =
      Inr (emit (Unlock topologyMutex) (emit (Unlock chunkBufferMutex) s1))"
    using o by (simp add: threads_offer_chunk_def locked_def)
  ultimately show ?thesis
    using ids
    by (intro exI [of _ "emit (Unlock topologyMutex) (emit (Unlock chunkBufferMutex) s1)"]
        exI [of _ os] exI [of _ c]) simp
qed

theorem offer_round_witness:
  "\<exists>s' c. threads_offer_chunk (ex_grapes (ex_ck 0) undefined)
        (ex_net [ex_ck 3] :: (chunk list, int list, nat, unit) net) = Inr s'
    \<and> map receiver (nt_log s') = [None, None, Some 2, None, None] \<and> set c = {3 :: int}"
proof -
  let ?g = "ex_grapes (ex_ck 0) undefined"
    and ?s = "ex_net [ex_ck 3] :: (chunk list, int list, nat, unit) net"
  have f: "filter (\<lambda>n. nodeid_equal ?g (nt_serverSocket ?s) n = 0)
      (take 10 (psample_get_cache ?g (nt_lib ?s))) = [2]"
    by (simp add: ex_grapes_def ex_net_def)
  have pre: "chunkID_set_init ?g None = Some []" "0 \<le> nt_transId ?s" "nt_transId ?s + 10 \<le> INT_MAX"
    by (simp_all add: ex_grapes_def ex_net_def INT_MAX_def)
  obtain s' os c where run: "threads_offer_chunk ?g ?s = Inr s'"
    and l: "nt_log s' = nt_log ?s @ [Lock topologyMutex, Lock chunkBufferMutex] @ os
         @ [Unlock chunkBufferMutex, Unlock topologyMutex]"
    and r: "map receiver os = map Some [2]"
    and c: "set c = ck_id ` set (cb_get_chunks ?g (nt_lib ?s))"
    using offer_round [OF ex_cset_laws pre] unfolding f by blast
  have "map receiver (nt_log s') = [None, None, Some 2, None, None]"
    using l r by (auto simp: ex_net_def)
  moreover have "set c = {3}" using c by (simp add: ex_grapes_def ex_net_def ex_ck_def)
  ultimately show ?thesis using run by (intro exI [of _ s'] exI [of _ c]) simp
qed

text \<open>
  What an offer is answered with, on the list of the offered ids: the new \<open>firstChunk\<close> and
  the ids accepted, at most \<open>n\<close>.  \<open>have\<close> says which chunks are in the buffer.
\<close>

fun accepted :: "(int \<Rightarrow> bool) \<Rightarrow> int \<Rightarrow> nat \<Rightarrow> int list \<Rightarrow> int \<times> int list" where
  "accepted own fc 0 ks = (fc, [])"
| "accepted own fc (Suc n) [] = (fc, [])"
| "accepted own fc (Suc n) (k # ks) =
     (if own k then accepted own fc (Suc n) ks
      else let fc1 = (if fc = - 1 then k else fc)
           in if k \<ge> fc1 then (case accepted own fc1 n ks of (f, as) \<Rightarrow> (f, k # as))
              else accepted own fc1 (Suc n) ks)"

text \<open>The loop computes it.\<close>

lemma offer_one_own:
  "cb_get_chunk g (nt_lib s) (chunkID_set_get_chunk g rcv i) \<noteq> None \<Longrightarrow>
     offer_one g rcv (s, cs, k) i = Inr ((s, cs, k), True)"
  by (auto simp: offer_one_def)

lemma offer_loop_accepted:
  fixes s :: "('g, 'c, 'n, 'w) net"
  assumes laws: "cset_laws g ids" and mx: "mx \<le> INT_MAX"
    and "0 \<le> k" and "0 \<le> i" and "i \<le> int (length (ids rcv))"
    and "accepted (\<lambda>k. cb_get_chunk g (nt_lib s) k \<noteq> None) (nt_firstChunk s) (nat (mx - k))
           (drop (nat i) (ids rcv)) = (fc, as)"
  shows "\<exists>cs' k'. for_loop
      (\<lambda>(_, _, count) i. if i < chunkID_set_size g rcv then Inr (count < mx) else Inr False)
      (offer_one g rcv) [i .. chunkID_set_size g rcv] (s, Some c, k)
      = Inr ((s\<lparr>nt_firstChunk := fc\<rparr>, Some cs', k'), True)
    \<and> set (ids cs') = set (ids c) \<union> set as"
  using assms(3-)
proof (induction "nat (int (length (ids rcv)) - i)" arbitrary: s c k i as)
  case 0
  then have "i = int (length (ids rcv))" by simp
  then show ?case
    using 0 laws by (cases "nat (mx - k)") (auto simp: cset_laws_def)
next
  case (Suc j)
  have sz: "chunkID_set_size g rcv = int (length (ids rcv))"
    using laws by (simp add: cset_laws_def)
  have lt: "i < int (length (ids rcv))" using Suc.hyps(2) by simp
  then have up: "[i .. chunkID_set_size g rcv] = i # [i + 1 .. chunkID_set_size g rcv]"
    using sz by (simp add: upto_rec1)
  show ?case
  proof (cases "k < mx")
    case False
    then show ?thesis using Suc.prems up by simp
  next
    case True
    define x where "x = ids rcv ! nat i"
    have get: "chunkID_set_get_chunk g rcv i = x"
      using laws lt Suc.prems(2) by (simp add: cset_laws_def x_def)
    have dr: "drop (nat i) (ids rcv) = x # drop (nat (i + 1)) (ids rcv)"
      using lt Suc.prems(2) by (simp add: x_def Cons_nth_drop_Suc [symmetric] nat_add_distrib)
    have n: "nat (mx - k) = Suc (nat (mx - (k + 1)))" using True by simp
    note IH = Suc.hyps(1) [of "i + 1"]
    have bounds: "j = nat (int (length (ids rcv)) - (i + 1))" "0 \<le> i + 1"
        "i + 1 \<le> int (length (ids rcv))"
      using Suc.hyps(2) Suc.prems(2) lt by simp_all
    show ?thesis
    proof (cases "cb_get_chunk g (nt_lib s) x")
      case (Some y)
      then show ?thesis
        using IH [of k s as c] bounds Suc.prems True up sz lt get dr n
        by (simp add: offer_one_own)
    next
      case None
      define s1 where "s1 = (if nt_firstChunk s = - 1 then s\<lparr>nt_firstChunk := x\<rparr> else s)"
      have lib: "nt_lib s1 = nt_lib s" and up1: "s1\<lparr>nt_firstChunk := fc\<rparr> = s\<lparr>nt_firstChunk := fc\<rparr>"
        and f1: "nt_firstChunk s1 = (if nt_firstChunk s = - 1 then x else nt_firstChunk s)"
        by (simp_all add: s1_def)
      show ?thesis
      proof (cases "nt_firstChunk s1 \<le> x")
        case True
        note le = this
        let ?c1 = "chunkID_set_add_chunk g c x"
        have add: "set (ids ?c1) = insert x (set (ids c))"
          using laws by (simp add: cset_laws_def)
        have body: "offer_one g rcv (s, Some c, k) i = Inr ((s1, Some ?c1, k + 1), True)"
          using None le \<open>k < mx\<close> mx Suc.prems(1)
          by (cases "nt_firstChunk s = - 1")
            (simp_all add: offer_one_def get Let_def s1_def add_id_def INT_MIN_def)
        obtain as1 where as: "as = x # as1"
          and acc: "accepted (\<lambda>k. cb_get_chunk g (nt_lib s1) k \<noteq> None) (nt_firstChunk s1)
             (nat (mx - (k + 1))) (drop (nat (i + 1)) (ids rcv)) = (fc, as1)"
          using Suc.prems(4) None le
          by (auto simp: dr n lib f1 Let_def split: prod.splits if_splits)
        show ?thesis
          using IH [of "k + 1" s1 as1 ?c1] bounds Suc.prems(1) acc body up sz lt \<open>k < mx\<close> up1 add as
          by auto
      next
        case False
        have body: "offer_one g rcv (s, Some c, k) i = Inr ((s1, Some c, k), True)"
          using None False
          by (cases "nt_firstChunk s = - 1") (simp_all add: offer_one_def get Let_def s1_def)
        have acc: "accepted (\<lambda>k. cb_get_chunk g (nt_lib s1) k \<noteq> None) (nt_firstChunk s1)
             (nat (mx - k)) (drop (nat (i + 1)) (ids rcv)) = (fc, as)"
          using Suc.prems(4) None False
          by (auto simp: dr n lib f1 Let_def split: prod.splits if_splits)
        show ?thesis
          using IH [of k s1 as c] bounds Suc.prems(1) acc body up sz lt \<open>k < mx\<close> up1 by auto
      qed
    qed
  qed
qed

text \<open>In closed form, for ids that are not negative.\<close>

lemma accepted_set:
  assumes "fc \<noteq> - 1"
  shows "accepted own fc n ks = (fc, take n (filter (\<lambda>k. \<not> own k \<and> fc \<le> k) ks))"
  using assms by (induction own fc n ks rule: accepted.induct) (simp_all add: Let_def)

lemma accepted_first:
  assumes "\<forall>k\<in>set ks. 0 \<le> k" and "0 < n"
  shows "accepted own (- 1) n ks =
    (case filter (\<lambda>k. \<not> own k) ks of [] \<Rightarrow> (- 1, [])
     | f # _ \<Rightarrow> (f, take n (filter (\<lambda>k. \<not> own k \<and> f \<le> k) ks)))"
  using assms
proof (induction ks)
  case Nil
  then show ?case by (cases n) simp_all
next
  case (Cons k ks)
  then show ?case
    by (cases n) (auto simp: accepted_set split: list.splits)
qed

text \<open>
  C16. An offer is answered with what is new and recent: \<open>firstChunk\<close>, when it is not set
  yet, becomes the first offered id that is not in the chunk buffer, and the peer is asked,
  in one message, for the first \<open>maxDeliver\<close> offered ids that are neither in the buffer nor
  below \<open>firstChunk\<close>.
\<close>

theorem offer_answered:
  assumes "cset_laws g ids" and "chunkID_set_init g (Some ''size=0'') = Some c0"
    and "sg_cset sg = Some (Some rcv)" and "sg_maxDeliver sg = Some mx" and "0 < mx"
    and "mx \<le> INT_MAX" and "sg_transId sg = Some t" and "\<forall>k\<in>set (ids rcv). 0 \<le> k"
  shows "\<exists>s' c. handle_offer g remote sg s = Inr s'
    \<and> nt_firstChunk s' =
        (if nt_firstChunk s \<noteq> - 1 then nt_firstChunk s
         else case filter (\<lambda>k. cb_get_chunk g (nt_lib s) k = None) (ids rcv) of
                [] \<Rightarrow> - 1 | k # _ \<Rightarrow> k)
    \<and> nt_log s' = nt_log s
        @ [Lock chunkBufferMutex, Unlock chunkBufferMutex, AcceptChunks remote (Some c) t]
    \<and> set (ids c) = set (take (nat mx)
        (filter (\<lambda>k. cb_get_chunk g (nt_lib s) k = None \<and> nt_firstChunk s' \<le> k) (ids rcv)))"
proof -
  let ?own = "\<lambda>k. cb_get_chunk g (nt_lib s) k \<noteq> None"
  let ?s = "emit (Lock chunkBufferMutex) s"
  define fc where "fc = (if nt_firstChunk s \<noteq> - 1 then nt_firstChunk s
      else case filter (\<lambda>k. \<not> ?own k) (ids rcv) of [] \<Rightarrow> - 1 | k # _ \<Rightarrow> k)"
  define as where "as = take (nat mx) (filter (\<lambda>k. \<not> ?own k \<and> fc \<le> k) (ids rcv))"
  have acc: "accepted ?own (nt_firstChunk s) (nat mx) (ids rcv) = (fc, as)"
  proof (cases "nt_firstChunk s = - 1")
    case True
    have "as = []" if "filter (\<lambda>k. \<not> ?own k) (ids rcv) = []"
      using that by (simp add: as_def filter_empty_conv)
    then show ?thesis
      using True accepted_first [OF assms(8), of "nat mx" ?own] assms(5)
      by (auto simp: fc_def as_def split: list.splits)
  next
    case False
    then show ?thesis by (simp add: accepted_set fc_def as_def)
  qed
  obtain cs k where l: "for_loop
      (\<lambda>(_, _, count) i. if i < chunkID_set_size g rcv then Inr (count < mx) else Inr False)
      (offer_one g rcv) [0 .. chunkID_set_size g rcv] (?s, Some c0, 0)
      = Inr ((?s\<lparr>nt_firstChunk := fc\<rparr>, Some cs, k), True)"
    and ids: "set (ids cs) = set (ids c0) \<union> set as"
    using offer_loop_accepted [OF assms(1,6), of 0 0 rcv ?s fc as c0] acc by auto
  have "ids c0 = []" using assms(1,2) by (auto simp: cset_laws_def)
  moreover have "offer_loop g sg (Some c0) ?s = Inr (?s\<lparr>nt_firstChunk := fc\<rparr>, Some cs)"
    using l assms(3,4) by (simp add: offer_loop_def received_set_def cong: if_cong)
  ultimately show ?thesis
    using assms(2,7) ids by (simp add: handle_offer_def as_def) (simp add: fc_def)
qed

theorem offer_answered_witness:
  "\<exists>s' c. handle_offer (ex_grapes (ex_ck 0) undefined) 2 (ex_signal [4, 2, 7, 5] 2 sig_offer)
      (ex_net [ex_ck 4] :: (chunk list, int list, nat, unit) net) = Inr s'
    \<and> nt_firstChunk s' = 2
    \<and> AcceptChunks 2 (Some c) 9 \<in> set (nt_log s') \<and> set c = {2, 7}"
proof -
  let ?g = "ex_grapes (ex_ck 0) undefined"
    and ?s = "ex_net [ex_ck 4] :: (chunk list, int list, nat, unit) net"
    and ?sg = "ex_signal [4, 2, 7, 5] 2 sig_offer"
  have own: "cb_get_chunk ?g (nt_lib ?s) k = None \<longleftrightarrow> k \<noteq> 4" for k
    by (auto simp: ex_grapes_def ex_net_def ex_ck_def)
  have pre: "chunkID_set_init ?g (Some ''size=0'') = Some []" "sg_cset ?sg = Some (Some [4, 2, 7, 5])"
      "sg_maxDeliver ?sg = Some 2" "0 < (2 :: int)" "2 \<le> INT_MAX" "sg_transId ?sg = Some 9"
      "\<forall>k\<in>set [4, 2, 7, 5 :: int]. 0 \<le> k" "nt_firstChunk ?s = - 1"
    by (simp_all add: ex_grapes_def ex_signal_def ex_net_def INT_MAX_def)
  then show ?thesis
    using offer_answered [OF ex_cset_laws pre(1-7), of 2 ?s] unfolding own by auto
qed

end
