(* ===== verification/Rounds.thy ===== *)
theory Rounds
  imports Threads
begin

text \<open>
  One round of each of the five threads of \<open>src/threads.c\<close> as a function of the thread, and a
  locale for relations between the states before and after a round of the receiving and the
  topology thread: what the few primitive steps of the handlers keep, every round keeps.  Two
  extensions add the steps of the threads whose rounds are taken apart in theory
  \<open>Interleaving\<close>.
\<close>

section \<open>The threads\<close>

datatype thread = Receive_Data | Send_Topology | Offer_Chunk | Send_Chunk | Request_Login

text \<open>
  The body of a thread's loop, or the whole of the thread that has no loop; the last argument
  but one is the message \<open>recv_from_peer\<close> returns to the receiving thread.
\<close>

fun thread_body ::
  "('g, 'c, 'n) grapes \<Rightarrow> ('e, 'w) output_interface \<Rightarrow> thread \<Rightarrow> 'n \<times> byte list \<times> int
     \<Rightarrow> ('g, 'c, 'n, 'w) net \<Rightarrow> ('g, 'c, 'n, 'w) net res"
where
  "thread_body g m Receive_Data (remote, buffer, n) s = receive_message g m remote buffer n s"
| "thread_body g m Send_Topology msg s = threads_send_topology g s"
| "thread_body g m Offer_Chunk msg s = threads_offer_chunk g s"
| "thread_body g m Send_Chunk msg s = threads_send_chunk g s"
| "thread_body g m Request_Login msg s = threads_request_secured_data_login m s"

section \<open>Relations kept by rounds\<close>

text \<open>Events other than sent chunks and the two messages numbered with the global \<open>transId\<close>.\<close>

fun neutral :: "('c, 'n) event \<Rightarrow> bool" where
  "neutral (SendChunk i c) = False"
| "neutral (OfferChunks n cs k t) = False"
| "neutral (RequestSecuredDataLogin n t) = False"
| "neutral e = True"

text \<open>The messages that the receiving thread sends after it has unlocked its mutex.\<close>

datatype ('c, 'n) answer = Accept 'n "'c option" int | Request 'n "'c option" int int

fun message :: "('c, 'n) answer \<Rightarrow> ('c, 'n) event" where
  "message (Accept n cs t) = AcceptChunks n cs t"
| "message (Request n cs k t) = RequestChunks n cs k t"

lemma message_neutral [simp]: "neutral (message a)"
  by (cases a) simp_all

locale round_relation =
  fixes g :: "('g, 'c, 'n) grapes" and m :: "('e, 'w) output_interface"
    and R :: "('g, 'c, 'n, 'w) net \<Rightarrow> ('g, 'c, 'n, 'w) net \<Rightarrow> bool"
  assumes R_refl: "R s s"
    and R_trans: "R s s1 \<Longrightarrow> R s1 s2 \<Longrightarrow> R s s2"
    and R_neutral: "neutral e \<Longrightarrow> R s (emit e s)"
    and R_lib: "R s (s\<lparr>nt_lib := lib\<rparr>)"
    and R_deliver: "parseChunkMsg g bs n = (res, c, t) \<Longrightarrow> 0 < res \<Longrightarrow> nt_output s = Some w \<Longrightarrow>
      oi_deliver m (nt_firstChunk s) w c = Inr (v, w') \<Longrightarrow> R s (s\<lparr>nt_output := Some w'\<rparr>)"
    and R_secured_chunk: "nt_output s = Some w \<Longrightarrow>
      oi_deliver_secured_data_chunk m w c = Inr (v, w') \<Longrightarrow> R s (s\<lparr>nt_output := Some w'\<rparr>)"
    and R_secured_login: "nt_output s = Some w \<Longrightarrow>
      oi_deliver_secured_data_login m w c = Inr (v, w') \<Longrightarrow> R s (s\<lparr>nt_output := Some w'\<rparr>)"
    and R_add: "network_add_to_peerChunk g remote k s = Inr (r, s') \<Longrightarrow> R s s'"
    and R_first: "nt_firstChunk s = - 1 \<Longrightarrow> R s (s\<lparr>nt_firstChunk := k\<rparr>)"
    and R_stop: "R s (s\<lparr>nt_stopThreads := 1\<rparr>)"
    and R_unanswered: "R s (emit (message a) s1) \<Longrightarrow> R s s1"
begin

lemma R_emit: "R s s1 \<Longrightarrow> neutral e \<Longrightarrow> R s (emit e s1)"
  using R_trans R_neutral by blast

lemma R_locked:
  assumes "locked mx f s = Inr s'" and "\<And>t t'. f t = Inr t' \<Longrightarrow> R t t'"
  shows "R s s'"
proof -
  obtain t where "f (emit (Lock mx) s) = Inr t" and "s' = emit (Unlock mx) t"
    using assms(1) by (auto simp: locked_def)
  then show ?thesis
    using assms(2) R_neutral [of "Lock mx" s] R_trans R_emit by (metis neutral.simps(4,5))
qed

lemma chunk_added:
  assumes "R s s1" and "(case cb_add_chunk g (nt_lib s1) c of (added, lib) \<Rightarrow>
      let s2 = s1\<lparr>nt_lib := lib\<rparr> in Inr (if added < 0 then emit (FreeChunk c) s2 else s2)) = (Inr s' :: stop + _)"
  shows "R s s'"
  using assms R_trans [OF assms(1) R_lib] by (auto simp: Let_def R_emit split: prod.splits)

lemma chunk_message:
  assumes "network_handle_chunk_message g m remote buffer n s = Inr s'"
  shows "R s s'"
proof -
  obtain res c t where p: "parseChunkMsg g (drop 1 buffer) (n - 1) = (res, c, t)"
    by (metis surj_pair)
  show ?thesis
  proof (cases "0 < res")
    case True
    obtain w s1 where w: "nt_output s = Some w"
      and x: "(if oi_secured_data_enabled_chunk m w = 1 then
          bnd (deref (chunkID_set_init g (Some ''size=1''))) (\<lambda>cset.
          Inr (emit (RequestSecuredDataChunk (nt_serverSocket s)
            (chunkID_set_add_chunk g cset (ck_id c)) t) s))
        else bnd (oi_deliver m (nt_firstChunk s) w c) (\<lambda>(_, w1). Inr (s\<lparr>nt_output := Some w1\<rparr>)))
        = (Inr s1 :: stop + _)"
      and y: "(case cb_add_chunk g (nt_lib s1) c of (added, lib) \<Rightarrow>
        let s2 = s1\<lparr>nt_lib := lib\<rparr> in Inr (if added < 0 then emit (FreeChunk c) s2 else s2)) = (Inr s' :: stop + _)"
      using assms True unfolding network_handle_chunk_message_def p
      by (simp only: prod.case if_True bnd_eq_Inr deref_Inr) blast
    have "R s s1"
      using x R_neutral R_deliver [OF p True w] by (auto split: if_splits)
    then show ?thesis using y by (rule chunk_added)
  next
    case False
    then show ?thesis using assms p by (simp add: network_handle_chunk_message_def R_refl)
  qed
qed

lemma secured_chunk_message:
  "network_handle_secured_chunk_message g m remote buffer n s = Inr s' \<Longrightarrow> R s s'"
  by (auto simp: network_handle_secured_chunk_message_def Let_def R_refl R_emit R_secured_chunk
      split: prod.splits if_splits)

lemma secured_login_message:
  "network_handle_secured_login_message g m remote buffer n s = Inr s' \<Longrightarrow> R s s'"
  by (auto simp: network_handle_secured_login_message_def Let_def R_refl R_emit R_secured_login
      split: prod.splits if_splits)

lemma accept:
  assumes "handle_accept g remote sg s = Inr s'"
  shows "R s s'"
  using assms unfolding handle_accept_def
proof (rule R_locked)
  fix t t' :: "('g, 'c, 'n, 'w) net"
  assume "bnd (received_set sg) (\<lambda>rcv.
     bnd (for_loop (\<lambda>_ i. Inr (i < chunkID_set_size g rcv))
            (\<lambda>s1 i. bnd (network_add_to_peerChunk g remote (chunkID_set_get_chunk g rcv i) s1)
               (\<lambda>(_, s2). Inr (s2, True)))
            [0 .. chunkID_set_size g rcv] t) (\<lambda>(s3, _). Inr s3)) = Inr t'"
  then obtain rcv k where "for_loop (\<lambda>_ i. Inr (i < chunkID_set_size g rcv))
            (\<lambda>s1 i. bnd (network_add_to_peerChunk g remote (chunkID_set_get_chunk g rcv i) s1)
               (\<lambda>(_, s2). Inr (s2, True)))
            [0 .. chunkID_set_size g rcv] t = Inr (t', k)" by auto
  then show "R t t'"
    by (rule for_loop_inv) (auto intro: R_refl R_trans R_add)
qed

lemma offer_one_R: "offer_one g rcv (s, cs, k) i = Inr ((s', cs', k'), go) \<Longrightarrow> R s s'"
  by (auto simp: offer_one_def Let_def R_refl R_first split: if_splits)

lemma offer:
  assumes "handle_offer g remote sg s = Inr s'"
  shows "R s s'"
proof -
  obtain c rcv cs t cs' j k i where
    "for_loop c (offer_one g rcv) [0 .. chunkID_set_size g rcv]
       (emit (Lock chunkBufferMutex) s, cs, 0) = Inr ((t, cs', j), k)"
    and s': "s' = emit (AcceptChunks remote cs' i) (emit (Unlock chunkBufferMutex) t)"
    using assms by (auto simp: handle_offer_def offer_loop_def Let_def)
  then have "(case (t, cs', j) of (t, _) \<Rightarrow> R s t)"
    by (elim for_loop_inv) (auto intro: R_neutral R_trans offer_one_R)
  then show ?thesis unfolding s' by (simp add: R_emit)
qed

lemma request: "handle_request g remote sg s = Inr s' \<Longrightarrow> R s s'"
  by (auto simp: handle_request_def Let_def R_emit dest!: R_add split: if_splits
      elim!: R_locked)

lemma send_buffermap: "handle_send_buffermap g remote sg s = Inr s' \<Longrightarrow> R s s'"
  by (auto simp: handle_send_buffermap_def Let_def R_emit R_refl)

lemma request_buffermap: "handle_request_buffermap g remote sg s = Inr s' \<Longrightarrow> R s s'"
  unfolding handle_request_buffermap_def by (erule R_locked) (auto simp: R_emit R_refl)

lemma signalling: "handle_signalling g remote buffer n s = Inr s' \<Longrightarrow> R s s'"
  by (auto simp: handle_signalling_def Let_def R_refl split: signaling_type.splits
      intro: accept offer request send_buffermap request_buffermap)

lemma receive:
  assumes "receive_message g m remote buffer n s = Inr s'"
  shows "R s s'"
proof -
  have top: "R s s'" if "locked topologyMutex (\<lambda>s1.
      Inr (s1\<lparr>nt_lib := psample_parse_data g (nt_lib s1) (Some buffer) n\<rparr>)) s = Inr s'"
    using that by (rule R_locked) (auto intro: R_lib)
  have chunk: "R s s'"
    if "locked chunkBufferMutex (network_handle_chunk_message g m remote buffer n) s = Inr s'"
    using that chunk_message by (rule R_locked)
  have secured: "R s s'"
    if "locked chunkBufferMutex (network_handle_secured_chunk_message g m remote buffer n) s = Inr s'"
    using that secured_chunk_message by (rule R_locked)
  show ?thesis
    using assms top chunk secured secured_login_message signalling
    by (auto simp: receive_message_def R_refl split: if_splits)
qed

lemma topology:
  assumes "threads_send_topology g s = Inr s'"
  shows "R s s'"
  using assms unfolding threads_send_topology_def
  by (rule R_locked) (auto simp: Let_def intro: R_lib R_trans [OF R_lib R_stop] split: if_splits)

lemma body:
  "thread_body g m t msg s = Inr s' \<Longrightarrow> t = Receive_Data \<or> t = Send_Topology \<Longrightarrow> R s s'"
  using receive topology by (cases "(g, m, t, msg, s)" rule: thread_body.cases) auto

end

text \<open>
  A relation for all threads but the sending one also keeps what the offering and the login
  thread do one by one in the middle of their rounds.
\<close>

locale numbering_relation = round_relation +
  assumes R_transId: "R s (s\<lparr>nt_transId := k\<rparr>)"
    and R_offer: "R s (emit (OfferChunks remote cset k t) s)"
    and R_login: "R s (emit (RequestSecuredDataLogin sv t) s)"

text \<open>A relation for all five threads also keeps the rounds and the end of the sending loop.\<close>

locale thread_relation = numbering_relation +
  assumes R_send_one: "send_one g s i = Inr (s', b) \<Longrightarrow> R s s'"
    and R_sent: "R s (s\<lparr>nt_peerChunks := None, nt_peerChunksSize := 0\<rparr>)"

end
