(* ===== verification/Ring_Buffer.thy ===== *)
theory Ring_Buffer
  imports Prelude
begin

text \<open>
  The byte ring shared by the player's thread (the reader, \<open>p2p_plugin_read\<close> in
  \<open>src/input_p2p.c\<close>) and the receiving thread (the writer, \<open>output_ffmpeg_write_chunk\<close> in
  \<open>src/output_ffmpeg.c\<close>): its fields in \<open>p2p_input_plugin_t\<close>, one round of the reader, the
  writer's copy and its wait for space.  A pointer into the ring is its offset from
  \<open>buffer\<close>.  The bytes between the two pointers are abstracted to a list (\<open>contents\<close>), and
  two locales state the queue the two sides rely on.
\<close>

section \<open>The ring and its operations\<close>

definition BUFFER_SIZE :: int where "BUFFER_SIZE = 1024 * 1024"

record ring =
  rb_mem :: bytes
  rb_get :: int
  rb_put :: int
  rb_count :: int
  rb_max :: int

text \<open>The allocated bytes \<open>m\<close> are whatever \<open>malloc\<close> left there.\<close>

definition ring_new :: "bytes \<Rightarrow> ring" where
  "ring_new m = \<lparr>rb_mem = m, rb_get = 0, rb_put = 0, rb_count = 0, rb_max = BUFFER_SIZE\<rparr>"

text \<open>
  One round of the reader: at most \<open>nlen\<close> bytes, at most what is there, and not past the
  end of the buffer.
\<close>

definition ring_take :: "ring \<Rightarrow> int \<Rightarrow> (byte list \<times> ring) res" where
  "ring_take r nlen =
     (let n0 = (if nlen > rb_count r then rb_count r else nlen);
          n = (if rb_get r + n0 > BUFFER_SIZE then BUFFER_SIZE - rb_get r else n0)
      in bnd (load BUFFER_SIZE (rb_mem r) (rb_get r) n) (\<lambda>bs.
           let g = rb_get r + n
           in Inr (bs, r\<lparr>rb_get := (if g \<ge> BUFFER_SIZE then 0 else g),
                         rb_count := rb_count r - n\<rparr>)))"

text \<open>
  What the other threads do to the ring shows when a thread (re)acquires
  \<open>buffer_ring_mutex\<close>.  An \<open>interference\<close> is one such acquisition: the change made to the
  ring meanwhile and, for a return from \<open>pthread_cond_timedwait\<close>, whether it timed out.
  A list of them is a schedule.  Past its end, locking meets no interference, and a wait
  has no wake-up left, so the run stops as \<open>Blocked\<close>.
\<close>

type_synonym interference = "bool \<times> (ring \<Rightarrow> ring)"

definition lock_ring :: "ring \<Rightarrow> interference list \<Rightarrow> ring \<times> interference list" where
  "lock_ring r es = (case es of [] \<Rightarrow> (r, []) | (t, f) # es' \<Rightarrow> (f r, es'))"

definition cond_wait :: "ring \<Rightarrow> interference list \<Rightarrow> (bool \<times> ring \<times> interference list) res" where
  "cond_wait r es = (case es of [] \<Rightarrow> Inl Blocked | (t, f) # es' \<Rightarrow> Inr (t, f r, es'))"

text \<open>
  The writer waits while the free space is smaller than the whole chunk; a timeout only
  prints a message.
\<close>

fun wait_space :: "int \<Rightarrow> ring \<Rightarrow> interference list \<Rightarrow> (ring \<times> interference list) res" where
  "wait_space need r es =
     (if rb_max r - rb_count r < need
      then (case es of [] \<Rightarrow> Inl Blocked | (t, f) # es' \<Rightarrow> wait_space need (f r) es')
      else Inr (r, es))"

declare wait_space.simps [simp del]

text \<open>The writer's copy of the payload \<open>d[offset..]\<close> of a chunk of \<open>csize\<close> bytes.\<close>

definition ring_put :: "byte list \<Rightarrow> int \<Rightarrow> int \<Rightarrow> ring \<Rightarrow> ring res" where
  "ring_put d csize offset r =
     bnd (cint (csize - offset)) (\<lambda>n.
     let remaining = BUFFER_SIZE - rb_put r
     in if remaining \<ge> n then
          bnd (sub_bytes d offset n) (\<lambda>bs.
          bnd (store BUFFER_SIZE (rb_mem r) (rb_put r) bs) (\<lambda>m.
          Inr (r\<lparr>rb_mem := m, rb_put := rb_put r + csize, rb_count := rb_count r + n\<rparr>)))
        else
          bnd (sub_bytes d offset remaining) (\<lambda>b1.
          bnd (store BUFFER_SIZE (rb_mem r) (rb_put r) b1) (\<lambda>m1.
          bnd (sub_bytes d (offset + remaining) (n - remaining)) (\<lambda>b2.
          bnd (store BUFFER_SIZE m1 0 b2) (\<lambda>m2.
          Inr (r\<lparr>rb_mem := m2, rb_put := n - remaining, rb_count := rb_count r + n\<rparr>))))))"

section \<open>Abstraction and invariants\<close>

definition contents :: "ring \<Rightarrow> byte list" where
  "contents r =
     map (\<lambda>k. rb_mem r ((rb_get r + int k) mod BUFFER_SIZE)) [0..<nat (rb_count r)]"

definition ring_ok :: "ring \<Rightarrow> bool" where
  "ring_ok r \<longleftrightarrow> 0 \<le> rb_get r \<and> rb_get r < BUFFER_SIZE \<and> 0 \<le> rb_count r
     \<and> rb_count r \<le> BUFFER_SIZE \<and> rb_max r = BUFFER_SIZE"

text \<open>The put pointer stands where the next byte of the stream belongs.\<close>

definition synced :: "ring \<Rightarrow> bool" where
  "synced r \<longleftrightarrow> 0 \<le> rb_put r \<and> rb_put r \<le> BUFFER_SIZE
     \<and> rb_put r mod BUFFER_SIZE = (rb_get r + rb_count r) mod BUFFER_SIZE"

text \<open>A chunk the writer can copy once the wait for space is over.\<close>

definition fits :: "byte list \<Rightarrow> int \<Rightarrow> int \<Rightarrow> ring \<Rightarrow> bool" where
  "fits d csize offset r \<longleftrightarrow> 0 \<le> offset \<and> offset \<le> csize \<and> csize \<le> int (length d)
     \<and> csize \<le> rb_max r - rb_count r"

definition payload :: "byte list \<Rightarrow> int \<Rightarrow> int \<Rightarrow> byte list" where
  "payload d csize offset = take (nat (csize - offset)) (drop (nat offset) d)"

text \<open>Takes of the given sizes, one after the other.\<close>

fun take_seq :: "('r \<Rightarrow> int \<Rightarrow> (byte list \<times> 'r) res) \<Rightarrow> int list \<Rightarrow> 'r \<Rightarrow> (byte list \<times> 'r) res" where
  "take_seq tk [] r = Inr ([], r)"
| "take_seq tk (n # ns) r =
     bnd (tk r n) (\<lambda>(xs, r1). bnd (take_seq tk ns r1) (\<lambda>(ys, r2). Inr (xs @ ys, r2)))"

section \<open>The queue both sides rely on\<close>

locale byte_queue =
  fixes tk :: "'r \<Rightarrow> int \<Rightarrow> (byte list \<times> 'r) res"
    and cont :: "'r \<Rightarrow> byte list"
    and ok :: "'r \<Rightarrow> bool"
  assumes tk_total: "ok r \<Longrightarrow> 0 \<le> n \<Longrightarrow> \<exists>xs r'. tk r n = Inr (xs, r')"
    and tk_prefix: "ok r \<Longrightarrow> 0 \<le> n \<Longrightarrow> tk r n = Inr (xs, r') \<Longrightarrow> cont r = xs @ cont r'"
    and tk_bound: "ok r \<Longrightarrow> 0 \<le> n \<Longrightarrow> tk r n = Inr (xs, r') \<Longrightarrow> int (length xs) \<le> n"
    and tk_progress: "ok r \<Longrightarrow> 0 < n \<Longrightarrow> tk r n = Inr (xs, r') \<Longrightarrow> cont r \<noteq> [] \<Longrightarrow> xs \<noteq> []"
    and tk_ok: "ok r \<Longrightarrow> 0 \<le> n \<Longrightarrow> tk r n = Inr (xs, r') \<Longrightarrow> ok r'"
begin

text \<open>Any sequence of takes returns and cuts a prefix off the contents.\<close>

lemma take_seq_total:
  "ok r \<Longrightarrow> \<forall>n\<in>set ns. 0 \<le> n \<Longrightarrow>
     \<exists>xs r'. take_seq tk ns r = Inr (xs, r') \<and> cont r = xs @ cont r' \<and> ok r'"
proof (induction ns arbitrary: r)
  case Nil
  then show ?case by simp
next
  case (Cons n ns)
  then have n: "0 \<le> n" by simp
  obtain xs r1 where t: "tk r n = Inr (xs, r1)"
    using tk_total Cons.prems(1) n by blast
  have "ok r1" and c: "cont r = xs @ cont r1"
    using tk_ok tk_prefix Cons.prems(1) n t by blast+
  with Cons.IH [of r1] Cons.prems(2) obtain ys r2
    where "take_seq tk ns r1 = Inr (ys, r2)" and "cont r1 = ys @ cont r2" and "ok r2"
    by auto
  with t c show ?case by simp
qed

end

locale byte_fifo = byte_queue tk cont ok
  for tk :: "'r \<Rightarrow> int \<Rightarrow> (byte list \<times> 'r) res"
    and cont :: "'r \<Rightarrow> byte list"
    and ok :: "'r \<Rightarrow> bool" +
  fixes put :: "'c \<Rightarrow> 'r \<Rightarrow> 'r res"
    and pay :: "'c \<Rightarrow> byte list"
    and ready :: "'c \<Rightarrow> 'r \<Rightarrow> bool"
  assumes put_total: "ok r \<Longrightarrow> ready c r \<Longrightarrow> \<exists>r'. put c r = Inr r'"
    and put_append: "ok r \<Longrightarrow> ready c r \<Longrightarrow> put c r = Inr r' \<Longrightarrow> cont r' = cont r @ pay c"
    and put_ok: "ok r \<Longrightarrow> ready c r \<Longrightarrow> put c r = Inr r' \<Longrightarrow> ok r'"
begin

text \<open>
  What a put appends comes out again behind what was there: takes that empty the queue
  return the old contents followed by the payload.
\<close>

lemma put_then_drain:
  assumes "ok r" and "ready c r" and "\<forall>n\<in>set ns. 0 \<le> n"
    and "put c r = Inr r1" and "take_seq tk ns r1 = Inr (xs, r2)" and "cont r2 = []"
  shows "xs = cont r @ pay c"
proof -
  have "ok r1" and "cont r1 = cont r @ pay c"
    using assms(1,2,4) by (rule put_ok, rule put_append)
  moreover have "cont r1 = xs @ cont r2"
    using take_seq_total [OF \<open>ok r1\<close> assms(3)] assms(5) by auto
  ultimately show ?thesis
    using assms(6) by simp
qed

end

section \<open>The reader's side\<close>

definition take_len :: "ring \<Rightarrow> int \<Rightarrow> int" where
  "take_len r nlen = min (min nlen (rb_count r)) (BUFFER_SIZE - rb_get r)"

lemma BUFFER_SIZE_pos [simp]: "0 < BUFFER_SIZE"
  by (simp add: BUFFER_SIZE_def)

lemma length_contents [simp]: "length (contents r) = nat (rb_count r)"
  by (simp add: contents_def)

lemma nth_contents:
  "int k < rb_count r \<Longrightarrow> contents r ! k = rb_mem r ((rb_get r + int k) mod BUFFER_SIZE)"
  by (simp add: contents_def zless_nat_eq_int_zless)

lemma contents_Nil_iff: "contents r = [] \<longleftrightarrow> rb_count r \<le> 0"
  by (simp add: contents_def)

lemma take_len_bounds:
  assumes "ring_ok r" and "0 \<le> n"
  shows "0 \<le> take_len r n" and "take_len r n \<le> n" and "take_len r n \<le> rb_count r"
    and "rb_get r + take_len r n \<le> BUFFER_SIZE"
  using assms by (auto simp: take_len_def ring_ok_def)

lemma ring_take_eq:
  assumes "ring_ok r" and "0 \<le> n"
  shows "ring_take r n = Inr (mem_get (rb_mem r) (rb_get r) (take_len r n),
           r\<lparr>rb_get := (rb_get r + take_len r n) mod BUFFER_SIZE,
             rb_count := rb_count r - take_len r n\<rparr>)"
proof -
  have len: "(let n0 = (if n > rb_count r then rb_count r else n) in
      (if rb_get r + n0 > BUFFER_SIZE then BUFFER_SIZE - rb_get r else n0)) = take_len r n"
    by (auto simp: take_len_def Let_def)
  have wrap: "(if rb_get r + take_len r n \<ge> BUFFER_SIZE then 0 else rb_get r + take_len r n)
      = (rb_get r + take_len r n) mod BUFFER_SIZE"
    using take_len_bounds [OF assms] assms(1) by (auto simp: ring_ok_def)
  show ?thesis
    using take_len_bounds [OF assms] assms(1) len wrap
    by (simp add: ring_take_def Let_def load_def ring_ok_def)
qed

lemma mem_get_contents:
  assumes "ring_ok r" and "0 \<le> n"
  shows "mem_get (rb_mem r) (rb_get r) (take_len r n) = take (nat (take_len r n)) (contents r)"
    (is "?l = ?r")
proof (rule nth_equalityI)
  show "length ?l = length ?r"
    using take_len_bounds [OF assms] by simp
next
  fix k
  assume "k < length ?l"
  then have k: "int k < take_len r n" by simp
  then have "(rb_get r + int k) mod BUFFER_SIZE = rb_get r + int k"
    using take_len_bounds [OF assms] assms(1) by (simp add: ring_ok_def)
  then show "?l ! k = ?r ! k"
    using k take_len_bounds(3) [OF assms] by (simp add: nth_contents)
qed

lemma contents_advance:
  assumes "0 \<le> n" and "n \<le> rb_count r"
  shows "contents (r\<lparr>rb_get := (rb_get r + n) mod BUFFER_SIZE, rb_count := rb_count r - n\<rparr>)
    = drop (nat n) (contents r)"
proof (rule nth_equalityI)
  fix k
  assume "k < length (contents (r\<lparr>rb_get := (rb_get r + n) mod BUFFER_SIZE,
    rb_count := rb_count r - n\<rparr>))"
  then have k: "k < nat (rb_count r - n)" by simp
  have "((rb_get r + n) mod BUFFER_SIZE + int k) mod BUFFER_SIZE
      = (rb_get r + int (nat n + k)) mod BUFFER_SIZE"
    using assms(1) mod_add_left_eq [of "rb_get r + n" BUFFER_SIZE "int k"]
    by (simp add: algebra_simps)
  then show "contents (r\<lparr>rb_get := (rb_get r + n) mod BUFFER_SIZE,
      rb_count := rb_count r - n\<rparr>) ! k = drop (nat n) (contents r) ! k"
    using k assms by (simp add: nth_contents)
qed (use assms in simp)

lemma ring_takeE:
  assumes "ring_ok r" and "0 \<le> n" and "ring_take r n = Inr (xs, r')"
  obtains m where "0 \<le> m" and "m \<le> n" and "m \<le> rb_count r"
    and "m = take_len r n" and "xs = take (nat m) (contents r)"
    and "r' = r\<lparr>rb_get := (rb_get r + m) mod BUFFER_SIZE, rb_count := rb_count r - m\<rparr>"
    and "contents r' = drop (nat m) (contents r)"
  using that [of "take_len r n"] assms take_len_bounds [OF assms(1,2)]
    ring_take_eq [OF assms(1,2)] mem_get_contents [OF assms(1,2)]
    contents_advance [of "take_len r n" r]
  by auto

lemma ring_take_ok:
  assumes "ring_ok r" and "0 \<le> n" and "ring_take r n = Inr (xs, r')"
  shows "ring_ok r'"
  using assms by (rule ring_takeE) (use assms(1) in \<open>auto simp: ring_ok_def\<close>)

lemma ring_take_synced:
  assumes "ring_ok r" and "0 \<le> n" and "ring_take r n = Inr (xs, r')" and "synced r"
  shows "synced r'"
  using assms(1-3)
  by (rule ring_takeE) (use assms(4) in \<open>auto simp: synced_def mod_add_left_eq\<close>)

lemma take_len_pos:
  assumes "ring_ok r" and "0 < n" and "0 < rb_count r"
  shows "0 < take_len r n"
  using assms by (simp add: take_len_def ring_ok_def)

interpretation rq: byte_queue ring_take contents ring_ok
proof unfold_locales
  fix r :: ring and n :: int and xs r'
  assume ok: "ring_ok r" and n: "0 \<le> n"
  show "\<exists>xs r'. ring_take r n = Inr (xs, r')"
    using ring_take_eq [OF ok n] by blast
  assume t: "ring_take r n = Inr (xs, r')"
  show "contents r = xs @ contents r'"
    using ok n t by (rule ring_takeE) simp
  show "int (length xs) \<le> n"
    using ok n t by (rule ring_takeE) auto
  show "ring_ok r'"
    using ok n t by (rule ring_take_ok)
next
  fix r :: ring and n :: int and xs r'
  assume ok: "ring_ok r" and n: "0 < n" and t: "ring_take r n = Inr (xs, r')"
    and ne: "contents r \<noteq> []"
  have "0 \<le> n" using n by simp
  from ok this t show "xs \<noteq> []"
  proof (rule ring_takeE)
    fix m
    assume "m = take_len r n" and "xs = take (nat m) (contents r)"
    then show "xs \<noteq> []"
      using take_len_pos [OF ok n] ne by (simp add: contents_Nil_iff)
  qed
qed

section \<open>The writer's side\<close>

text \<open>
  The bytes \<open>xs\<close> stored from address \<open>a\<close> on, around the end of the ring: what both branches
  of the copy amount to.
\<close>

definition wrapped_put :: "bytes \<Rightarrow> int \<Rightarrow> byte list \<Rightarrow> bytes \<Rightarrow> bool" where
  "wrapped_put m a xs m' \<longleftrightarrow>
     (\<forall>j. int j < int (length xs) \<longrightarrow> m' ((a + int j) mod BUFFER_SIZE) = xs ! j)
   \<and> (\<forall>k. int (length xs) \<le> k \<and> k < BUFFER_SIZE \<longrightarrow>
        m' ((a + k) mod BUFFER_SIZE) = m ((a + k) mod BUFFER_SIZE))"

lemma wrapped_put_straight:
  assumes "0 \<le> a" and "a + int (length xs) \<le> BUFFER_SIZE"
  shows "wrapped_put m a xs (mem_put m a xs)"
proof -
  have "(a + k) mod BUFFER_SIZE < a \<or> a + int (length xs) \<le> (a + k) mod BUFFER_SIZE"
    if "int (length xs) \<le> k" and "k < BUFFER_SIZE" for k
  proof (cases "a + k < BUFFER_SIZE")
    case True
    then show ?thesis using assms(1) that by simp
  next
    case False
    have "(a + k) mod BUFFER_SIZE = (a + k - BUFFER_SIZE) mod BUFFER_SIZE"
      by simp
    also have "\<dots> = a + k - BUFFER_SIZE"
      using False assms that by (intro mod_pos_pos_trivial) auto
    finally show ?thesis using that by simp
  qed
  then show ?thesis
    using assms by (auto simp: wrapped_put_def mem_put_in mem_put_out)
qed

lemma wrapped_put_split:
  assumes "0 \<le> a" and "a + int (length xs) = BUFFER_SIZE" and "int (length ys) \<le> a"
  shows "wrapped_put m a (xs @ ys) (mem_put (mem_put m a xs) 0 ys)"
proof -
  let ?m = "mem_put (mem_put m a xs) 0 ys"
  have wrap: "(a + k) mod BUFFER_SIZE = a + k - BUFFER_SIZE"
    if "int (length xs) \<le> k" and "k < BUFFER_SIZE" for k
  proof -
    have "(a + k) mod BUFFER_SIZE = (a + k - BUFFER_SIZE) mod BUFFER_SIZE" by simp
    also have "\<dots> = a + k - BUFFER_SIZE"
      using that assms by (intro mod_pos_pos_trivial) auto
    finally show ?thesis .
  qed
  have front: "?m ((a + int j) mod BUFFER_SIZE) = (xs @ ys) ! j" if "j < length xs" for j
    using that assms by (simp add: mem_put_in mem_put_out nth_append)
  have behind: "?m ((a + int j) mod BUFFER_SIZE) = (xs @ ys) ! j"
    if "length xs \<le> j" and "j < length (xs @ ys)" for j
  proof -
    have "(a + int j) mod BUFFER_SIZE = a + int j - BUFFER_SIZE"
      using that assms by (intro wrap) auto
    also have "\<dots> = int (j - length xs)"
      using that assms by simp
    finally show ?thesis
      using that by (simp add: mem_put_in nth_append nat_diff_distrib)
  qed
  have rest: "?m ((a + k) mod BUFFER_SIZE) = m ((a + k) mod BUFFER_SIZE)"
    if "int (length (xs @ ys)) \<le> k" and "k < BUFFER_SIZE" for k
    using that assms by (simp add: wrap mem_put_out)
  show ?thesis
    unfolding wrapped_put_def using front behind rest
    by (metis linorder_not_less of_nat_less_iff)
qed

lemma contents_wrapped_put:
  assumes ok: "ring_ok r" and free: "rb_count r + int (length xs) \<le> BUFFER_SIZE"
    and sync: "a mod BUFFER_SIZE = (rb_get r + rb_count r) mod BUFFER_SIZE"
    and put: "wrapped_put (rb_mem r) a xs m'"
    and r': "rb_mem r' = m'" "rb_get r' = rb_get r" "rb_count r' = rb_count r + int (length xs)"
  shows "contents r' = contents r @ xs"
proof (rule nth_equalityI)
  have c: "0 \<le> rb_count r" using ok by (simp add: ring_ok_def)
  show "length (contents r') = length (contents r @ xs)"
    using c r' by (simp add: nat_add_distrib)
  fix k
  assume "k < length (contents r')"
  then have k: "int k < rb_count r + int (length xs)" using r' by simp
  have pos: "(a + (int k - rb_count r)) mod BUFFER_SIZE = (rb_get r + int k) mod BUFFER_SIZE"
    using sync mod_add_cong [OF sync refl, of "int k - rb_count r"] by simp
  have wrap: "(a + (BUFFER_SIZE + int k - rb_count r)) mod BUFFER_SIZE
      = (rb_get r + int k) mod BUFFER_SIZE"
    using pos mod_add_self2 [of "a + (int k - rb_count r)" BUFFER_SIZE]
    by (simp add: algebra_simps)
  show "contents r' ! k = (contents r @ xs) ! k"
  proof (cases "int k < rb_count r")
    case True
    have "m' ((rb_get r + int k) mod BUFFER_SIZE) = rb_mem r ((rb_get r + int k) mod BUFFER_SIZE)"
      using put True free c wrap unfolding wrapped_put_def
      by (elim conjE allE [where x = "BUFFER_SIZE + int k - rb_count r"]) simp
    then show ?thesis
      using True k r' by (simp add: nth_contents nth_append zless_nat_eq_int_zless)
  next
    case False
    then have j: "int (k - nat (rb_count r)) = int k - rb_count r"
      using c by simp
    have "m' ((rb_get r + int k) mod BUFFER_SIZE) = xs ! (k - nat (rb_count r))"
      using put pos k j unfolding wrapped_put_def by (metis diff_less_eq add.commute)
    then show ?thesis
      using False k r' c by (simp add: nth_contents nth_append zless_nat_eq_int_zless)
  qed
qed

lemma length_payload:
  "fits d csize offset r \<Longrightarrow> int (length (payload d csize offset)) = csize - offset"
  by (auto simp: payload_def fits_def min_def)

lemma payload_split:
  assumes "0 \<le> offset" and "0 \<le> n" and "offset + n \<le> csize"
  shows "take (nat n) (drop (nat offset) d) @
      take (nat (csize - offset - n)) (drop (nat (offset + n)) d) = payload d csize offset"
proof -
  have "nat (csize - offset) = nat n + nat (csize - offset - n)"
    and "nat (offset + n) = nat n + nat offset"
    using assms by auto
  then show ?thesis by (simp add: payload_def take_add)
qed

text \<open>
  A copy that stays before the end of the ring.  The put pointer moves by the size of the
  whole chunk although only \<open>csize - offset\<close> bytes were copied.
\<close>

lemma ring_put_straight:
  assumes "fits d csize offset r" and "csize \<le> INT_MAX"
    and "0 \<le> rb_put r" and "csize - offset \<le> BUFFER_SIZE - rb_put r"
  shows "ring_put d csize offset r =
    Inr (r\<lparr>rb_mem := mem_put (rb_mem r) (rb_put r) (payload d csize offset),
           rb_put := rb_put r + csize, rb_count := rb_count r + (csize - offset)\<rparr>)"
proof -
  have "sub_bytes d offset (csize - offset) = Inr (payload d csize offset)"
    using assms(1) by (simp add: payload_def fits_def)
  moreover have "store BUFFER_SIZE (rb_mem r) (rb_put r) (payload d csize offset)
      = Inr (mem_put (rb_mem r) (rb_put r) (payload d csize offset))"
    using assms length_payload [OF assms(1)] by simp
  moreover have "cint (csize - offset) = Inr (csize - offset)"
    using assms(1,2) by (simp add: fits_def INT_MIN_def)
  ultimately show ?thesis
    using assms(4) by (simp only: ring_put_def Let_def bnd_Inr if_True)
qed

text \<open>A copy around the end of the ring.\<close>

lemma ring_put_wrapped:
  assumes "fits d csize offset r" and "csize \<le> INT_MAX" and "rb_max r = BUFFER_SIZE"
    and "0 \<le> rb_count r" and "0 \<le> rb_put r" and "rb_put r \<le> BUFFER_SIZE"
    and "BUFFER_SIZE - rb_put r < csize - offset"
  shows "\<exists>xs ys. payload d csize offset = xs @ ys
    \<and> rb_put r + int (length xs) = BUFFER_SIZE
    \<and> ring_put d csize offset r =
        Inr (r\<lparr>rb_mem := mem_put (mem_put (rb_mem r) (rb_put r) xs) 0 ys,
               rb_put := csize - offset - (BUFFER_SIZE - rb_put r),
               rb_count := rb_count r + (csize - offset)\<rparr>)"
proof -
  let ?n = "BUFFER_SIZE - rb_put r"
  let ?xs = "take (nat ?n) (drop (nat offset) d)"
  let ?ys = "take (nat (csize - offset - ?n)) (drop (nat (offset + ?n)) d)"
  have f: "0 \<le> offset" "offset \<le> csize" "csize \<le> int (length d)"
      "csize \<le> BUFFER_SIZE - rb_count r"
    using assms(1,3) by (auto simp: fits_def)
  have lx: "int (length ?xs) = ?n" and ly: "int (length ?ys) = csize - offset - ?n"
    using f assms(6,7) by auto
  have b1: "sub_bytes d offset ?n = Inr ?xs"
    and b2: "sub_bytes d (offset + ?n) (csize - offset - ?n) = Inr ?ys"
    using f assms(6,7) by auto
  have s1: "store BUFFER_SIZE (rb_mem r) (rb_put r) ?xs = Inr (mem_put (rb_mem r) (rb_put r) ?xs)"
    using lx assms(5) by simp
  have s2: "store BUFFER_SIZE m 0 ?ys = Inr (mem_put m 0 ?ys)" for m
    using ly f assms(4,6) by simp
  have c: "cint (csize - offset) = Inr (csize - offset)"
    using f assms(2) by (simp add: INT_MIN_def)
  have "\<not> csize - offset \<le> ?n" using assms(7) by simp
  then have "ring_put d csize offset r =
        Inr (r\<lparr>rb_mem := mem_put (mem_put (rb_mem r) (rb_put r) ?xs) 0 ?ys,
               rb_put := csize - offset - ?n, rb_count := rb_count r + (csize - offset)\<rparr>)"
    by (simp only: ring_put_def c b1 b2 s1 s2 bnd_Inr Let_def if_False)
  moreover have "payload d csize offset = ?xs @ ?ys"
    using payload_split [of offset ?n csize d] f assms(6,7) by simp
  moreover have "rb_put r + int (length ?xs) = BUFFER_SIZE"
    using lx by simp
  ultimately show ?thesis by blast
qed

text \<open>
  Both branches: the memory is the one of a copy around the end of the ring, the counter
  grows by the bytes copied, and the pointer is as each branch leaves it.
\<close>

definition put_pos :: "ring \<Rightarrow> int \<Rightarrow> int \<Rightarrow> int" where
  "put_pos r csize offset =
     (if csize - offset \<le> BUFFER_SIZE - rb_put r then rb_put r + csize
      else csize - offset - (BUFFER_SIZE - rb_put r))"

lemma ring_put_cases:
  assumes "ring_ok r" and "0 \<le> rb_put r" and "rb_put r \<le> BUFFER_SIZE"
    and "fits d csize offset r"
  obtains m where "wrapped_put (rb_mem r) (rb_put r) (payload d csize offset) m"
    and "ring_put d csize offset r = Inr (r\<lparr>rb_mem := m, rb_put := put_pos r csize offset,
           rb_count := rb_count r + (csize - offset)\<rparr>)"
proof (cases "csize - offset \<le> BUFFER_SIZE - rb_put r")
  case True
  have "csize \<le> INT_MAX"
    using assms(1,4) by (simp add: fits_def ring_ok_def INT_MAX_def BUFFER_SIZE_def)
  then show ?thesis
    using that [OF wrapped_put_straight] assms True length_payload [OF assms(4)]
    by (simp add: ring_put_straight put_pos_def)
next
  case False
  have "csize \<le> INT_MAX"
    using assms(1,4) by (simp add: fits_def ring_ok_def INT_MAX_def BUFFER_SIZE_def)
  then obtain xs ys where p: "payload d csize offset = xs @ ys"
    and l: "rb_put r + int (length xs) = BUFFER_SIZE"
    and q: "ring_put d csize offset r =
        Inr (r\<lparr>rb_mem := mem_put (mem_put (rb_mem r) (rb_put r) xs) 0 ys,
               rb_put := csize - offset - (BUFFER_SIZE - rb_put r),
               rb_count := rb_count r + (csize - offset)\<rparr>)"
    using ring_put_wrapped [OF assms(4)] assms False by (auto simp: ring_ok_def)
  have "int (length xs) + int (length ys) = csize - offset"
    using length_payload [OF assms(4)] p by simp
  then have "int (length ys) \<le> rb_put r"
    using l assms(1,4) by (simp add: fits_def ring_ok_def)
  then have "wrapped_put (rb_mem r) (rb_put r) (payload d csize offset)
      (mem_put (mem_put (rb_mem r) (rb_put r) xs) 0 ys)"
    using wrapped_put_split [OF assms(2) l] p by simp
  then show ?thesis
    using that False q by (simp add: put_pos_def)
qed

lemma ring_put_append_aux:
  assumes "ring_ok r" and "synced r" and "fits d csize offset r"
    and "ring_put d csize offset r = Inr r'"
  shows "contents r' = contents r @ payload d csize offset" and "ring_ok r'"
proof -
  have pos: "0 \<le> rb_put r" "rb_put r \<le> BUFFER_SIZE"
    using assms(2) by (auto simp: synced_def)
  obtain m where w: "wrapped_put (rb_mem r) (rb_put r) (payload d csize offset) m"
    and q: "ring_put d csize offset r = Inr (r\<lparr>rb_mem := m, rb_put := put_pos r csize offset,
           rb_count := rb_count r + (csize - offset)\<rparr>)"
    using ring_put_cases [OF assms(1) pos assms(3)] by blast
  have r': "r' = r\<lparr>rb_mem := m, rb_put := put_pos r csize offset,
           rb_count := rb_count r + (csize - offset)\<rparr>"
    using q assms(4) by simp
  show "ring_ok r'"
    using assms(1,3) r' by (auto simp: ring_ok_def fits_def)
  show "contents r' = contents r @ payload d csize offset"
  proof (rule contents_wrapped_put [OF assms(1) _ _ w])
    show "rb_count r + int (length (payload d csize offset)) \<le> BUFFER_SIZE"
      using assms(1,3) length_payload [OF assms(3)] by (simp add: ring_ok_def fits_def)
  qed (use r' assms(2) length_payload [OF assms(3)] in \<open>simp_all add: synced_def\<close>)
qed

definition put_chunk :: "byte list \<times> int \<times> int \<Rightarrow> ring \<Rightarrow> ring res" where
  "put_chunk c r = (case c of (d, csize, offset) \<Rightarrow> ring_put d csize offset r)"

definition chunk_payload :: "byte list \<times> int \<times> int \<Rightarrow> byte list" where
  "chunk_payload c = (case c of (d, csize, offset) \<Rightarrow> payload d csize offset)"

definition chunk_ready :: "byte list \<times> int \<times> int \<Rightarrow> ring \<Rightarrow> bool" where
  "chunk_ready c r \<longleftrightarrow> synced r \<and> (case c of (d, csize, offset) \<Rightarrow> fits d csize offset r)"

interpretation rf: byte_fifo ring_take contents ring_ok put_chunk chunk_payload chunk_ready
proof unfold_locales
  fix r r' :: ring and c
  assume ok: "ring_ok r" and ready: "chunk_ready c r"
  obtain d csize offset where c: "c = (d, csize, offset)" by (cases c)
  have f: "fits d csize offset r" and s: "synced r"
    using ready c by (auto simp: chunk_ready_def)
  then have "0 \<le> rb_put r" and "rb_put r \<le> BUFFER_SIZE" by (auto simp: synced_def)
  then show "\<exists>r'. put_chunk c r = Inr r'"
    using ring_put_cases [OF ok _ _ f] c by (metis put_chunk_def case_prod_conv)
  assume p: "put_chunk c r = Inr r'"
  show "contents r' = contents r @ chunk_payload c" and "ring_ok r'"
    using ring_put_append_aux [OF ok s f] p c by (auto simp: put_chunk_def chunk_payload_def)
qed

text \<open>Interference by a writer, which appends, and by a reader, which takes away.\<close>

definition appending :: "(ring \<Rightarrow> ring) \<Rightarrow> bool" where
  "appending f \<longleftrightarrow>
     (\<forall>r. ring_ok r \<longrightarrow> ring_ok (f r) \<and> (\<exists>ys. contents (f r) = contents r @ ys))"

definition draining :: "(ring \<Rightarrow> ring) \<Rightarrow> bool" where
  "draining f \<longleftrightarrow>
     (\<forall>r. ring_ok r \<longrightarrow> ring_ok (f r) \<and> rb_put (f r) = rb_put r
       \<and> (synced r \<longrightarrow> synced (f r)) \<and> (\<exists>xs. contents r = xs @ contents (f r)))"

lemma appending_id: "appending (\<lambda>r. r)"
  by (simp add: appending_def)

text \<open>Interference that keeps the pointer of the reader and the counter in range, no more.\<close>

definition keeping :: "(ring \<Rightarrow> ring) \<Rightarrow> bool" where
  "keeping f \<longleftrightarrow> (\<forall>r. ring_ok r \<longrightarrow> ring_ok (f r))"

lemma keeping_appending: "appending f \<Longrightarrow> keeping f"
  by (simp add: keeping_def appending_def)

definition take_all :: "int \<Rightarrow> ring \<Rightarrow> ring" where
  "take_all n r = (case ring_take r n of Inl e \<Rightarrow> r | Inr (xs, r') \<Rightarrow> r')"

lemma draining_take: "0 \<le> n \<Longrightarrow> draining (take_all n)"
  unfolding draining_def
proof (intro allI impI)
  fix r
  assume n: "0 \<le> n" and ok: "ring_ok r"
  obtain xs r' where t: "ring_take r n = Inr (xs, r')"
    using rq.tk_total ok n by blast
  then have f: "take_all n r = r'" by (simp add: take_all_def)
  have "rb_put r' = rb_put r"
    using ok n t by (rule ring_takeE) simp
  then show "ring_ok (take_all n r) \<and> rb_put (take_all n r) = rb_put r
      \<and> (synced r \<longrightarrow> synced (take_all n r)) \<and> (\<exists>xs. contents r = xs @ contents (take_all n r))"
    using f rq.tk_ok [OF ok n t] rq.tk_prefix [OF ok n t] ring_take_synced [OF ok n t] by auto
qed

text \<open>An invariant every interference keeps holds when the wait is over, with the space there.\<close>

lemma wait_space_inv:
  "wait_space need r es = Inr (r', es') \<Longrightarrow> P r \<Longrightarrow> \<forall>(t, f)\<in>set es. \<forall>q. P q \<longrightarrow> P (f q) \<Longrightarrow>
     P r' \<and> rb_max r' - rb_count r' \<ge> need \<and> set es' \<subseteq> set es"
proof (induction es arbitrary: r)
  case Nil
  then show ?case
    by (subst (asm) wait_space.simps) (auto split: if_splits)
next
  case (Cons e es)
  obtain t f where e: "e = (t, f)" by (cases e)
  show ?case
  proof (cases "rb_max r - rb_count r < need")
    case True
    then have "wait_space need (f r) es = Inr (r', es')"
      using Cons.prems(1) e by (subst (asm) wait_space.simps) simp
    then show ?thesis
      using Cons.IH [of "f r"] Cons.prems(2,3) e by auto
  next
    case False
    then show ?thesis
      using Cons.prems by (subst (asm) wait_space.simps) auto
  qed
qed

lemma wait_space_now: "need \<le> rb_max r - rb_count r \<Longrightarrow> wait_space need r es = Inr (r, es)"
  by (subst wait_space.simps) simp

lemma wait_space_never:
  "P r \<Longrightarrow> \<forall>(t, f)\<in>set es. \<forall>q. P q \<longrightarrow> P (f q) \<Longrightarrow> (\<And>q. P q \<Longrightarrow> rb_max q - rb_count q < need) \<Longrightarrow>
     wait_space need r es = Inl Blocked"
proof (induction es arbitrary: r)
  case Nil
  then show ?case by (subst wait_space.simps) simp
next
  case (Cons e es)
  then show ?case by (subst wait_space.simps) (cases e; simp)
qed

lemma wait_space_no_UB: "wait_space need r es = Inl e \<Longrightarrow> e = Blocked"
proof (induction es arbitrary: r)
  case Nil
  then show ?case by (subst (asm) wait_space.simps) (auto split: if_splits)
next
  case (Cons a es)
  then show ?case by (subst (asm) wait_space.simps) (cases a; auto split: if_splits)
qed

section \<open>A property of the two sides\<close>

text \<open>
  C22. Round trip through the ring: when the put pointer is in step, a chunk's payload that
  was put into the ring comes out again, after the bytes that were there before, by takes
  of any sizes that empty the ring.
\<close>

theorem ring_roundtrip:
  assumes "ring_ok r" and "synced r" and "fits d csize offset r" and "\<forall>n\<in>set ns. 0 \<le> n"
    and "ring_put d csize offset r = Inr r1" and "take_seq ring_take ns r1 = Inr (xs, r2)"
    and "contents r2 = []"
  shows "xs = contents r @ payload d csize offset"
  using rf.put_then_drain [of r "(d, csize, offset)" ns r1 xs r2] assms
  by (simp add: chunk_ready_def put_chunk_def chunk_payload_def)

theorem ring_roundtrip_witness:
  "\<exists>r1 xs r2. ring_put [7, 65, 66] 3 1 ((ring_new (\<lambda>_. 0))\<lparr>rb_get := BUFFER_SIZE - 1,
        rb_put := BUFFER_SIZE - 1\<rparr>) = Inr r1
    \<and> take_seq ring_take [5, 5] r1 = Inr (xs, r2) \<and> xs = [65, 66]"
proof -
  let ?r = "(ring_new (\<lambda>_. 0))\<lparr>rb_get := BUFFER_SIZE - 1, rb_put := BUFFER_SIZE - 1\<rparr>"
  have r: "ring_ok ?r" "synced ?r" "fits [7, 65, 66] 3 1 ?r"
    by (simp_all add: ring_ok_def synced_def fits_def ring_new_def BUFFER_SIZE_def)
  obtain r1 where p: "ring_put [7, 65, 66] 3 1 ?r = Inr r1"
    and r1: "rb_get r1 = BUFFER_SIZE - 1" "rb_count r1 = 2"
    by (simp add: ring_put_def ring_new_def BUFFER_SIZE_def cint_def INT_MIN_def INT_MAX_def)
  obtain xs r2 where t: "take_seq ring_take [5, 5] r1 = Inr (xs, r2)" and e: "rb_count r2 = 0"
    using r1 by (simp add: ring_take_def BUFFER_SIZE_def)
  have "xs = contents ?r @ payload [7, 65, 66] 3 1"
    using ring_roundtrip [OF r _ p t] e by (simp add: contents_Nil_iff)
  then show ?thesis
    using p t by (simp add: contents_def payload_def ring_new_def)
qed

end
