(* ===== verification/Byte_Order.thy ===== *)
theory Byte_Order
  imports Prelude
begin

text \<open>
  The helpers \<open>int_rcpy\<close> and \<open>int16_rcpy\<close> of \<open>src/output_ffmpeg.c\<close>: a \<open>memcpy\<close> into a native
  integer and \<open>ntohl\<close> or \<open>ntohs\<close>.  The flag \<open>le\<close> says that the host is little-endian; the
  results do not depend on it.
\<close>

section \<open>Definitions\<close>

text \<open>The native integer whose bytes in memory are \<open>bs\<close>, and the bytes of an integer.\<close>

definition host_word :: "bool \<Rightarrow> byte list \<Rightarrow> 'a::len word" where
  "host_word le bs = word_of_int (horner_sum uint 256 (if le then bs else rev bs))"

definition word_bytes :: "nat \<Rightarrow> 'a::len word \<Rightarrow> byte list" where
  "word_bytes n w = map (\<lambda>i. ucast (drop_bit (8 * i) w)) [0..<n]"

definition ntohl :: "bool \<Rightarrow> 32 word \<Rightarrow> 32 word" where
  "ntohl le w = (if le then host_word True (rev (word_bytes 4 w)) else w)"

definition ntohs :: "bool \<Rightarrow> 16 word \<Rightarrow> 16 word" where
  "ntohs le w = (if le then host_word True (rev (word_bytes 2 w)) else w)"

definition int_rcpy :: "bool \<Rightarrow> byte list \<Rightarrow> int \<Rightarrow> 32 word res" where
  "int_rcpy le d p = bnd (sub_bytes d p 4) (\<lambda>bs. Inr (ntohl le (host_word le bs)))"

definition int16_rcpy :: "bool \<Rightarrow> byte list \<Rightarrow> int \<Rightarrow> 16 word res" where
  "int16_rcpy le d p = bnd (sub_bytes d p 2) (\<lambda>bs. Inr (ntohs le (host_word le bs)))"

section \<open>Lemmas\<close>

lemma byte_range: "0 \<le> uint (b :: byte)" "uint (b :: byte) < 256"
  using uint_bounded [of b] by simp_all

lemma horner_bytes_bound:
  "0 \<le> horner_sum uint 256 (bs :: byte list) \<and> horner_sum uint 256 bs < 256 ^ length bs"
proof (induction bs)
  case Nil
  then show ?case by simp
next
  case (Cons b bs)
  then show ?case using byte_range [of b] by simp
qed

lemma horner_bytes_nth:
  "i < length bs \<Longrightarrow> horner_sum uint 256 (bs :: byte list) div 256 ^ i mod 256 = uint (bs ! i)"
proof (induction bs arbitrary: i)
  case Nil
  then show ?case by simp
next
  case (Cons b bs)
  have d: "(uint b + horner_sum uint 256 bs * 256) div 256 = horner_sum uint 256 bs"
    using byte_range [of b] by simp
  show ?case
  proof (cases i)
    case 0
    then show ?thesis using byte_range [of b] by (simp add: mult.commute)
  next
    case (Suc j)
    have "horner_sum uint 256 (b # bs) div 256 ^ Suc j = horner_sum uint 256 bs div 256 ^ j"
      using d by (simp add: zdiv_zmult2_eq mult.commute)
    then show ?thesis using Cons.IH [of j] Cons.prems Suc by simp
  qed
qed

lemma uint_host_word:
  assumes "length bs * 8 = LENGTH('a)"
  shows "uint (host_word True bs :: 'a::len word) = horner_sum uint 256 bs"
proof -
  have "(2 :: int) ^ LENGTH('a) = 2 ^ (8 * length bs)"
    using assms by (simp add: mult.commute)
  then have "(2 :: int) ^ LENGTH('a) = 256 ^ length bs"
    by (simp add: power_mult)
  then show ?thesis
    using horner_bytes_bound [of bs]
    by (simp add: host_word_def uint_word_of_int_eq take_bit_int_eq_self_iff)
qed

lemma word_bytes_host_word:
  assumes "length bs * 8 = LENGTH('a)"
  shows "word_bytes (length bs) (host_word True bs :: 'a::len word) = bs"
proof (rule nth_equalityI)
  let ?w = "host_word True bs :: 'a word"
  fix i
  assume "i < length (word_bytes (length bs) ?w)"
  then have i: "i < length bs" by (simp add: word_bytes_def)
  have "uint (drop_bit (8 * i) ?w) = uint ?w div 256 ^ i"
    using uint_bounded [of ?w]
    by (simp only: unsigned_drop_bit_eq drop_bit_int_def) (simp add: power_mult take_bit_int_eq_self)
  then have "uint (word_bytes (length bs) ?w ! i) = uint (bs ! i)"
    using i horner_bytes_nth [OF i] uint_host_word [OF assms]
    by (simp add: word_bytes_def unsigned_ucast_eq take_bit_eq_mod)
  then show "word_bytes (length bs) ?w ! i = bs ! i"
    by (simp only: word_uint_eq_iff)
qed (simp add: word_bytes_def)

lemma ntohl_host_word:
  assumes "length bs = 4"
  shows "uint (ntohl le (host_word le bs)) = horner_sum uint 256 (rev bs)"
proof -
  have "word_bytes 4 (host_word True bs :: 32 word) = bs"
    using word_bytes_host_word [of bs, where 'a = 32] assms by simp
  moreover have "(host_word False bs :: 32 word) = host_word True (rev bs)"
    by (simp add: host_word_def)
  ultimately show ?thesis
    using uint_host_word [of "rev bs", where 'a = 32] assms by (simp add: ntohl_def)
qed

lemma ntohs_host_word:
  assumes "length bs = 2"
  shows "uint (ntohs le (host_word le bs)) = horner_sum uint 256 (rev bs)"
proof -
  have "word_bytes 2 (host_word True bs :: 16 word) = bs"
    using word_bytes_host_word [of bs, where 'a = 16] assms by simp
  moreover have "(host_word False bs :: 16 word) = host_word True (rev bs)"
    by (simp add: host_word_def)
  ultimately show ?thesis
    using uint_host_word [of "rev bs", where 'a = 16] assms by (simp add: ntohs_def)
qed

lemma take4_nth: "4 \<le> length xs \<Longrightarrow> take 4 xs = [xs ! 0, xs ! 1, xs ! 2, xs ! 3]"
  by (rule nth_equalityI) (auto simp: nth_Cons' less_Suc_eq numeral_eq_Suc)

section \<open>Properties\<close>

text \<open>
  C40. \<open>int_rcpy\<close> reads a 32-bit big-endian integer on hosts of either byte order: inside
  the object it returns the value of the four bytes at the pointer, most significant byte
  first, and outside it is undefined.
\<close>

theorem int_rcpy_big_endian:
  assumes "0 \<le> p" and "p + 4 \<le> int (length d)"
  shows "\<exists>w. int_rcpy le d p = Inr w \<and> uint w =
    ((uint (d ! nat p) * 256 + uint (d ! (nat p + 1))) * 256 + uint (d ! (nat p + 2))) * 256
      + uint (d ! (nat p + 3))"
proof -
  have len: "4 \<le> length (drop (nat p) d)" using assms by simp
  have "take 4 (drop (nat p) d)
      = [d ! nat p, d ! (nat p + 1), d ! (nat p + 2), d ! (nat p + 3)]"
    using take4_nth [OF len] assms by (simp add: nth_drop)
  moreover have "uint (ntohl le (host_word le (take 4 (drop (nat p) d))))
      = horner_sum uint 256 (rev (take 4 (drop (nat p) d)))"
    using len by (intro ntohl_host_word) simp
  ultimately show ?thesis
    using assms by (simp add: int_rcpy_def algebra_simps)
qed

theorem int_rcpy_big_endian_witness:
  "\<exists>w. int_rcpy True [9, 1, 2, 3, 4] 1 = Inr w \<and> uint w = 16909060"
  using int_rcpy_big_endian [of 1 "[9, 1, 2, 3, 4]" True] by simp

end
