(* ===== verification/Output_Ffmpeg.thy ===== *)
theory Output_Ffmpeg
  imports Ring_Buffer Byte_Order Output_Interface
begin

text \<open>
  The output module \<open>src/output_ffmpeg.c\<close>: the reorder buffer of chunks that came out of
  order, the decision which chunk is played next, and the copy of a chunk's payload into
  the player's ring.  A pointer parameter \<open>context\<close> is the whole module state \<open>ostate\<close>.
\<close>

section \<open>State\<close>

record octx =
  oc_outputBufferSize :: int
  oc_outputBuffer :: "chunk list option"
  oc_outputStream :: bool
  oc_playedChunk :: int
  oc_maximumChunk :: int
  oc_lastRequestSent :: "int option"
  oc_securedDataLogin :: byte
  oc_lastChunk :: int
  oc_sflag :: int
  oc_eflag :: int
  oc_startId :: int
  oc_endId :: int

text \<open>
  Besides the context: the plugin's ring, the schedule of the other threads, and the
  platform.  \<open>os_env\<close> supplies, in the order of use counted by \<open>os_tick\<close>, the values the
  code does not determine: the clock, an uninitialised local, the value of a call of an
  \<open>int\<close> function that ended without \<open>return\<close>.  \<open>os_byref\<close> says that the platform passes a
  \<open>struct\<close> argument by reference.  \<open>os_written\<close> lists the chunks copied to the ring.
\<close>

record ostate =
  os_ctx :: octx
  os_ring :: ring
  os_sched :: "interference list"
  os_env :: "nat \<Rightarrow> int"
  os_tick :: nat
  os_byref :: bool
  os_le :: bool
  os_written :: "chunk list"

definition draw :: "ostate \<Rightarrow> int \<times> ostate" where
  "draw s = (os_env s (os_tick s), s\<lparr>os_tick := Suc (os_tick s)\<rparr>)"

text \<open>The slot \<open>context->outputBuffer[i].c\<close>, its \<open>data\<close> set to \<open>NULL\<close>, its replacement.\<close>

definition slot_at :: "ostate \<Rightarrow> int \<Rightarrow> chunk res" where
  "slot_at s i = bnd (deref (oc_outputBuffer (os_ctx s))) (\<lambda>b. index b i)"

definition set_slot :: "int \<Rightarrow> chunk \<Rightarrow> ostate \<Rightarrow> ostate" where
  "set_slot i c s = s\<lparr>os_ctx := (os_ctx s)\<lparr>oc_outputBuffer :=
     map_option (\<lambda>b. b[nat i := c]) (oc_outputBuffer (os_ctx s))\<rparr>\<rparr>"

definition clear_slot :: "int \<Rightarrow> chunk \<Rightarrow> ostate \<Rightarrow> ostate" where
  "clear_slot i c s = set_slot i (c\<lparr>ck_data := None\<rparr>) s"

section \<open>Writing a chunk to the ring\<close>

text \<open>
  The parse of one frame header: three bytes of size, four of time stamp, one of offset.
  The pointer never moves, so every round reads the first eight bytes of the chunk.
\<close>

fun frame_size :: "byte list \<Rightarrow> int list \<Rightarrow> int \<Rightarrow> int res" where
  "frame_size d [] fs = Inr fs"
| "frame_size d (i # is) fs =
     bnd (byte_at d i) (\<lambda>b. frame_size d is (or (push_bit 8 fs) (uint b)))"

definition frame_header :: "bool \<Rightarrow> byte list \<Rightarrow> (int \<times> int \<times> int) res" where
  "frame_header le d =
     bnd (frame_size d [0, 1, 2] 0) (\<lambda>fs.
     bnd (int_rcpy le d 3) (\<lambda>dts.
     bnd (byte_at d 7) (\<lambda>b.
     Inr (fs, uint dts, if b \<noteq> 255 then uint dts + uint b else - 1))))"

fun scan_frames :: "bool \<Rightarrow> byte list \<Rightarrow> nat \<Rightarrow> unit res" where
  "scan_frames le d 0 = Inr ()"
| "scan_frames le d (Suc n) = bnd (frame_header le d) (\<lambda>_. scan_frames le d n)"

text \<open>
  The payload header.  For a codec byte of 127 or more \<open>header_size\<close> is not set, so it has
  an indeterminate value.
\<close>

definition payload_header :: "ostate \<Rightarrow> byte list \<Rightarrow> byte \<Rightarrow> (int \<times> ostate) res" where
  "payload_header s d codec =
     (if codec < 127 then
        bnd (int16_rcpy (os_le s) d 1) (\<lambda>width.
        bnd (int16_rcpy (os_le s) d 3) (\<lambda>height.
        bnd (int16_rcpy (os_le s) d 5) (\<lambda>frame_rate_n.
        bnd (int16_rcpy (os_le s) d 7) (\<lambda>frame_rate_d.
        Inr (1 + 2 + 2 + 2 + 2 + 1, s)))))
      else Inr (draw s))"

definition output_ffmpeg_write_chunk :: "ostate \<Rightarrow> chunk \<Rightarrow> ostate res" where
  "output_ffmpeg_write_chunk s c =
     bnd (deref (ck_data c)) (\<lambda>d.
     bnd (byte_at d 0) (\<lambda>codec.
     if codec = 0 then Inr s
     else
       bnd (payload_header s d codec) (\<lambda>(header_size, s1).
       bnd (cint (header_size - 1)) (\<lambda>k.
       bnd (byte_at d k) (\<lambda>frames.
       bnd (scan_frames (os_le s) d (nat (uint frames))) (\<lambda>_.
       bnd (cint (header_size + uint frames * (3 + 4 + 1))) (\<lambda>offset.
       case lock_ring (os_ring s1) (os_sched s1) of (r0, es0) \<Rightarrow>
       bnd (wait_space (ck_size c) r0 es0) (\<lambda>(r1, es1).
       bnd (ring_put d (ck_size c) offset r1) (\<lambda>r2.
       Inr (s1\<lparr>os_ring := r2, os_sched := es1, os_written := os_written s1 @ [c]\<rparr>))))))))))"

text \<open>
  The two calls in \<open>output_ffmpeg_buffer_cleanup\<close> pass the \<open>struct\<close> itself to the function,
  which is not declared at that point of the file and takes a pointer.  Where the platform
  passes large structs by reference the callee gets the pointer it expects; elsewhere the
  call is undefined.
\<close>

definition write_chunk_struct :: "ostate \<Rightarrow> chunk \<Rightarrow> ostate res" where
  "write_chunk_struct s c =
     (if os_byref s then output_ffmpeg_write_chunk s c else Inl (UB Bad_Call))"

section \<open>The reorder buffer\<close>

definition TIMEOUT :: int where "TIMEOUT = 2"

text \<open>
  \<open>output_ffmpeg_buffer_free\<close> with its return value.  \<open>ask\<close> is \<open>network_ask_for_chunk\<close>.
  \<open>gettimeofday\<close> on the null pointer \<open>lastRequestSent\<close> stores nothing.  Two paths end
  without a \<open>return\<close>: the caller then sees an indeterminate value.
\<close>

definition output_ffmpeg_buffer_free ::
  "(int \<Rightarrow> unit res) \<Rightarrow> ostate \<Rightarrow> int \<Rightarrow> (int \<times> ostate) res"
where
  "output_ffmpeg_buffer_free ask s i =
     bnd (slot_at s i) (\<lambda>c.
     case ck_data c of
       None \<Rightarrow>
         (case oc_lastRequestSent (os_ctx s) of
            None \<Rightarrow>
              bnd (cint (oc_playedChunk (os_ctx s) + i)) (\<lambda>k.
              bnd (ask k) (\<lambda>_. Inr (draw s)))
          | Some t \<Rightarrow>
              (case draw s of (now, s1) \<Rightarrow>
               if now > t + TIMEOUT
               then Inr (- 1, s1\<lparr>os_ctx := (os_ctx s1)\<lparr>oc_playedChunk := i,
                                  oc_lastRequestSent := None\<rparr>\<rparr>)
               else bnd (cint (oc_playedChunk (os_ctx s) + i)) (\<lambda>k.
                    bnd (ask k) (\<lambda>_. Inr (1, s1)))))
     | Some d \<Rightarrow>
         bnd (output_ffmpeg_write_chunk s c) (\<lambda>s1. Inr (draw (clear_slot i c s1))))"

text \<open>
  The two loops of \<open>output_ffmpeg_buffer_flush\<close>.  Their conditions are evaluated on the
  current state in every round; the index lists reach as far as they can hold.
\<close>

definition flush_body ::
  "(int \<Rightarrow> unit res) \<Rightarrow> ostate \<Rightarrow> int \<Rightarrow> (ostate \<times> bool) res"
where
  "flush_body ask s i =
     bnd (output_ffmpeg_buffer_free ask s i) (\<lambda>(r, s1). Inr (s1, r \<noteq> - 1))"

definition flush_to_end :: "ostate \<Rightarrow> int \<Rightarrow> bool res" where
  "flush_to_end s i =
     (if i < oc_outputBufferSize (os_ctx s)
      then bnd (slot_at s i) (\<lambda>c. Inr (ck_data c \<noteq> None)) else Inr False)"

definition flush_from_start :: "ostate \<Rightarrow> int \<Rightarrow> bool res" where
  "flush_from_start s i =
     bnd (c_rem (oc_playedChunk (os_ctx s)) (oc_outputBufferSize (os_ctx s))) (\<lambda>p.
     if i < p then bnd (slot_at s i) (\<lambda>c. Inr (ck_data c \<noteq> None)) else Inr False)"

definition output_ffmpeg_buffer_flush :: "(int \<Rightarrow> unit res) \<Rightarrow> ostate \<Rightarrow> ostate res" where
  "output_ffmpeg_buffer_flush ask s =
     bnd (c_rem (oc_playedChunk (os_ctx s)) (oc_outputBufferSize (os_ctx s))) (\<lambda>p.
     bnd (for_loop flush_to_end (flush_body ask)
            [p + 1 .. oc_outputBufferSize (os_ctx s)] s) (\<lambda>(s1, go).
     if \<not> go then Inr s1
     else bnd (for_loop flush_from_start (flush_body ask)
                 [0 .. oc_outputBufferSize (os_ctx s)] s1) (\<lambda>(s2, _). Inr s2)))"

definition cleanup_body :: "ostate \<Rightarrow> int \<Rightarrow> (ostate \<times> bool) res" where
  "cleanup_body s i =
     bnd (slot_at s i) (\<lambda>c.
     if ck_data c \<noteq> None then
       bnd (write_chunk_struct s c) (\<lambda>s1.
       Inr (clear_slot i c (s1\<lparr>os_ctx := (os_ctx s1)\<lparr>oc_playedChunk := ck_id c\<rparr>\<rparr>), True))
     else Inr (s, True))"

definition output_ffmpeg_buffer_cleanup :: "ostate \<Rightarrow> int \<Rightarrow> ostate res" where
  "output_ffmpeg_buffer_cleanup s position =
     (let lastPlayed = oc_playedChunk (os_ctx s);
          bufsize = oc_outputBufferSize (os_ctx s)
      in bnd (c_rem lastPlayed bufsize) (\<lambda>lp.
         bnd (for_loop (\<lambda>s1 i. Inr (i < position \<and> i < oc_outputBufferSize (os_ctx s1)))
                cleanup_body [lp .. bufsize] s) (\<lambda>(s1, _).
         if position < lp
         then bnd (for_loop (\<lambda>s2 i. Inr (i < position)) cleanup_body [0 .. position] s1)
                (\<lambda>(s2, _). Inr s2)
         else Inr s1)))"

text \<open>
  The two functions kept from the original program, which no code calls any more.
  \<open>output_ffmpeg_buffer_free_original\<close> returns the new value of the global \<open>firstChunk\<close>.
  The loop of \<open>output_ffmpeg_buffer_flush_original\<close> goes around the buffer once at most, so
  its rounds are numbered by \<open>1..bufsize\<close>.
\<close>

definition output_ffmpeg_buffer_free_original :: "ostate \<Rightarrow> int \<Rightarrow> (int \<times> ostate) res" where
  "output_ffmpeg_buffer_free_original s i =
     bnd (slot_at s i) (\<lambda>c.
     bnd (let x = os_ctx s in
          if oc_startId x = - 1 \<or> ck_id c \<ge> oc_startId x then
            if oc_endId x = - 1 \<or> ck_id c \<le> oc_endId x then
              bnd (output_ffmpeg_write_chunk
                     (if oc_sflag x = 0 then s\<lparr>os_ctx := x\<lparr>oc_sflag := 1\<rparr>\<rparr> else s) c) (\<lambda>s1.
              Inr (s1\<lparr>os_ctx := (os_ctx s1)\<lparr>oc_lastChunk := ck_id c\<rparr>\<rparr>))
            else if oc_eflag x = 0 \<and> oc_lastChunk x \<noteq> - 1
            then Inr (s\<lparr>os_ctx := x\<lparr>oc_eflag := 1\<rparr>\<rparr>) else Inr s
          else Inr s) (\<lambda>s2.
     bnd (cint (ck_id c + 1)) (\<lambda>firstChunk. Inr (firstChunk, clear_slot i c s2))))"

definition output_ffmpeg_buffer_flush_original ::
  "(int \<Rightarrow> unit res) \<Rightarrow> ostate \<Rightarrow> int \<Rightarrow> ostate res"
where
  "output_ffmpeg_buffer_flush_original ask s chunkId =
     (let bufsize = oc_outputBufferSize (os_ctx s)
      in bnd (c_rem chunkId bufsize) (\<lambda>i0.
         bnd (for_loop
                (\<lambda>(s1, i) _. bnd (slot_at s1 i) (\<lambda>c. Inr (ck_data c \<noteq> None)))
                (\<lambda>(s1, i) _. bnd (output_ffmpeg_buffer_free ask s1 i) (\<lambda>(_, s2).
                   bnd (c_rem (i + 1) bufsize) (\<lambda>i1. Inr ((s2, i1), i1 \<noteq> i0))))
                [1 .. bufsize] (s, i0)) (\<lambda>((s3, _), _). Inr s3)))"

section \<open>The functions of the table\<close>

definition set_max :: "int \<Rightarrow> ostate \<Rightarrow> ostate" where
  "set_max k s = s\<lparr>os_ctx := (os_ctx s)\<lparr>oc_maximumChunk := k\<rparr>\<rparr>"

definition set_played :: "int \<Rightarrow> ostate \<Rightarrow> ostate" where
  "set_played k s = s\<lparr>os_ctx := (os_ctx s)\<lparr>oc_playedChunk := k\<rparr>\<rparr>"

definition output_ffmpeg_deliver ::
  "(int \<Rightarrow> unit res) \<Rightarrow> int \<Rightarrow> ostate \<Rightarrow> chunk \<Rightarrow> (int \<times> ostate) res"
where
  "output_ffmpeg_deliver ask firstChunk s c =
     (if oc_outputBuffer (os_ctx s) = None then Inr (- 1, s)
      else if ck_id c \<le> oc_playedChunk (os_ctx s) then Inr (0, s)
      else
        let s1 = (if oc_maximumChunk (os_ctx s) < ck_id c then set_max (ck_id c) s else s)
        in if ck_id c = firstChunk then
             bnd (output_ffmpeg_write_chunk s1 c) (\<lambda>s2. Inr (0, set_played (ck_id c) s2))
           else
             bnd (cint (oc_playedChunk (os_ctx s1) + 1)) (\<lambda>next_id.
             if ck_id c = next_id then
               bnd (output_ffmpeg_write_chunk s1 c) (\<lambda>s2. Inr (0, set_played (ck_id c) s2))
             else
               bnd (c_rem (ck_id c) (oc_outputBufferSize (os_ctx s1))) (\<lambda>i.
               bnd (slot_at s1 i) (\<lambda>sl.
               if ck_data sl = None then
                 bnd (deref (ck_data c)) (\<lambda>d.
                 bnd (sub_bytes d 0 (ck_size c)) (\<lambda>copy.
                 bnd (output_ffmpeg_buffer_flush ask (set_slot i (c\<lparr>ck_data := Some copy\<rparr>) s1))
                   (\<lambda>s2. Inr (0, s2))))
               else
                 bnd (output_ffmpeg_buffer_cleanup s1 i) (\<lambda>s2. Inr (0, s2))))))"

definition output_ffmpeg_close :: "ostate \<Rightarrow> unit res" where
  "output_ffmpeg_close s = Inr ()"

definition output_ffmpeg_deliver_secured_data_chunk ::
  "ostate \<Rightarrow> chunk \<Rightarrow> (int \<times> ostate) res"
where
  "output_ffmpeg_deliver_secured_data_chunk s c = Inr (0, s)"

definition output_ffmpeg_deliver_secured_data_login ::
  "ostate \<Rightarrow> chunk \<Rightarrow> (int \<times> ostate) res"
where
  "output_ffmpeg_deliver_secured_data_login s c =
     bnd (deref (ck_data c)) (\<lambda>d.
     bnd (byte_at d 0) (\<lambda>b.
     Inr (0, s\<lparr>os_ctx := (os_ctx s)\<lparr>oc_securedDataLogin := b\<rparr>\<rparr>)))"

definition output_ffmpeg_secured_data_enabled_chunk :: "ostate \<Rightarrow> int" where
  "output_ffmpeg_secured_data_enabled_chunk s = 0"

definition output_ffmpeg_secured_data_enabled_login :: "ostate \<Rightarrow> int" where
  "output_ffmpeg_secured_data_enabled_login s = 0"

text \<open>
  What \<open>output_ffmpeg_init\<close> is given: GRAPES's configuration parser (the tags are their
  lookup with a default) and output stream, whether the allocation of the context succeeds
  (the code does not check it), whether that of \<open>n\<close> slots succeeds and what it leaves in
  them, and the module state around the new context (its \<open>os_ctx\<close> is the block from
  \<open>malloc\<close>, with whatever it holds).
\<close>

record ffmpeg_env =
  fe_config_parse :: "string \<Rightarrow> (string \<Rightarrow> int \<Rightarrow> int) option"
  fe_out_stream_init :: "string \<Rightarrow> string \<Rightarrow> bool"
  fe_malloc_context :: bool
  fe_malloc_slots :: "int \<Rightarrow> bool"
  fe_raw_slot :: "nat \<Rightarrow> chunk"
  fe_state :: ostate

definition output_ffmpeg_init :: "ffmpeg_env \<Rightarrow> string \<Rightarrow> ostate option res" where
  "output_ffmpeg_init e config =
     (let context = (os_ctx (fe_state e))\<lparr>oc_lastChunk := - 1, oc_outputBuffer := None,
            oc_playedChunk := - 1, oc_maximumChunk := - 1, oc_lastRequestSent := None,
            oc_sflag := 0, oc_eflag := 0, oc_startId := - 1, oc_endId := - 1\<rparr>
      in bnd (guard (fe_malloc_context e) Null_Deref) (\<lambda>_.
         case fe_config_parse e config of
           None \<Rightarrow> Inr None
         | Some tags \<Rightarrow>
             let n = tags ''buffer'' 75
             in if \<not> fe_out_stream_init e '''' config then Inr None
                else if \<not> fe_malloc_slots e n then Inr None
                else Inr (Some ((fe_state e)\<lparr>os_ctx := context\<lparr>oc_outputBufferSize := n,
                       oc_outputStream := True,
                       oc_outputBuffer := Some (map (\<lambda>i. (fe_raw_slot e i)\<lparr>ck_data := None\<rparr>)
                         [0..<nat n])\<rparr>\<rparr>))))"

definition output_ffmpeg ::
  "(int \<Rightarrow> unit res) \<Rightarrow> (ffmpeg_env, ostate) output_interface"
where
  "output_ffmpeg ask = \<lparr>
     oi_init = output_ffmpeg_init,
     oi_deliver = output_ffmpeg_deliver ask,
     oi_close = output_ffmpeg_close,
     oi_deliver_secured_data_chunk = output_ffmpeg_deliver_secured_data_chunk,
     oi_deliver_secured_data_login = output_ffmpeg_deliver_secured_data_login,
     oi_secured_data_enabled_chunk = output_ffmpeg_secured_data_enabled_chunk,
     oi_secured_data_enabled_login = output_ffmpeg_secured_data_enabled_login\<rparr>"

section \<open>Frame lemmas\<close>

lemma draw_frame [frame_rules]:
  "draw s = (x, s') \<Longrightarrow> os_ctx s' = os_ctx s \<and> os_ring s' = os_ring s \<and> os_sched s' = os_sched s
     \<and> os_env s' = os_env s \<and> os_byref s' = os_byref s \<and> os_le s' = os_le s
     \<and> os_written s' = os_written s"
  by (auto simp: draw_def)

lemma payload_header_frame [frame_rules]:
  "payload_header s d b = Inr (h, s') \<Longrightarrow> os_ctx s' = os_ctx s \<and> os_ring s' = os_ring s
     \<and> os_sched s' = os_sched s \<and> os_env s' = os_env s \<and> os_byref s' = os_byref s
     \<and> os_le s' = os_le s \<and> os_written s' = os_written s"
  by (auto simp: payload_header_def draw_def split: if_splits)

lemma write_chunk_frame [frame_rules]:
  assumes "output_ffmpeg_write_chunk s c = Inr s'"
  shows "os_ctx s' = os_ctx s \<and> os_env s' = os_env s \<and> os_byref s' = os_byref s
    \<and> os_le s' = os_le s \<and> (os_written s' = os_written s \<or> os_written s' = os_written s @ [c])"
  using assms
  by (fastforce simp: output_ffmpeg_write_chunk_def dest: payload_header_frame
      split: if_splits prod.splits)

lemma write_chunk_data: "output_ffmpeg_write_chunk s c = Inr s' \<Longrightarrow> \<exists>d. ck_data c = Some d"
  by (auto simp: output_ffmpeg_write_chunk_def)

section \<open>The writer on chunks as the streamer makes them\<close>

text \<open>
  A chunk with a video header: codec byte 1 to 126, ten bytes of header, eight bytes per
  frame, and the payload.
\<close>

definition chunk_offset :: "byte list \<Rightarrow> int" where
  "chunk_offset d = 10 + uint (d ! 9) * 8"

definition playable :: "chunk \<Rightarrow> byte list \<Rightarrow> bool" where
  "playable c d \<longleftrightarrow> ck_data c = Some d \<and> 0 < uint (d ! 0) \<and> uint (d ! 0) < 127
     \<and> 10 \<le> length d \<and> chunk_offset d \<le> ck_size c \<and> ck_size c \<le> int (length d)
     \<and> ck_size c \<le> INT_MAX"

lemma chunk_offset_range: "10 \<le> chunk_offset d \<and> chunk_offset d \<le> 2050"
  using byte_range [of "d ! 9"] by (simp add: chunk_offset_def)

lemma byte_at_0: "10 \<le> length d \<Longrightarrow> byte_at d 0 = Inr (d ! 0)"
  by (cases d) auto

lemma scan_frames_ok: "10 \<le> length d \<Longrightarrow> scan_frames le d n = Inr ()"
  by (induction n) (auto simp: frame_header_def int_rcpy_def byte_at_0)

lemma write_chunk_playable:
  assumes "playable c d"
  shows "output_ffmpeg_write_chunk s c =
    (case lock_ring (os_ring s) (os_sched s) of (r0, es0) \<Rightarrow>
       bnd (wait_space (ck_size c) r0 es0) (\<lambda>(r1, es1).
       bnd (ring_put d (ck_size c) (chunk_offset d) r1) (\<lambda>r2.
       Inr (s\<lparr>os_ring := r2, os_sched := es1, os_written := os_written s @ [c]\<rparr>))))"
proof -
  have d: "ck_data c = Some d" "10 \<le> length d" "d ! 0 \<noteq> 0" "d ! 0 < 127"
    using assms by (auto simp: playable_def word_less_def)
  have h: "payload_header s d (d ! 0) = Inr (10, s)"
    using d by (simp add: payload_header_def int16_rcpy_def)
  have o: "cint (10 + uint (d ! 9) * 8) = Inr (chunk_offset d)"
    using chunk_offset_range [of d] by (simp add: chunk_offset_def cint_def INT_MIN_def INT_MAX_def)
  have "cint (10 - 1) = Inr 9"
    by (simp add: cint_def INT_MIN_def INT_MAX_def)
  then show ?thesis
    using d h o scan_frames_ok [OF d(2)] by (simp add: output_ffmpeg_write_chunk_def byte_at_0)
qed

lemma playable_fits:
  "playable c d \<Longrightarrow> ck_size c \<le> rb_max r - rb_count r \<Longrightarrow> fits d (ck_size c) (chunk_offset d) r"
  using chunk_offset_range [of d] by (auto simp: playable_def fits_def)

lemma draining_lock:
  assumes "\<forall>(t, f)\<in>set es. draining f" and "ring_ok r" and "lock_ring r es = (r', es')"
  shows "ring_ok r' \<and> rb_put r' = rb_put r \<and> (synced r \<longrightarrow> synced r')
    \<and> (\<exists>xs. contents r = xs @ contents r') \<and> set es' \<subseteq> set es"
  using assms by (cases es) (auto simp: lock_ring_def draining_def)

text \<open>What the reader can have done to the ring \<open>r\<close> by the time it is \<open>q\<close>.\<close>

definition drained :: "ring \<Rightarrow> ring \<Rightarrow> bool" where
  "drained r q \<longleftrightarrow> ring_ok q \<and> rb_put q = rb_put r \<and> (synced r \<longrightarrow> synced q)
     \<and> (\<exists>xs. contents r = xs @ contents q)"

lemma drained_step: "draining f \<Longrightarrow> drained r q \<Longrightarrow> drained r (f q)"
  unfolding drained_def draining_def by (metis append.assoc)

lemma write_chunk_waits:
  assumes "playable c d" and "ring_ok (os_ring s)" and "\<forall>(t, f)\<in>set (os_sched s). draining f"
  shows "(\<exists>q es. drained (os_ring s) q \<and> ck_size c \<le> rb_max q - rb_count q
      \<and> output_ffmpeg_write_chunk s c =
          bnd (ring_put d (ck_size c) (chunk_offset d) q) (\<lambda>r2.
          Inr (s\<lparr>os_ring := r2, os_sched := es, os_written := os_written s @ [c]\<rparr>)))
    \<or> output_ffmpeg_write_chunk s c = Inl Blocked"
proof -
  obtain r0 es0 where lk: "lock_ring (os_ring s) (os_sched s) = (r0, es0)" by (metis surj_pair)
  have d0: "drained (os_ring s) r0" and sub: "set es0 \<subseteq> set (os_sched s)"
    using draining_lock [OF assms(3,2) lk] by (auto simp: drained_def)
  have steps: "\<forall>(t, f)\<in>set es0. \<forall>q. drained (os_ring s) q \<longrightarrow> drained (os_ring s) (f q)"
    using assms(3) sub drained_step by blast
  show ?thesis
  proof (cases "wait_space (ck_size c) r0 es0")
    case (Inl e)
    then show ?thesis
      using wait_space_no_UB [OF Inl] lk by (simp add: write_chunk_playable [OF assms(1)])
  next
    case (Inr a)
    obtain q es where a: "a = (q, es)" by (cases a)
    then show ?thesis
      using wait_space_inv [OF _ d0 steps, of "ck_size c" q es] Inr lk
      by (auto simp: write_chunk_playable [OF assms(1)])
  qed
qed

section \<open>The invariant of the reorder buffer\<close>

text \<open>
  A stored chunk sits in the slot of its id modulo the buffer size and owns exactly \<open>size\<close>
  bytes; no id, stored or played, is above the maximum seen.
\<close>

definition stored_ok :: "int \<Rightarrow> int \<Rightarrow> nat \<Rightarrow> chunk \<Rightarrow> bool" where
  "stored_ok bufsize mx i c \<longleftrightarrow>
     (case ck_data c of None \<Rightarrow> True
      | Some d \<Rightarrow> 0 \<le> ck_id c \<and> ck_id c \<le> mx \<and> ck_id c mod bufsize = int i
                  \<and> int (length d) = ck_size c)"

definition ctx_ok :: "octx \<Rightarrow> bool" where
  "ctx_ok x \<longleftrightarrow> 0 < oc_outputBufferSize x \<and> - 1 \<le> oc_playedChunk x
     \<and> oc_playedChunk x \<le> oc_maximumChunk x \<and> oc_maximumChunk x \<le> INT_MAX
     \<and> (\<exists>b. oc_outputBuffer x = Some b \<and> int (length b) = oc_outputBufferSize x
          \<and> (\<forall>i<length b. stored_ok (oc_outputBufferSize x) (oc_maximumChunk x) i (b ! i)))"

lemma ctx_okE:
  assumes "ctx_ok x"
  obtains b where "oc_outputBuffer x = Some b" and "int (length b) = oc_outputBufferSize x"
    and "\<And>i. i < length b \<Longrightarrow> stored_ok (oc_outputBufferSize x) (oc_maximumChunk x) i (b ! i)"
    and "0 < oc_outputBufferSize x" and "- 1 \<le> oc_playedChunk x"
    and "oc_playedChunk x \<le> oc_maximumChunk x" and "oc_maximumChunk x \<le> INT_MAX"
  using assms unfolding ctx_ok_def by blast

lemma ctx_ok_set_slot:
  assumes "ctx_ok (os_ctx s)" and "0 \<le> i"
    and "stored_ok (oc_outputBufferSize (os_ctx s)) (oc_maximumChunk (os_ctx s)) (nat i) c"
  shows "ctx_ok (os_ctx (set_slot i c s))"
  using assms(1)
proof (rule ctx_okE)
  fix b
  assume b: "oc_outputBuffer (os_ctx s) = Some b"
    and st: "\<And>j. j < length b \<Longrightarrow>
      stored_ok (oc_outputBufferSize (os_ctx s)) (oc_maximumChunk (os_ctx s)) j (b ! j)"
  have "stored_ok (oc_outputBufferSize (os_ctx s)) (oc_maximumChunk (os_ctx s)) j
      (b[nat i := c] ! j)" if "j < length b" for j
    using st [OF that] assms(3) that by (cases "j = nat i") auto
  then show ?thesis
    using assms(1) b by (auto simp: ctx_ok_def set_slot_def)
qed

lemma ctx_ok_clear_slot:
  "ctx_ok (os_ctx s) \<Longrightarrow> 0 \<le> i \<Longrightarrow> ctx_ok (os_ctx (clear_slot i c s))"
  unfolding clear_slot_def by (rule ctx_ok_set_slot) (auto simp: stored_ok_def)

lemma ctx_ok_set_played:
  "ctx_ok (os_ctx s) \<Longrightarrow> - 1 \<le> k \<Longrightarrow> k \<le> oc_maximumChunk (os_ctx s) \<Longrightarrow>
     ctx_ok (os_ctx (set_played k s))"
  by (simp add: ctx_ok_def set_played_def)

lemma ctx_ok_set_max:
  "ctx_ok (os_ctx s) \<Longrightarrow> oc_maximumChunk (os_ctx s) \<le> k \<Longrightarrow> k \<le> INT_MAX \<Longrightarrow>
     ctx_ok (os_ctx (set_max k s))"
  by (fastforce simp: ctx_ok_def set_max_def stored_ok_def split: option.splits)

lemma slot_at_stored:
  assumes "slot_at s i = Inr c" and "ctx_ok (os_ctx s)"
  shows "0 \<le> i \<and> i < oc_outputBufferSize (os_ctx s)
    \<and> stored_ok (oc_outputBufferSize (os_ctx s)) (oc_maximumChunk (os_ctx s)) (nat i) c"
  using assms by (auto simp: slot_at_def ctx_ok_def index_Inr)

lemma slot_at_total:
  assumes "ctx_ok (os_ctx s)" and "0 \<le> i" and "i < oc_outputBufferSize (os_ctx s)"
  shows "\<exists>c. slot_at s i = Inr c"
  using assms by (auto simp: slot_at_def ctx_ok_def)

text \<open>An occupied slot is written and emptied; the request branch is not reached.\<close>

lemma buffer_free_occupied:
  assumes "slot_at s i = Inr c" and "ck_data c \<noteq> None"
  shows "output_ffmpeg_buffer_free ask s i =
    bnd (output_ffmpeg_write_chunk s c) (\<lambda>s1. Inr (draw (clear_slot i c s1)))"
  using assms by (auto simp: output_ffmpeg_buffer_free_def)

lemma flush_body_occupied:
  assumes "slot_at s i = Inr c" and "ck_data c \<noteq> None" and "flush_body ask s i = Inr (s', k)"
  obtains s1 r where "output_ffmpeg_write_chunk s c = Inr s1"
    and "draw (clear_slot i c s1) = (r, s')" and "k = (r \<noteq> - 1)"
  using assms(3) unfolding flush_body_def buffer_free_occupied [OF assms(1,2)] by auto

lemma ctx_ok_flush_body:
  assumes "slot_at s i = Inr c" and "ck_data c \<noteq> None" and "flush_body ask s i = Inr (s', k)"
    and "ctx_ok (os_ctx s)"
  shows "ctx_ok (os_ctx s')"
  using assms(1-3)
proof (rule flush_body_occupied)
  fix s1 r
  assume w: "output_ffmpeg_write_chunk s c = Inr s1" and d: "draw (clear_slot i c s1) = (r, s')"
  have "ctx_ok (os_ctx s1)"
    using write_chunk_frame [OF w] assms(4) by simp
  then show ?thesis
    using draw_frame [OF d] ctx_ok_clear_slot slot_at_stored [OF assms(1,4)] by simp
qed

lemma flush_condE:
  assumes "flush_to_end s i = Inr True \<or> flush_from_start s i = Inr True"
  obtains c where "slot_at s i = Inr c" and "ck_data c \<noteq> None"
  using assms by (auto simp: flush_to_end_def flush_from_start_def split: if_splits)

text \<open>What every round of the loops keeps, the flush keeps.\<close>

lemma flush_inv:
  assumes "output_ffmpeg_buffer_flush ask s = Inr s'" and "P s"
    and "\<And>s i c s' k. P s \<Longrightarrow> slot_at s i = Inr c \<Longrightarrow> ck_data c \<noteq> None \<Longrightarrow>
      flush_body ask s i = Inr (s', k) \<Longrightarrow> P s'"
  shows "P s'"
proof -
  from assms(1) obtain p s1 go
    where l1: "for_loop flush_to_end (flush_body ask)
        [p + 1 .. oc_outputBufferSize (os_ctx s)] s = Inr (s1, go)"
      and rest: "s' = s1 \<or> (\<exists>k. for_loop flush_from_start (flush_body ask)
        [0 .. oc_outputBufferSize (os_ctx s)] s1 = Inr (s', k))"
    by (auto simp: output_ffmpeg_buffer_flush_def split: if_splits)
  have P1: "P s1"
    using l1 assms(2) by (rule for_loop_inv) (meson flush_condE assms(3))
  from rest show ?thesis
  proof
    assume "\<exists>k. for_loop flush_from_start (flush_body ask)
        [0 .. oc_outputBufferSize (os_ctx s)] s1 = Inr (s', k)"
    then obtain k where "for_loop flush_from_start (flush_body ask)
        [0 .. oc_outputBufferSize (os_ctx s)] s1 = Inr (s', k)" ..
    then show ?thesis
      using P1 by (rule for_loop_inv) (meson flush_condE assms(3))
  qed (use P1 in simp)
qed

lemma ctx_ok_flush:
  "output_ffmpeg_buffer_flush ask s = Inr s' \<Longrightarrow> ctx_ok (os_ctx s) \<Longrightarrow> ctx_ok (os_ctx s')"
  by (rule flush_inv [where P = "\<lambda>s. ctx_ok (os_ctx s)"]) (auto intro: ctx_ok_flush_body)

lemma ctx_ok_cleanup_body:
  assumes "cleanup_body s i = Inr (s', k)" and "ctx_ok (os_ctx s)"
  shows "ctx_ok (os_ctx s')"
proof -
  obtain c where c: "slot_at s i = Inr c"
    using assms(1) by (auto simp: cleanup_body_def)
  note st = slot_at_stored [OF c assms(2)]
  show ?thesis
  proof (cases "ck_data c")
    case None
    then show ?thesis using assms c by (simp add: cleanup_body_def)
  next
    case (Some d)
    then obtain s1 where w: "output_ffmpeg_write_chunk s c = Inr s1"
      and s': "s' = clear_slot i c (s1\<lparr>os_ctx := (os_ctx s1)\<lparr>oc_playedChunk := ck_id c\<rparr>\<rparr>)"
      using assms(1) c by (auto simp: cleanup_body_def write_chunk_struct_def split: if_splits)
    have "ctx_ok (os_ctx (set_played (ck_id c) s1))"
      using write_chunk_frame [OF w] assms(2) st Some
      by (intro ctx_ok_set_played) (auto simp: stored_ok_def)
    then show ?thesis
      using s' st ctx_ok_clear_slot by (simp add: set_played_def)
  qed
qed

lemma cleanup_inv:
  assumes "output_ffmpeg_buffer_cleanup s pos = Inr s'" and "P s"
    and "\<And>s i s' k. P s \<Longrightarrow> cleanup_body s i = Inr (s', k) \<Longrightarrow> P s'"
  shows "P s'"
proof -
  let ?c1 = "\<lambda>s1 i. Inr (i < pos \<and> i < oc_outputBufferSize (os_ctx s1))"
  from assms(1) obtain lp s1 k1
    where l1: "for_loop ?c1 cleanup_body [lp .. oc_outputBufferSize (os_ctx s)] s = Inr (s1, k1)"
      and rest: "s' = s1 \<or>
        (\<exists>k. for_loop (\<lambda>s2 i. Inr (i < pos)) cleanup_body [0 .. pos] s1 = Inr (s', k))"
    by (auto simp: output_ffmpeg_buffer_cleanup_def Let_def split: if_splits)
  have P1: "P s1"
    using l1 assms(2) by (rule for_loop_inv) (rule assms(3))
  from rest show ?thesis
  proof
    assume "\<exists>k. for_loop (\<lambda>s2 i. Inr (i < pos)) cleanup_body [0 .. pos] s1 = Inr (s', k)"
    then obtain k where
      "for_loop (\<lambda>s2 i. Inr (i < pos)) cleanup_body [0 .. pos] s1 = Inr (s', k)" ..
    then show ?thesis
      using P1 by (rule for_loop_inv) (rule assms(3))
  qed (use P1 in simp)
qed

lemma ctx_ok_cleanup:
  "output_ffmpeg_buffer_cleanup s pos = Inr s' \<Longrightarrow> ctx_ok (os_ctx s) \<Longrightarrow> ctx_ok (os_ctx s')"
  by (rule cleanup_inv [where P = "\<lambda>s. ctx_ok (os_ctx s)"]) (auto intro: ctx_ok_cleanup_body)

section \<open>Deliveries\<close>

text \<open>The state with the maximum raised to the id of the new chunk.\<close>

definition seen :: "chunk \<Rightarrow> ostate \<Rightarrow> ostate" where
  "seen c s = (if oc_maximumChunk (os_ctx s) < ck_id c then set_max (ck_id c) s else s)"

lemma seen_simps [simp]:
  "os_ring (seen c s) = os_ring s" "os_sched (seen c s) = os_sched s"
  "os_written (seen c s) = os_written s" "os_byref (seen c s) = os_byref s"
  "oc_playedChunk (os_ctx (seen c s)) = oc_playedChunk (os_ctx s)"
  "oc_outputBuffer (os_ctx (seen c s)) = oc_outputBuffer (os_ctx s)"
  "oc_outputBufferSize (os_ctx (seen c s)) = oc_outputBufferSize (os_ctx s)"
  "oc_lastRequestSent (os_ctx (seen c s)) = oc_lastRequestSent (os_ctx s)"
  "oc_maximumChunk (os_ctx (seen c s)) = max (oc_maximumChunk (os_ctx s)) (ck_id c)"
  by (simp_all add: seen_def set_max_def)

lemma slot_at_seen [simp]: "slot_at (seen c s) i = slot_at s i"
  by (simp add: slot_at_def)

lemma set_played_simps [simp]:
  "os_ring (set_played k s) = os_ring s" "os_sched (set_played k s) = os_sched s"
  "os_written (set_played k s) = os_written s" "os_byref (set_played k s) = os_byref s"
  "os_ctx (set_played k s) = (os_ctx s)\<lparr>oc_playedChunk := k\<rparr>"
  by (simp_all add: set_played_def)

lemma set_slot_simps [simp]:
  "os_ring (set_slot i c s) = os_ring s" "os_sched (set_slot i c s) = os_sched s"
  "os_written (set_slot i c s) = os_written s" "os_byref (set_slot i c s) = os_byref s"
  "oc_playedChunk (os_ctx (set_slot i c s)) = oc_playedChunk (os_ctx s)"
  "oc_outputBufferSize (os_ctx (set_slot i c s)) = oc_outputBufferSize (os_ctx s)"
  "oc_maximumChunk (os_ctx (set_slot i c s)) = oc_maximumChunk (os_ctx s)"
  "oc_lastRequestSent (os_ctx (set_slot i c s)) = oc_lastRequestSent (os_ctx s)"
  by (simp_all add: set_slot_def)

text \<open>The branches of a delivery to a module with an invariant context.\<close>

lemma deliver_old:
  "ctx_ok (os_ctx s) \<Longrightarrow> ck_id c \<le> oc_playedChunk (os_ctx s) \<Longrightarrow>
     output_ffmpeg_deliver ask fc s c = Inr (0, s)"
  by (auto simp: output_ffmpeg_deliver_def ctx_ok_def)

lemma played_next:
  "ctx_ok (os_ctx s) \<Longrightarrow> oc_playedChunk (os_ctx s) < k \<Longrightarrow> k \<le> INT_MAX \<Longrightarrow>
     cint (oc_playedChunk (os_ctx s) + 1) = Inr (oc_playedChunk (os_ctx s) + 1)"
  by (auto simp: ctx_ok_def cint_def INT_MIN_def)

lemma deliver_seen:
  assumes "oc_outputBuffer (os_ctx s) \<noteq> None" and "oc_playedChunk (os_ctx s) < ck_id c"
  shows "output_ffmpeg_deliver ask fc s c =
    (if ck_id c = fc then
       bnd (output_ffmpeg_write_chunk (seen c s) c) (\<lambda>s2. Inr (0, set_played (ck_id c) s2))
     else
       bnd (cint (oc_playedChunk (os_ctx s) + 1)) (\<lambda>next_id.
       if ck_id c = next_id then
         bnd (output_ffmpeg_write_chunk (seen c s) c) (\<lambda>s2. Inr (0, set_played (ck_id c) s2))
       else
         bnd (c_rem (ck_id c) (oc_outputBufferSize (os_ctx s))) (\<lambda>i.
         bnd (slot_at s i) (\<lambda>sl.
         if ck_data sl = None then
           bnd (deref (ck_data c)) (\<lambda>d.
           bnd (sub_bytes d 0 (ck_size c)) (\<lambda>copy.
           bnd (output_ffmpeg_buffer_flush ask (set_slot i (c\<lparr>ck_data := Some copy\<rparr>) (seen c s)))
             (\<lambda>s2. Inr (0, s2))))
         else
           bnd (output_ffmpeg_buffer_cleanup (seen c s) i) (\<lambda>s2. Inr (0, s2))))))"
proof -
  have "oc_outputBuffer (os_ctx s) = None \<longleftrightarrow> False" and "ck_id c \<le> oc_playedChunk (os_ctx s) \<longleftrightarrow> False"
    using assms by simp_all
  then show ?thesis
    by (simp only: output_ffmpeg_deliver_def Let_def seen_def [symmetric] if_False seen_simps
        slot_at_seen)
qed

lemma deliver_next:
  assumes "ctx_ok (os_ctx s)" and "oc_playedChunk (os_ctx s) < ck_id c" and "ck_id c \<le> INT_MAX"
    and "ck_id c = fc \<or> ck_id c = oc_playedChunk (os_ctx s) + 1"
  shows "output_ffmpeg_deliver ask fc s c =
    bnd (output_ffmpeg_write_chunk (seen c s) c) (\<lambda>s2. Inr (0, set_played (ck_id c) s2))"
proof -
  have "oc_outputBuffer (os_ctx s) \<noteq> None"
    using assms(1) by (auto simp: ctx_ok_def)
  then show ?thesis
    using assms(2,4) played_next [OF assms(1-3)] by (cases "ck_id c = fc") (simp_all add: deliver_seen)
qed

lemma deliver_later:
  assumes "ctx_ok (os_ctx s)" and "oc_playedChunk (os_ctx s) + 1 < ck_id c"
    and "ck_id c \<le> INT_MAX" and "ck_id c \<noteq> fc"
    and "i = ck_id c mod oc_outputBufferSize (os_ctx s)"
  shows "output_ffmpeg_deliver ask fc s c =
    bnd (slot_at s i) (\<lambda>sl.
    if ck_data sl = None then
      bnd (deref (ck_data c)) (\<lambda>d.
      bnd (sub_bytes d 0 (ck_size c)) (\<lambda>copy.
      bnd (output_ffmpeg_buffer_flush ask (set_slot i (c\<lparr>ck_data := Some copy\<rparr>) (seen c s)))
        (\<lambda>s2. Inr (0, s2))))
    else bnd (output_ffmpeg_buffer_cleanup (seen c s) i) (\<lambda>s2. Inr (0, s2)))"
proof -
  have "c_rem (ck_id c) (oc_outputBufferSize (os_ctx s)) = Inr i"
    using assms(1,2,5) by (simp add: c_rem_pos ctx_ok_def)
  moreover have p: "oc_playedChunk (os_ctx s) < ck_id c" using assms(2) by simp
  moreover have "oc_outputBuffer (os_ctx s) \<noteq> None"
    using assms(1) by (auto simp: ctx_ok_def)
  moreover have "ck_id c \<noteq> oc_playedChunk (os_ctx s) + 1" using assms(2) by simp
  ultimately show ?thesis
    using assms(4) played_next [OF assms(1) p assms(3)] by (simp add: deliver_seen)
qed

lemma ctx_ok_seen: "ctx_ok (os_ctx s) \<Longrightarrow> ck_id c \<le> INT_MAX \<Longrightarrow> ctx_ok (os_ctx (seen c s))"
  by (simp add: seen_def ctx_ok_set_max)

lemma ctx_ok_store:
  assumes "ctx_ok (os_ctx s)" and "0 \<le> ck_id c" and "ck_id c \<le> INT_MAX"
    and "i = ck_id c mod oc_outputBufferSize (os_ctx s)"
    and "sub_bytes d 0 (ck_size c) = Inr copy"
  shows "ctx_ok (os_ctx (set_slot i (c\<lparr>ck_data := Some copy\<rparr>) (seen c s)))"
proof (rule ctx_ok_set_slot)
  show "0 \<le> i"
    using assms(1,4) by (simp add: ctx_ok_def)
  then show "stored_ok (oc_outputBufferSize (os_ctx (seen c s)))
      (oc_maximumChunk (os_ctx (seen c s))) (nat i) (c\<lparr>ck_data := Some copy\<rparr>)"
    using assms(2,4,5) by (auto simp: stored_ok_def sub_bytes_Inr)
qed (use assms ctx_ok_seen in simp)

lemma ctx_ok_deliver:
  assumes "ctx_ok (os_ctx s)" and "ck_id c \<le> INT_MAX"
    and "output_ffmpeg_deliver ask fc s c = Inr (res, s')"
  shows "ctx_ok (os_ctx s')"
proof -
  let ?p = "oc_playedChunk (os_ctx s)"
  have p: "- 1 \<le> ?p" using assms(1) by (simp add: ctx_ok_def)
  consider "ck_id c \<le> ?p" | "?p < ck_id c" "ck_id c = fc \<or> ck_id c = ?p + 1"
    | "?p + 1 < ck_id c" "ck_id c \<noteq> fc" by linarith
  then show ?thesis
  proof cases
    case 1
    then show ?thesis using assms deliver_old by simp
  next
    case 2
    then obtain s2 where w: "output_ffmpeg_write_chunk (seen c s) c = Inr s2"
      and s': "s' = set_played (ck_id c) s2"
      using assms(3) deliver_next [OF assms(1) 2(1) assms(2) 2(2)] by auto
    have "ctx_ok (os_ctx s2)" and "oc_maximumChunk (os_ctx s2) \<ge> ck_id c"
      using write_chunk_frame [OF w] ctx_ok_seen [OF assms(1,2)] by simp_all
    then show ?thesis
      using s' 2(1) p ctx_ok_set_played by simp
  next
    case 3
    define i where "i = ck_id c mod oc_outputBufferSize (os_ctx s)"
    note later = deliver_later [OF assms(1) 3(1) assms(2) 3(2) i_def, of ask]
    show ?thesis
      using assms(3) later p 3(1) ctx_ok_cleanup ctx_ok_seen [OF assms(1,2)]
        ctx_ok_flush ctx_ok_store [OF assms(1) _ assms(2) i_def]
      by (auto split: if_splits)
  qed
qed

interpretation om: output_contract "output_ffmpeg ask" "\<lambda>s. ctx_ok (os_ctx s)"
proof unfold_locales
  fix w w' :: ostate and c :: chunk and fc res :: int
  assume "oi_deliver (output_ffmpeg ask) fc w c = Inr (res, w')"
  then have d: "output_ffmpeg_deliver ask fc w c = Inr (res, w')"
    by (simp add: output_ffmpeg_def)
  then show "res = 0 \<or> res = - 1"
    by (auto simp: output_ffmpeg_deliver_def Let_def split: if_splits)
  assume "ctx_ok (os_ctx w)" and "int_id c"
  then show "ctx_ok (os_ctx w')"
    using ctx_ok_deliver [OF _ _ d] by (simp add: int_id_def)
next
  fix w w' :: ostate and c :: chunk and res :: int
  assume "ctx_ok (os_ctx w)"
    and "oi_deliver_secured_data_login (output_ffmpeg ask) w c = Inr (res, w')"
  then show "ctx_ok (os_ctx w')"
    by (auto simp: output_ffmpeg_def output_ffmpeg_deliver_secured_data_login_def ctx_ok_def)
qed (simp_all add: output_ffmpeg_def output_ffmpeg_secured_data_enabled_chunk_def
      output_ffmpeg_secured_data_enabled_login_def output_ffmpeg_deliver_secured_data_chunk_def)

lemma init_ctx_ok:
  assumes "output_ffmpeg_init e config = Inr (Some s)"
    and "\<forall>tags. fe_config_parse e config = Some tags \<longrightarrow> 0 < tags ''buffer'' 75"
  shows "ctx_ok (os_ctx s)"
  using assms
  by (auto simp: output_ffmpeg_init_def Let_def ctx_ok_def stored_ok_def INT_MAX_def
      split: option.splits if_splits)

end
