(* ===== verification/Output_Factory.thy ===== *)
theory Output_Factory
  imports Output_Ffmpeg
begin

text \<open>
  \<open>src/output_factory.c\<close>: the choice of the output module, which is always
  \<open>output_ffmpeg\<close>.
\<close>

text \<open>
  \<open>struct output_module\<close>: the context and the table of functions.  \<open>malloc_ok\<close> says whether
  the allocation of the pair succeeds; \<open>ask\<close> is \<open>network_ask_for_chunk\<close>, which the module
  calls.
\<close>

record ('e, 'w) output_module =
  mo_context :: 'w
  mo_module :: "('e, 'w) output_interface"

definition output_init ::
  "(int \<Rightarrow> unit res) \<Rightarrow> bool \<Rightarrow> ffmpeg_env \<Rightarrow> string \<Rightarrow> (ffmpeg_env, ostate) output_module option res"
where
  "output_init ask malloc_ok plugin config =
     (if \<not> malloc_ok then Inr None
      else let m = output_ffmpeg ask
           in bnd (oi_init m plugin config) (\<lambda>context.
              case context of
                None \<Rightarrow> Inr None
              | Some w \<Rightarrow> Inr (Some \<lparr>mo_context = w, mo_module = m\<rparr>)))"

text \<open>
  Where the context can be allocated \<open>output_init\<close> returns.  It returns \<open>NULL\<close> exactly when an allocation, the
  parse of the configuration or the output stream fails, and otherwise the ffmpeg module
  with a well-formed and empty reorder buffer of the configured size, nothing played yet.
\<close>

lemma output_init_result:
  assumes "\<forall>tags. fe_config_parse e config = Some tags \<longrightarrow> 0 < tags ''buffer'' 75"
    and "fe_malloc_context e"
  shows "\<exists>r. output_init ask malloc_ok e config = Inr r
    \<and> (r = None \<longleftrightarrow> \<not> malloc_ok \<or> fe_config_parse e config = None
         \<or> \<not> fe_out_stream_init e '''' config
         \<or> (\<exists>tags. fe_config_parse e config = Some tags \<and> \<not> fe_malloc_slots e (tags ''buffer'' 75)))
    \<and> (\<forall>o1. r = Some o1 \<longrightarrow> mo_module o1 = output_ffmpeg ask \<and> ctx_ok (os_ctx (mo_context o1))
         \<and> oc_playedChunk (os_ctx (mo_context o1)) = - 1
         \<and> (\<forall>i c. slot_at (mo_context o1) i = Inr c \<longrightarrow> ck_data c = None))"
proof -
  have i: "oi_init (output_ffmpeg ask) = output_ffmpeg_init"
    by (simp add: output_ffmpeg_def)
  have run: "\<exists>r. output_ffmpeg_init e config = Inr r
    \<and> (r = None \<longleftrightarrow> fe_config_parse e config = None \<or> \<not> fe_out_stream_init e '''' config
         \<or> (\<exists>tags. fe_config_parse e config = Some tags \<and> \<not> fe_malloc_slots e (tags ''buffer'' 75)))"
    using assms(2) by (auto simp: output_ffmpeg_init_def Let_def split: option.splits)
  have fresh: "ctx_ok (os_ctx s) \<and> oc_playedChunk (os_ctx s) = - 1
      \<and> (\<forall>i c. slot_at s i = Inr c \<longrightarrow> ck_data c = None)"
    if "output_ffmpeg_init e config = Inr (Some s)" for s
    using that init_ctx_ok [OF that assms(1)]
    by (auto simp: output_ffmpeg_init_def Let_def slot_at_def index_Inr
        split: option.splits if_splits)
  from run fresh show ?thesis
    unfolding output_init_def Let_def i by (cases malloc_ok) (auto split: option.splits)
qed

definition ex_config :: ffmpeg_env where
  "ex_config = \<lparr>fe_config_parse = (\<lambda>config. Some (\<lambda>tag dflt. if tag = ''buffer'' then 200 else dflt)),
     fe_out_stream_init = (\<lambda>dev config. True), fe_malloc_context = True,
     fe_malloc_slots = (\<lambda>n. True),
     fe_raw_slot = undefined, fe_state = undefined\<rparr>"

end
