(* ===== verification/Input_P2p.thy ===== *)
theory Input_P2p
  imports Ring_Buffer
begin

text \<open>
  The xine input plugin of \<open>src/input_p2p.c\<close>: the plugin object \<open>p2p_input_plugin_t\<close> and
  its methods except \<open>open\<close> (theory \<open>Streamer\<close>) and the construction from an MRL (theory
  \<open>Mrl\<close>).  The constants of xine's headers are fields of the argument \<open>xine_api\<close>.
\<close>

record xine_api =
  MAX_PREVIEW_SIZE :: int
  INPUT_CAP_PREVIEW :: int
  INPUT_OPTIONAL_DATA_PREVIEW :: int
  INPUT_OPTIONAL_UNSUPPORTED :: int
  BUF_DEMUX_BLOCK :: int

section \<open>The plugin object\<close>

text \<open>
  A pointer member records what it points to and whether that is a block of the heap, a
  string literal, or a part of another object.  Only \<open>NULL\<close> and heap blocks may be freed.
\<close>

datatype 'a cptr = Null | Heap 'a | Static 'a | Embedded 'a

definition c_free :: "'a cptr \<Rightarrow> unit res" where
  "c_free q = (case q of Null \<Rightarrow> Inr () | Heap x \<Rightarrow> Inr ()
     | Static x \<Rightarrow> Inl (UB Bad_Free) | Embedded x \<Rightarrow> Inl (UB Bad_Free))"

text \<open>
  \<open>pl_output\<close> is the pointer \<open>output\<close>: \<open>None\<close> for \<open>NULL\<close>, else what the module's \<open>close\<close>
  does.
\<close>

record plugin =
  pl_interface :: "string cptr"
  pl_own_port :: int
  pl_host :: "string cptr"
  pl_host_port :: int
  pl_fh :: int
  pl_mrl :: "string cptr"
  pl_curpos :: int
  pl_preview :: bytes
  pl_preview_size :: int
  pl_preview_read_done :: int
  pl_ring :: ring
  pl_output :: "unit res option"

section \<open>Reading\<close>

text \<open>
  For the termination of the loop below: a round without bytes either used up a wake-up, or
  set the get pointer from the very end of the buffer back to its start.
\<close>

lemma ring_take_shrinks:
  assumes "ring_take r n = Inr (bs, r')" and "0 < n" and "bs = []" and "rb_count r \<noteq> 0"
  shows "BUFFER_SIZE \<le> rb_get r \<and> rb_get r' < BUFFER_SIZE"
proof -
  define n0 where "n0 = (if n > rb_count r then rb_count r else n)"
  define m where "m = (if rb_get r + n0 > BUFFER_SIZE then BUFFER_SIZE - rb_get r else n0)"
  have m: "0 \<le> m" "bs = mem_get (rb_mem r) (rb_get r) m"
    and r': "rb_get r' = (if rb_get r + m \<ge> BUFFER_SIZE then 0 else rb_get r + m)"
    using assms(1) unfolding ring_take_def n0_def [symmetric] m_def [symmetric] Let_def
    by (auto simp: load_Inr)
  have "length bs = nat m" using m(2) by simp
  then have m0: "m = 0" using assms(3) m(1) by simp
  have "n0 \<noteq> 0" using assms(2,4) by (simp add: n0_def)
  then have "rb_get r = BUFFER_SIZE" using m0 by (simp add: m_def split: if_splits)
  then show ?thesis using r' m0 by simp
qed

lemma lock_ring_length: "lock_ring r es = (r', es') \<Longrightarrow> length es' \<le> length es"
  by (auto simp: lock_ring_def split: list.splits)

lemma lock_ring_same:
  "lock_ring r es = (r', es') \<Longrightarrow> length es' = length es \<Longrightarrow> r' = r \<and> es' = es"
  by (auto simp: lock_ring_def split: list.splits)

lemma cond_wait_length: "cond_wait r es = Inr (t, r', es') \<Longrightarrow> length es' < length es"
  by (auto simp: cond_wait_def split: list.splits)

text \<open>
  The loop of \<open>p2p_plugin_read\<close>.  \<open>cap\<close> is the size of the caller's buffer \<open>dst\<close> and
  \<open>buf\<close> the offset of the pointer \<open>buf\<close> in it.  The result says whether the loop returned
  from the function on a timeout.
\<close>

function read_loop ::
  "int \<Rightarrow> bytes \<Rightarrow> int \<Rightarrow> int \<Rightarrow> int \<Rightarrow> ring \<Rightarrow> interference list
     \<Rightarrow> (bool \<times> bytes \<times> int \<times> ring \<times> interference list) res"
where
  "read_loop cap dst buf copied nlen r es =
     (if nlen > 0 then
        (case lock_ring r es of (r0, es0) \<Rightarrow>
        bnd (if rb_count r0 = 0 then cond_wait r0 es0 else Inr (False, r0, es0)) (\<lambda>(t, r1, es1).
        if t then Inr (True, dst, copied, r1, es1)
        else bnd (ring_take r1 nlen) (\<lambda>(bs, r2).
             bnd (store cap dst buf bs) (\<lambda>dst1.
             read_loop cap dst1 (buf + int (length bs)) (copied + int (length bs))
               (nlen - int (length bs)) r2 es1))))
      else Inr (False, dst, copied, r, es))"
  by pat_completeness auto

termination
proof (relation "measures [\<lambda>(cap, dst, buf, copied, nlen, r, es). length es,
    \<lambda>(cap, dst, buf, copied, nlen, r, es). nat nlen,
    \<lambda>(cap, dst, buf, copied, nlen, r, es). if BUFFER_SIZE \<le> rb_get r then 1 else 0]", simp, goal_cases)
  case (1 cap dst buf copied nlen r es r0 es0 w t w2 r1 es1 tk bs r2 dst1)
  have lk: "lock_ring r es = (r0, es0)" and tk: "ring_take r1 nlen = Inr (bs, r2)"
    and wt: "(if rb_count r0 = 0 then cond_wait r0 es0 else Inr (False, r0, es0)) = Inr (t, r1, es1)"
    using 1 by simp_all
  have le: "length es1 \<le> length es0" "length es0 \<le> length es"
    using wt cond_wait_length lock_ring_length [OF lk] by (fastforce split: if_splits)+
  show ?case
  proof (cases "length es1 = length es")
    case False
    then show ?thesis using le by simp
  next
    case True
    then have "rb_count r0 \<noteq> 0" and "r1 = r0" and "r0 = r" and "es1 = es"
      using wt le cond_wait_length lock_ring_same [OF lk] by (fastforce split: if_splits)+
    then show ?thesis
      using 1(1) tk ring_take_shrinks [OF tk 1(1)] by (cases "bs = []") auto
  qed
qed

declare read_loop.simps [simp del]

text \<open>
  \<open>p2p_plugin_read\<close>.  \<open>own\<close> says that the caller's buffer is the member \<open>preview\<close> itself
  (as in \<open>get_optional_data\<close>), where the first \<open>memcpy\<close> may overlap.  The pointer \<open>buf\<close> is
  still at the start of the buffer when the loop begins, whatever the preview supplied.
\<close>

definition p2p_plugin_read ::
  "xine_api \<Rightarrow> bool \<Rightarrow> int \<Rightarrow> bytes \<Rightarrow> int \<Rightarrow> interference list \<Rightarrow> plugin
     \<Rightarrow> (int \<times> bytes \<times> plugin \<times> interference list) res"
where
  "p2p_plugin_read x own cap dst nlen es p =
     (if nlen < 0 then Inr (- 1, dst, p, es)
      else
        bnd (if pl_curpos p < pl_preview_size p then
               let n0 = pl_preview_size p - pl_curpos p;
                   n = (if n0 > nlen then nlen else n0)
               in bnd (guard (\<not> (own \<and> 0 < n \<and> \<bar>pl_curpos p\<bar> < n)) Overlap) (\<lambda>_.
                  bnd (load (MAX_PREVIEW_SIZE x) (pl_preview p) (pl_curpos p) n) (\<lambda>bs.
                  bnd (store cap dst 0 bs) (\<lambda>dst1.
                  Inr (dst1, p\<lparr>pl_curpos := pl_curpos p + n\<rparr>, n))))
             else Inr (dst, p, 0)) (\<lambda>(dst1, p1, copied).
        bnd (read_loop cap dst1 0 copied (nlen - copied) (pl_ring p1) es)
          (\<lambda>(early, dst2, copied2, r2, es2).
        if early then Inr (copied2, dst2, p1\<lparr>pl_ring := r2\<rparr>, es2)
        else Inr (copied2, dst2,
               p1\<lparr>pl_ring := r2, pl_curpos := pl_curpos p1 + copied2\<rparr>, es2))))"

text \<open>
  A buffer of xine's pool: \<open>mem\<close> with \<open>max_size\<close> bytes.  \<open>None\<close> is the \<open>NULL\<close> that
  \<open>read_block\<close> returns after giving the buffer back.
\<close>

record buf_element =
  be_mem :: bytes
  be_max_size :: int
  be_type :: int
  be_size :: int

definition p2p_plugin_read_block ::
  "xine_api \<Rightarrow> buf_element \<Rightarrow> int \<Rightarrow> interference list \<Rightarrow> plugin
     \<Rightarrow> (buf_element option \<times> plugin \<times> interference list) res"
where
  "p2p_plugin_read_block x b len0 es p =
     (let len = (if len0 > be_max_size b then be_max_size b else len0)
      in if len < 0 then Inr (None, p, es)
         else bnd (p2p_plugin_read x False (be_max_size b) (be_mem b) len es p)
                (\<lambda>(total_bytes, m, p1, es1).
              if total_bytes \<noteq> len then Inr (None, p1, es1)
              else Inr (Some (b\<lparr>be_mem := m, be_type := BUF_DEMUX_BLOCK x,
                               be_size := total_bytes\<rparr>), p1, es1)))"

section \<open>The other methods\<close>

definition p2p_plugin_get_capabilities :: "xine_api \<Rightarrow> int" where
  "p2p_plugin_get_capabilities x = INPUT_CAP_PREVIEW x"

definition p2p_plugin_seek :: "int \<Rightarrow> int \<Rightarrow> plugin \<Rightarrow> int" where
  "p2p_plugin_seek offset origin p = - 1"

definition p2p_plugin_get_current_pos :: "plugin \<Rightarrow> int" where
  "p2p_plugin_get_current_pos p = pl_curpos p"

definition p2p_plugin_get_length :: "plugin \<Rightarrow> int" where
  "p2p_plugin_get_length p = - 1"

definition p2p_plugin_get_blocksize :: "plugin \<Rightarrow> int" where
  "p2p_plugin_get_blocksize p = 0"

definition p2p_plugin_get_mrl :: "plugin \<Rightarrow> string cptr" where
  "p2p_plugin_get_mrl p = pl_mrl p"

text \<open>The bytes written to \<open>data\<close>, the value returned, and the new state.\<close>

definition p2p_plugin_get_optional_data ::
  "xine_api \<Rightarrow> int \<Rightarrow> interference list \<Rightarrow> plugin
     \<Rightarrow> (int \<times> byte list \<times> plugin \<times> interference list) res"
where
  "p2p_plugin_get_optional_data x data_type es p =
     (if data_type = INPUT_OPTIONAL_DATA_PREVIEW x then
        bnd (if pl_preview_read_done p = 0 then
               bnd (p2p_plugin_read x True (MAX_PREVIEW_SIZE x) (pl_preview p)
                      (MAX_PREVIEW_SIZE x) es p) (\<lambda>(n, m, p1, es1).
               Inr (p1\<lparr>pl_preview := m, pl_preview_size := (if n < 0 then 0 else n),
                       pl_preview_read_done := 1\<rparr>, es1))
             else Inr (p, es)) (\<lambda>(p2, es2).
        bnd (if pl_preview_size p2 \<noteq> 0
             then load (MAX_PREVIEW_SIZE x) (pl_preview p2) 0 (pl_preview_size p2)
             else Inr []) (\<lambda>data.
        Inr (pl_preview_size p2, data, p2, es2)))
      else Inr (INPUT_OPTIONAL_UNSUPPORTED x, [], p, es))"

text \<open>
  \<open>p2p_plugin_dispose\<close>.  The ring's buffer is a heap block; \<open>preview\<close> is an array inside
  the plugin object.
\<close>

definition p2p_plugin_dispose :: "plugin \<Rightarrow> unit res" where
  "p2p_plugin_dispose p =
     bnd (c_free (pl_mrl p)) (\<lambda>_.
     bnd (c_free (pl_host p)) (\<lambda>_.
     bnd (c_free (pl_interface p)) (\<lambda>_.
     bnd (c_free (Heap (rb_mem (pl_ring p)))) (\<lambda>_.
     bnd (c_free (Embedded (pl_preview p))) (\<lambda>_.
     bnd (deref (pl_output p)) (\<lambda>close.
     bnd close (\<lambda>_.
     c_free (Heap p))))))))"

section \<open>The plugin class\<close>

record input_class =
  ic_identifier :: string
  ic_description :: string
  ic_get_dir :: bool
  ic_get_autoplay_list :: bool
  ic_eject_media :: bool

text \<open>The three booleans say that the class has the method (the pointer is not \<open>NULL\<close>).\<close>

definition p2p_init_class :: "input_class cptr" where
  "p2p_init_class = Heap \<lparr>ic_identifier = ''p2p'', ic_description = ''p2p input plugin'',
     ic_get_dir = False, ic_get_autoplay_list = False, ic_eject_media = False\<rparr>"

definition p2p_class_dispose :: "input_class cptr \<Rightarrow> unit res" where
  "p2p_class_dispose c = c_free c"

section \<open>Lemmas on the loop\<close>

lemma appending_lock:
  assumes "\<forall>(t, f)\<in>set es. appending f" and "ring_ok r" and "lock_ring r es = (r', es')"
  shows "ring_ok r' \<and> (\<exists>ys. contents r' = contents r @ ys) \<and> set es' \<subseteq> set es"
  using assms by (cases es) (auto simp: lock_ring_def appending_def)

lemma appending_wait:
  assumes "\<forall>(t, f)\<in>set es. appending f" and "ring_ok r" and "cond_wait r es = Inr (t, r', es')"
  shows "ring_ok r' \<and> (\<exists>ys. contents r' = contents r @ ys) \<and> set es' \<subseteq> set es"
  using assms by (cases es) (auto simp: cond_wait_def appending_def)

lemma appending_acquire:
  assumes app: "\<forall>(t, f)\<in>set es. appending f" and ok: "ring_ok r"
    and lk: "lock_ring r es = (r0, es0)"
    and wt: "(if rb_count r0 = 0 then cond_wait r0 es0 else Inr (False, r0, es0)) = Inr (t, r1, es1)"
  shows "ring_ok r1 \<and> (\<exists>ys. contents r1 = contents r @ ys) \<and> set es1 \<subseteq> set es"
proof -
  have l: "ring_ok r0" "\<exists>ys. contents r0 = contents r @ ys" "set es0 \<subseteq> set es"
    using appending_lock [OF app ok lk] by auto
  have "\<forall>(t, f)\<in>set es0. appending f" using app l(3) by blast
  then show ?thesis
    using appending_wait [of es0 r0 t r1 es1] l wt by (auto split: if_splits)
qed

lemma mem_put_append:
  "mem_put (mem_put dst a xs) (a + int (length xs)) ys = mem_put dst a (xs @ ys)"
proof (rule ext)
  fix b
  show "mem_put (mem_put dst a xs) (a + int (length xs)) ys b = mem_put dst a (xs @ ys) b"
  proof (cases "a + int (length xs) \<le> b")
    case True
    then have "nat (b - (a + int (length xs))) = nat (b - a) - length xs"
      by simp
    then show ?thesis using True by (auto simp: mem_put_def nth_append)
  next
    case False
    then show ?thesis by (auto simp: mem_put_def nth_append)
  qed
qed

text \<open>
  Whatever the writer appends meanwhile, the loop moves a prefix of the stream into the
  caller's buffer: nothing is lost, repeated or reordered.
\<close>

definition moved :: "bytes \<Rightarrow> int \<Rightarrow> ring \<Rightarrow> byte list \<Rightarrow> bytes \<Rightarrow> ring \<Rightarrow> bool" where
  "moved dst buf r zs dst' r' \<longleftrightarrow> dst' = mem_put dst buf zs
     \<and> (\<exists>ys. contents r @ ys = zs @ contents r')"

lemma read_loop_moves:
  "read_loop cap dst buf copied nlen r es = Inr (early, dst', copied', r', es') \<Longrightarrow>
     ring_ok r \<Longrightarrow> \<forall>(t, f)\<in>set es. appending f \<Longrightarrow> 0 \<le> nlen \<Longrightarrow>
     \<exists>zs. moved dst buf r zs dst' r' \<and> ring_ok r' \<and> copied' = copied + int (length zs)
       \<and> int (length zs) \<le> nlen \<and> (\<not> early \<longrightarrow> int (length zs) = nlen)"
proof (induction cap dst buf copied nlen r es rule: read_loop.induct)
  case (1 cap dst buf copied nlen r es)
  show ?case
  proof (cases "nlen > 0")
    case False
    then have "dst' = mem_put dst buf []" "contents r @ [] = [] @ contents r'" "ring_ok r'"
        "copied' = copied" "nlen = 0"
      using 1(2,3,5) by (auto simp: read_loop.simps [of cap dst])
    then show ?thesis by (intro exI [of _ "[]"]) (auto simp: moved_def)
  next
    case True
    obtain r0 es0 where lk: "lock_ring r es = (r0, es0)" by (metis surj_pair)
    then obtain t r1 es1 where wt:
        "(if rb_count r0 = 0 then cond_wait r0 es0 else Inr (False, r0, es0)) = Inr (t, r1, es1)"
      and go: "(if t then Inr (True, dst, copied, r1, es1)
        else bnd (ring_take r1 nlen) (\<lambda>(bs, r2).
             bnd (store cap dst buf bs) (\<lambda>dst1.
             read_loop cap dst1 (buf + int (length bs)) (copied + int (length bs))
               (nlen - int (length bs)) r2 es1))) = Inr (early, dst', copied', r', es')"
      using 1(2) True by (subst (asm) read_loop.simps) auto
    obtain ys0 where r1: "ring_ok r1" "contents r1 = contents r @ ys0" "set es1 \<subseteq> set es"
      using appending_acquire [OF 1(4,3) lk wt] by auto
    show ?thesis
    proof (cases t)
      case True
      then have "dst' = mem_put dst buf []" "contents r @ ys0 = [] @ contents r'" "ring_ok r'"
          "copied' = copied" "early"
        using go r1 by auto
      then show ?thesis
        using 1(5) by (intro exI [of _ "[]"]) (auto simp: moved_def)
    next
      case False
      then obtain bs r2 dst1 where tk: "ring_take r1 nlen = Inr (bs, r2)"
        and st: "store cap dst buf bs = Inr dst1"
        and rest: "read_loop cap dst1 (buf + int (length bs)) (copied + int (length bs))
               (nlen - int (length bs)) r2 es1 = Inr (early, dst', copied', r', es')"
        using go by auto
      have bs: "contents r1 = bs @ contents r2" "int (length bs) \<le> nlen" "ring_ok r2"
        using rq.tk_prefix [OF r1(1) 1(5) tk] rq.tk_bound [OF r1(1) 1(5) tk]
          rq.tk_ok [OF r1(1) 1(5) tk] by auto
      obtain zs ys where zs: "dst' = mem_put dst1 (buf + int (length bs)) zs"
          "contents r2 @ ys = zs @ contents r'" "ring_ok r'"
          "copied' = copied + int (length bs) + int (length zs)"
          "int (length zs) \<le> nlen - int (length bs)"
          "\<not> early \<longrightarrow> int (length zs) = nlen - int (length bs)"
        using 1(1) [OF True lk [symmetric] wt refl refl False tk refl st] rest bs r1(3) 1(4)
        by (fastforce simp: moved_def)
      have "contents r @ (ys0 @ ys) = (bs @ zs) @ contents r'"
        using r1(2) bs(1) zs(2) by (metis append.assoc)
      moreover have "dst' = mem_put dst buf (bs @ zs)"
        using zs(1) st by (simp add: store_Inr mem_put_append)
      ultimately show ?thesis
        using zs by (intro exI [of _ "bs @ zs"]) (auto simp: moved_def)
    qed
  qed
qed

text \<open>
  The loop runs into no undefined behaviour, and it needs no wake-up as long as enough
  bytes are there.
\<close>

lemma ring_take_store:
  assumes "ring_ok r" and "0 \<le> n" and "ring_take r n = Inr (bs, r')"
    and "0 \<le> buf" and "buf + n \<le> cap"
  shows "store cap dst buf bs = Inr (mem_put dst buf bs)"
  using rq.tk_bound [OF assms(1-3)] assms(4,5) by simp

lemma keeping_acquire:
  assumes "\<forall>(t, f)\<in>set es. keeping f" and "ring_ok r" and "lock_ring r es = (r0, es0)"
    and "(if rb_count r0 = 0 then cond_wait r0 es0 else Inr (False, r0, es0)) = Inr (t, r1, es1)"
  shows "ring_ok r1 \<and> set es1 \<subseteq> set es"
  using assms
  by (auto simp: lock_ring_def cond_wait_def keeping_def split: list.splits if_splits)

lemma read_loop_no_UB:
  "read_loop cap dst buf copied nlen r es = Inl e \<Longrightarrow> ring_ok r \<Longrightarrow>
     \<forall>(t, f)\<in>set es. keeping f \<Longrightarrow> 0 \<le> buf \<Longrightarrow> buf + nlen \<le> cap \<Longrightarrow> e = Blocked"
proof (induction cap dst buf copied nlen r es rule: read_loop.induct)
  case (1 cap dst buf copied nlen r es)
  show ?case
  proof (cases "nlen > 0")
    case False
    then show ?thesis using 1(2) by (simp add: read_loop.simps [of cap dst])
  next
    case True
    then have n: "0 \<le> nlen" by simp
    obtain r0 es0 where lk: "lock_ring r es = (r0, es0)" by (metis surj_pair)
    let ?w = "if rb_count r0 = 0 then cond_wait r0 es0 else Inr (False, r0, es0)"
    show ?thesis
    proof (cases ?w)
      case (Inl e')
      then have "e = e'" using 1(2) True lk by (subst (asm) read_loop.simps) auto
      then show ?thesis using Inl by (auto simp: cond_wait_def split: if_splits list.splits)
    next
      case (Inr a)
      then obtain t r1 es1 where wt: "?w = Inr (t, r1, es1)" by (cases a) auto
      have r1: "ring_ok r1" "set es1 \<subseteq> set es"
        using keeping_acquire [OF 1(4,3) lk wt] by auto
      obtain bs r2 where tk: "ring_take r1 nlen = Inr (bs, r2)"
        using rq.tk_total [OF r1(1) n] by auto
      note st = ring_take_store [OF r1(1) n tk 1(5,6), of dst]
      have "\<not> t" and "read_loop cap (mem_put dst buf bs) (buf + int (length bs))
          (copied + int (length bs)) (nlen - int (length bs)) r2 es1 = Inl e"
        using 1(2) True lk wt tk st by (subst (asm) read_loop.simps; auto split: if_splits)+
      then show ?thesis
        using 1(1) [OF True lk [symmetric] wt refl refl _ tk refl st] 1(4-6) r1
          rq.tk_ok [OF r1(1) n tk] by fastforce
    qed
  qed
qed

lemma read_loop_enough:
  "ring_ok r \<Longrightarrow> \<forall>(t, f)\<in>set es. appending f \<Longrightarrow> 0 \<le> buf \<Longrightarrow> buf + nlen \<le> cap \<Longrightarrow>
     0 \<le> nlen \<Longrightarrow> nlen \<le> rb_count r \<Longrightarrow>
     \<exists>dst' r' es'. read_loop cap dst buf copied nlen r es
       = Inr (False, dst', copied + nlen, r', es')"
proof (induction cap dst buf copied nlen r es rule: read_loop.induct)
  case (1 cap dst buf copied nlen r es)
  show ?case
  proof (cases "nlen > 0")
    case False
    then show ?thesis using 1(6) by (simp add: read_loop.simps [of cap dst])
  next
    case True
    obtain r0 es0 where lk: "lock_ring r es = (r0, es0)" by (metis surj_pair)
    obtain ys0 where r0: "ring_ok r0" "contents r0 = contents r @ ys0" "set es0 \<subseteq> set es"
      using appending_lock [OF 1(3,2) lk] by auto
    have cnt: "nlen \<le> rb_count r0"
      using 1(7) arg_cong [OF r0(2), of length] r0(1) by (auto simp: ring_ok_def)
    then have wt: "(if rb_count r0 = 0 then cond_wait r0 es0 else Inr (False, r0, es0))
        = Inr (False, r0, es0)"
      using True by simp
    obtain bs r2 where tk: "ring_take r0 nlen = Inr (bs, r2)"
      using rq.tk_total [OF r0(1) 1(6)] by auto
    have b: "contents r0 = bs @ contents r2" "int (length bs) \<le> nlen" "ring_ok r2"
      using rq.tk_prefix [OF r0(1) 1(6) tk] rq.tk_bound [OF r0(1) 1(6) tk]
        rq.tk_ok [OF r0(1) 1(6) tk] by auto
    have cnt2: "nlen - int (length bs) \<le> rb_count r2"
      using cnt arg_cong [OF b(1), of length] r0(1) b(3) by (auto simp: ring_ok_def)
    note st = ring_take_store [OF r0(1) 1(6) tk 1(4,5), of dst]
    have app: "\<forall>(t, f)\<in>set es0. appending f"
      using 1(3) r0(3) by blast
    from 1(1) [OF True lk [symmetric] wt refl refl _ tk refl st b(3) app] 1(4,5) b(2) cnt2
    show ?thesis
      using True lk wt tk st by (subst read_loop.simps) simp
  qed
qed

lemma read_loop_schedule:
  "read_loop cap dst buf copied nlen r es = Inr (early, dst', copied', r', es') \<Longrightarrow>
     length es' \<le> length es"
proof (induction cap dst buf copied nlen r es rule: read_loop.induct)
  case (1 cap dst buf copied nlen r es)
  show ?case
  proof (cases "nlen > 0")
    case False
    then show ?thesis using 1(2) by (simp add: read_loop.simps [of cap dst])
  next
    case True
    obtain r0 es0 where lk: "lock_ring r es = (r0, es0)" by (metis surj_pair)
    then obtain t r1 es1 where wt:
        "(if rb_count r0 = 0 then cond_wait r0 es0 else Inr (False, r0, es0)) = Inr (t, r1, es1)"
      and go: "(if t then Inr (True, dst, copied, r1, es1)
        else bnd (ring_take r1 nlen) (\<lambda>(bs, r2).
             bnd (store cap dst buf bs) (\<lambda>dst1.
             read_loop cap dst1 (buf + int (length bs)) (copied + int (length bs))
               (nlen - int (length bs)) r2 es1))) = Inr (early, dst', copied', r', es')"
      using 1(2) True by (subst (asm) read_loop.simps) auto
    have le: "length es1 \<le> length es"
      using wt lock_ring_length [OF lk] cond_wait_length by (fastforce split: if_splits)
    show ?thesis
    proof (cases t)
      case True
      then show ?thesis using go le by simp
    next
      case False
      then show ?thesis
        using go le 1(1) [OF True lk [symmetric] wt refl refl] by fastforce
    qed
  qed
qed

section \<open>Lemmas on \<open>p2p_plugin_read\<close>\<close>

text \<open>Without pending preview bytes the function is its loop.\<close>

lemma read_no_preview:
  assumes "pl_preview_size p \<le> pl_curpos p" and "0 \<le> nlen"
  shows "p2p_plugin_read x own cap dst nlen es p =
    bnd (read_loop cap dst 0 0 nlen (pl_ring p) es) (\<lambda>(early, dst2, copied2, r2, es2).
      if early then Inr (copied2, dst2, p\<lparr>pl_ring := r2\<rparr>, es2)
      else Inr (copied2, dst2, p\<lparr>pl_ring := r2, pl_curpos := pl_curpos p + copied2\<rparr>, es2))"
  using assms by (simp add: p2p_plugin_read_def)

lemma read_with_preview:
  assumes "pl_curpos p < pl_preview_size p" and "0 \<le> nlen" and "nlen \<le> cap"
    and "0 \<le> pl_curpos p" and "pl_preview_size p \<le> MAX_PREVIEW_SIZE x"
    and "n = min nlen (pl_preview_size p - pl_curpos p)"
  shows "p2p_plugin_read x False cap dst nlen es p =
    bnd (read_loop cap (mem_put dst 0 (mem_get (pl_preview p) (pl_curpos p) n)) 0 n (nlen - n)
           (pl_ring p) es) (\<lambda>(early, dst2, copied2, r2, es2).
      if early
      then Inr (copied2, dst2, p\<lparr>pl_curpos := pl_curpos p + n, pl_ring := r2\<rparr>, es2)
      else Inr (copied2, dst2,
             p\<lparr>pl_ring := r2, pl_curpos := pl_curpos p + n + copied2\<rparr>, es2))"
proof -
  have n: "(if pl_preview_size p - pl_curpos p > nlen then nlen
      else pl_preview_size p - pl_curpos p) = n"
    using assms(6) by simp
  have l: "load (MAX_PREVIEW_SIZE x) (pl_preview p) (pl_curpos p) n
      = Inr (mem_get (pl_preview p) (pl_curpos p) n)"
    and st: "store cap dst 0 (mem_get (pl_preview p) (pl_curpos p) n)
      = Inr (mem_put dst 0 (mem_get (pl_preview p) (pl_curpos p) n))"
    using assms by auto
  have "\<not> nlen < 0" using assms(2) by simp
  then show ?thesis
    using assms(1)
    by (simp only: p2p_plugin_read_def if_True if_False Let_def n l st bnd_Inr guard_True
        prod.case simp_thms)
      (simp cong: if_cong)
qed

lemma read_loop_0 [simp]: "read_loop cap dst buf copied 0 r es = Inr (False, dst, copied, r, es)"
  by (simp add: read_loop.simps)

lemma mem_get_put_prefix:
  "0 \<le> n \<Longrightarrow> int (length xs) \<le> n \<Longrightarrow>
     mem_get (mem_put dst 0 xs) 0 n = xs @ mem_get dst (int (length xs)) (n - int (length xs))"
  by (rule nth_equalityI) (auto simp: mem_put_def nth_append)

lemma p2p_plugin_read_conserves_aux:
  assumes "ring_ok (pl_ring p)" and "pl_preview_size p \<le> pl_curpos p" and "0 \<le> nlen"
    and "\<forall>(t, f)\<in>set es. appending f"
    and "p2p_plugin_read x own cap dst nlen es p = Inr (ret, dst', p', es')"
  shows "0 \<le> ret \<and> ret \<le> nlen \<and> ring_ok (pl_ring p')
    \<and> (\<exists>ys. contents (pl_ring p) @ ys = mem_get dst' 0 ret @ contents (pl_ring p'))
    \<and> (\<forall>a. a < 0 \<or> ret \<le> a \<longrightarrow> dst' a = dst a)"
proof -
  obtain early copied r' where l: "read_loop cap dst 0 0 nlen (pl_ring p) es
      = Inr (early, dst', copied, r', es')" and ret: "ret = copied" "pl_ring p' = r'"
    using assms(5) unfolding read_no_preview [OF assms(2,3)] by (auto split: if_splits)
  obtain zs ys where zs: "dst' = mem_put dst 0 zs" "contents (pl_ring p) @ ys = zs @ contents r'"
      "copied = int (length zs)" "int (length zs) \<le> nlen" "ring_ok r'"
    using read_loop_moves [OF l assms(1,4,3)] by (auto simp: moved_def)
  then show ?thesis
    using ret mem_get_put [of dst 0 zs] by (auto simp: mem_put_def)
qed

lemma p2p_plugin_read_prefix_aux:
  assumes "ring_ok (pl_ring p)" and "pl_preview_size p \<le> pl_curpos p"
    and "0 \<le> nlen" and "nlen \<le> cap" and "nlen \<le> rb_count (pl_ring p)"
    and "\<forall>(t, f)\<in>set es. appending f"
  shows "\<exists>dst' p' es'. p2p_plugin_read x own cap dst nlen es p = Inr (nlen, dst', p', es')
    \<and> mem_get dst' 0 nlen = take (nat nlen) (contents (pl_ring p))
    \<and> pl_curpos p' = pl_curpos p + nlen \<and> ring_ok (pl_ring p')
    \<and> (\<exists>ys. contents (pl_ring p') = drop (nat nlen) (contents (pl_ring p)) @ ys)"
proof -
  obtain dst' r' es' where l: "read_loop cap dst 0 0 nlen (pl_ring p) es
      = Inr (False, dst', nlen, r', es')"
    using read_loop_enough [of "pl_ring p" es 0 nlen cap dst 0] assms by auto
  obtain zs ys where zs: "dst' = mem_put dst 0 zs" "contents (pl_ring p) @ ys = zs @ contents r'"
      "int (length zs) = nlen" "ring_ok r'"
    using read_loop_moves [OF l assms(1,6,3)] by (auto simp: moved_def)
  have len: "nat nlen = length zs" "length zs \<le> length (contents (pl_ring p))"
    using zs(3) assms(5) by auto
  have "take (length zs) (contents (pl_ring p) @ ys) = zs"
    and "drop (length zs) (contents (pl_ring p) @ ys) = contents r'"
    using zs(2) by simp_all
  then have "take (nat nlen) (contents (pl_ring p)) = zs"
    and "contents r' = drop (nat nlen) (contents (pl_ring p)) @ ys"
    using len by simp_all
  then show ?thesis
    using l zs(1,3,4) assms(2,3) mem_get_put [of dst 0 zs] by (simp add: read_no_preview)
qed

section \<open>Properties\<close>

text \<open>
  C4. A read served from the ring: when at least \<open>nlen\<close> bytes are there and no preview
  bytes are pending, \<open>p2p_plugin_read\<close> returns \<open>nlen\<close> whatever a writer appends meanwhile,
  the caller's buffer holds the first \<open>nlen\<close> bytes of the stream, the position advances by
  \<open>nlen\<close>, and the rest of the stream is still in the ring.
\<close>

theorem p2p_plugin_read_prefix:
  assumes "ring_ok (pl_ring p)" and "pl_preview_size p \<le> pl_curpos p"
    and "0 \<le> nlen" and "nlen \<le> cap" and "nlen \<le> rb_count (pl_ring p)"
    and "\<forall>(t, f)\<in>set es. appending f"
  shows "\<exists>dst' p' es'. p2p_plugin_read x own cap dst nlen es p = Inr (nlen, dst', p', es')
    \<and> mem_get dst' 0 nlen = take (nat nlen) (contents (pl_ring p))
    \<and> pl_curpos p' = pl_curpos p + nlen \<and> ring_ok (pl_ring p')
    \<and> (\<exists>ys. contents (pl_ring p') = drop (nat nlen) (contents (pl_ring p)) @ ys)"
  using assms by (rule p2p_plugin_read_prefix_aux)

definition ex_ring :: ring where
  "ex_ring = \<lparr>rb_mem = (\<lambda>a. word_of_int a), rb_get = BUFFER_SIZE - 2, rb_put = 3,
     rb_count = 5, rb_max = BUFFER_SIZE\<rparr>"

definition ex_plugin :: plugin where
  "ex_plugin = \<lparr>pl_interface = Static ''lo0'', pl_own_port = 44444, pl_host = Heap ''h'',
     pl_host_port = 1, pl_fh = 0, pl_mrl = Heap ''p2p://h:1'', pl_curpos = 0,
     pl_preview = (\<lambda>a. 7), pl_preview_size = 0, pl_preview_read_done = 0,
     pl_ring = ex_ring, pl_output = None\<rparr>"

definition ex_xine :: xine_api where
  "ex_xine = \<lparr>MAX_PREVIEW_SIZE = 4096, INPUT_CAP_PREVIEW = 64,
     INPUT_OPTIONAL_DATA_PREVIEW = 7, INPUT_OPTIONAL_UNSUPPORTED = 0, BUF_DEMUX_BLOCK = 5\<rparr>"

lemma ex_ring_ok: "ring_ok ex_ring"
  by (simp add: ring_ok_def ex_ring_def BUFFER_SIZE_def)

lemma ex_plugin_simps [simp]:
  "pl_ring ex_plugin = ex_ring" "pl_curpos ex_plugin = 0" "pl_preview_size ex_plugin = 0"
  "rb_count ex_ring = 5" "MAX_PREVIEW_SIZE ex_xine = 4096"
  by (simp_all add: ex_plugin_def ex_ring_def ex_xine_def)

theorem p2p_plugin_read_prefix_witness:
  "\<exists>dst' p' es'. p2p_plugin_read ex_xine False 8 (\<lambda>_. 0) 4 [] ex_plugin = Inr (4, dst', p', es')
    \<and> mem_get dst' 0 4 = take (nat 4) (contents ex_ring)
    \<and> pl_curpos p' = 4 \<and> ring_ok (pl_ring p')
    \<and> (\<exists>ys. contents (pl_ring p') = drop (nat 4) (contents ex_ring) @ ys)"
  using p2p_plugin_read_prefix [of ex_plugin 4 8 "[]" ex_xine False "\<lambda>_. 0"] ex_ring_ok by simp

text \<open>
  C10. Whatever the schedule (waits, timeouts, appends by the writer), a read that returns
  has moved a prefix of the stream into the caller's buffer, at most \<open>nlen\<close> bytes and as
  many as it reports; the old bytes of the ring and the appended ones are the bytes
  delivered followed by the bytes left.
\<close>

theorem p2p_plugin_read_conserves:
  assumes "ring_ok (pl_ring p)" and "pl_preview_size p \<le> pl_curpos p" and "0 \<le> nlen"
    and "\<forall>(t, f)\<in>set es. appending f"
    and "p2p_plugin_read x own cap dst nlen es p = Inr (ret, dst', p', es')"
  shows "0 \<le> ret \<and> ret \<le> nlen \<and> ring_ok (pl_ring p')
    \<and> (\<exists>ys. contents (pl_ring p) @ ys = mem_get dst' 0 ret @ contents (pl_ring p'))
    \<and> (\<forall>a. a < 0 \<or> ret \<le> a \<longrightarrow> dst' a = dst a)"
  using assms by (rule p2p_plugin_read_conserves_aux)

theorem p2p_plugin_read_conserves_witness:
  "\<exists>dst' p'. p2p_plugin_read ex_xine False 8 (\<lambda>_. 0) 7 [(False, \<lambda>r. r), (False, \<lambda>r. r),
       (False, \<lambda>r. r), (True, \<lambda>r. r)] ex_plugin = Inr (5, dst', p', [])
    \<and> (\<exists>ys. contents ex_ring @ ys = mem_get dst' 0 5 @ contents (pl_ring p'))"
proof -
  let ?es = "[(False, \<lambda>r. r), (False, \<lambda>r. r), (False, \<lambda>r. r), (True, \<lambda>r :: ring. r)]"
  obtain dst' p' where run: "p2p_plugin_read ex_xine False 8 (\<lambda>_. 0) 7 ?es ex_plugin
      = Inr (5, dst', p', [])"
    by (simp add: read_no_preview read_loop.simps lock_ring_def cond_wait_def ring_take_def
        ex_ring_def BUFFER_SIZE_def Let_def load_def store_def)
  show ?thesis
    using p2p_plugin_read_conserves [OF _ _ _ _ run] run ex_ring_ok appending_id by auto
qed

lemma p2p_plugin_read_no_UB:
  assumes "ring_ok (pl_ring p)" and "nlen \<le> cap" and "0 \<le> pl_curpos p"
    and "pl_preview_size p \<le> MAX_PREVIEW_SIZE x" and "\<forall>(t, f)\<in>set es. keeping f"
    and "p2p_plugin_read x False cap dst nlen es p = Inl e"
  shows "e = Blocked"
proof (cases "pl_preview_size p \<le> pl_curpos p")
  case True
  have "0 \<le> nlen" using assms(6) by (auto simp: p2p_plugin_read_def split: if_splits)
  then show ?thesis
    using assms(6) read_loop_no_UB [OF _ assms(1,5), of cap dst 0 0 nlen] assms(2)
    unfolding read_no_preview [OF True \<open>0 \<le> nlen\<close>]
    by (cases "read_loop cap dst 0 0 nlen (pl_ring p) es") (auto split: if_splits)
next
  case False
  define n where "n = min nlen (pl_preview_size p - pl_curpos p)"
  have nl: "0 \<le> nlen" using assms(6) by (auto simp: p2p_plugin_read_def split: if_splits)
  have lt: "pl_curpos p < pl_preview_size p" using False by simp
  let ?d = "mem_put dst 0 (mem_get (pl_preview p) (pl_curpos p) n)"
  have "0 + (nlen - n) \<le> cap" using assms(2) nl lt by (simp add: n_def)
  then show ?thesis
    using assms(6) read_loop_no_UB [OF _ assms(1,5), of cap ?d 0 n "nlen - n"]
    unfolding read_with_preview [OF lt nl assms(2,3,4) n_def]
    by (cases "read_loop cap ?d 0 n (nlen - n) (pl_ring p) es") (auto split: if_splits)
qed

text \<open>
  A request the preview covers is served from the preview alone: the caller gets the
  \<open>nlen\<close> preview bytes at the position and the ring is left alone.  The position advances
  by twice the bytes delivered, since the loop's epilogue adds them a second time.
\<close>

lemma p2p_plugin_read_preview:
  assumes "0 \<le> pl_curpos p" and "0 < nlen" and "nlen \<le> pl_preview_size p - pl_curpos p"
    and "nlen \<le> cap" and "pl_preview_size p \<le> MAX_PREVIEW_SIZE x"
  shows "\<exists>dst'. p2p_plugin_read x False cap dst nlen es p
      = Inr (nlen, dst', p\<lparr>pl_curpos := pl_curpos p + 2 * nlen\<rparr>, es)
    \<and> mem_get dst' 0 nlen = mem_get (pl_preview p) (pl_curpos p) nlen"
proof -
  have "nlen = min nlen (pl_preview_size p - pl_curpos p)"
    using assms(3) by simp
  moreover have "pl_curpos p < pl_preview_size p" and "0 \<le> nlen"
    using assms(2,3) by simp_all
  ultimately show ?thesis
    using read_with_preview [of p nlen cap x nlen dst es] assms
      mem_get_put [of dst 0 "mem_get (pl_preview p) (pl_curpos p) nlen"]
    by (simp add: algebra_simps)
qed

text \<open>
  C38. A request that needs preview bytes and ring bytes: the loop copies the ring bytes to
  the start of the caller's buffer, over the preview bytes just put there.  With \<open>k\<close>
  preview bytes left and \<open>nlen - k\<close> bytes in the ring the call reports \<open>nlen\<close> bytes, but
  the buffer begins with the ring's bytes.  The position advances by \<open>k\<close> bytes more than
  were delivered, since the end of the function adds the preview bytes a second time.
\<close>

theorem p2p_plugin_read_overwrites_preview:
  assumes "ring_ok (pl_ring p)" and "0 \<le> pl_curpos p"
    and "k = pl_preview_size p - pl_curpos p" and "0 < k" and "k < nlen" and "nlen \<le> cap"
    and "nlen - k \<le> rb_count (pl_ring p)" and "pl_preview_size p \<le> MAX_PREVIEW_SIZE x"
  shows "\<exists>dst' p'. p2p_plugin_read x False cap dst nlen [] p = Inr (nlen, dst', p', [])
    \<and> mem_get dst' 0 (nlen - k) = take (nat (nlen - k)) (contents (pl_ring p))
    \<and> pl_curpos p' = pl_curpos p + nlen + k"
proof -
  let ?d = "mem_put dst 0 (mem_get (pl_preview p) (pl_curpos p) k)"
  have n: "k = min nlen (pl_preview_size p - pl_curpos p)" using assms(3,5) by simp
  obtain dst' r' es' where l: "read_loop cap ?d 0 k (nlen - k) (pl_ring p) []
      = Inr (False, dst', nlen, r', es')"
    using read_loop_enough [of "pl_ring p" "[]" 0 "nlen - k" cap ?d k] assms by auto
  obtain zs ys where zs: "dst' = mem_put ?d 0 zs" "contents (pl_ring p) @ ys = zs @ contents r'"
      "int (length zs) = nlen - k"
    using read_loop_moves [OF l assms(1)] assms(5) by (auto simp: moved_def)
  have "take (nat (nlen - k)) (contents (pl_ring p) @ ys) = zs"
    using zs by (metis append_eq_conv_conj nat_int)
  moreover have "nat (nlen - k) \<le> length (contents (pl_ring p))"
    using assms(7) by simp
  ultimately have "mem_get dst' 0 (nlen - k) = take (nat (nlen - k)) (contents (pl_ring p))"
    using zs(1,3) mem_get_put [of ?d 0 zs] by simp
  moreover have "es' = []"
    using l read_loop_schedule by fastforce
  ultimately show ?thesis
    using l assms read_with_preview [of p nlen cap x k dst "[]"] n by simp
qed

theorem p2p_plugin_read_overwrites_preview_witness:
  "\<exists>dst' p'. p2p_plugin_read ex_xine False 8 (\<lambda>_. 0) 7 [] (ex_plugin\<lparr>pl_preview_size := 2\<rparr>)
      = Inr (7, dst', p', []) \<and> mem_get dst' 0 5 = take (nat 5) (contents ex_ring)
    \<and> pl_curpos p' = 9"
  using p2p_plugin_read_overwrites_preview
    [of "ex_plugin\<lparr>pl_preview_size := 2\<rparr>" 2 7 8 ex_xine "\<lambda>_. 0"] ex_ring_ok by simp

text \<open>
  \<open>read_block\<close> hands out a pool buffer only when it is filled as far as asked (or as far
  as it is large): its size is that length and it holds the next bytes of the stream.
\<close>

lemma p2p_plugin_read_block_full:
  assumes "ring_ok (pl_ring p)" and "pl_preview_size p \<le> pl_curpos p"
    and "\<forall>(t, f)\<in>set es. appending f"
    and "p2p_plugin_read_block x b len es p = Inr (Some b', p', es')"
  shows "be_size b' = min len (be_max_size b) \<and> 0 \<le> be_size b'
    \<and> be_type b' = BUF_DEMUX_BLOCK x
    \<and> (\<exists>ys. contents (pl_ring p) @ ys
         = mem_get (be_mem b') 0 (be_size b') @ contents (pl_ring p'))"
proof -
  let ?len = "if len > be_max_size b then be_max_size b else len"
  have nn: "0 \<le> ?len" and "p2p_plugin_read x False (be_max_size b) (be_mem b) ?len es p
      = Inr (?len, be_mem b', p', es')"
    and b': "be_size b' = ?len" "be_type b' = BUF_DEMUX_BLOCK x"
    using assms(4) by (auto simp: p2p_plugin_read_block_def Let_def split: if_splits)
  then show ?thesis
    using p2p_plugin_read_conserves_aux [OF assms(1,2) nn assms(3)] by auto
qed

text \<open>
  The preview is read once: after a call of \<open>get_optional_data\<close> for the preview that
  returned, every later call returns the same length and bytes and changes nothing.
\<close>

lemma p2p_plugin_get_optional_data_once:
  assumes "p2p_plugin_get_optional_data x (INPUT_OPTIONAL_DATA_PREVIEW x) es p
      = Inr (n, data, p', es')"
  shows "p2p_plugin_get_optional_data x (INPUT_OPTIONAL_DATA_PREVIEW x) es2 p'
      = Inr (n, data, p', es2)"
  using assms by (auto simp: p2p_plugin_get_optional_data_def split: if_splits)

text \<open>
  \<open>p2p_plugin_dispose\<close> never completes: whatever the plugin's state, it passes to \<open>free\<close>
  a pointer that is not a heap block, at the latest the array member \<open>preview\<close>.
\<close>

lemma p2p_plugin_dispose_bad_free: "p2p_plugin_dispose p = Inl (UB Bad_Free)"
  by (cases "pl_mrl p"; cases "pl_host p"; cases "pl_interface p")
    (simp_all add: p2p_plugin_dispose_def c_free_def)

end
