(* ===== verification/Mrl.thy ===== *)
theory Mrl
  imports Input_P2p
begin

text \<open>
  \<open>p2p_class_get_instance\<close> of \<open>src/input_p2p.c\<close>: the construction of a plugin object from an
  MRL \<open>p2p://host:port\<close>.  The pieces of the MRL are C strings in blocks of a small heap, so
  that the sizes and the frees of the code are checked.
\<close>

section \<open>Strings in the heap\<close>

text \<open>
  A block is the list of its bytes, \<open>None\<close> where nothing has been stored yet; a block that is
  not allocated, or freed, is \<open>None\<close>.  A pointer is a block with an offset.
\<close>

record heap =
  hp_blocks :: "nat \<Rightarrow> char option list option"
  hp_next :: nat

type_synonym ptr = "nat \<times> int"

definition NUL :: char where "NUL = CHR 0x00"

definition malloc :: "int \<Rightarrow> heap \<Rightarrow> ptr \<times> heap" where
  "malloc n h = ((hp_next h, 0), h\<lparr>hp_blocks := (hp_blocks h)(hp_next h := Some (replicate (nat n) None)),
     hp_next := Suc (hp_next h)\<rparr>)"

definition free :: "ptr \<Rightarrow> heap \<Rightarrow> heap res" where
  "free p h = (case p of (b, off) \<Rightarrow>
     (case hp_blocks h b of
       None \<Rightarrow> Inl (UB Use_After_Free)
     | Some xs \<Rightarrow> if off = 0 then Inr (h\<lparr>hp_blocks := (hp_blocks h)(b := None)\<rparr>)
                  else Inl (UB Bad_Free)))"

text \<open>The bytes from a pointer to the end of its block, and a store there.\<close>

definition bytes_from :: "ptr \<Rightarrow> heap \<Rightarrow> char option list res" where
  "bytes_from p h = (case p of (b, off) \<Rightarrow>
     (case hp_blocks h b of
       None \<Rightarrow> Inl (UB Use_After_Free)
     | Some xs \<Rightarrow> if 0 \<le> off \<and> off \<le> int (length xs) then Inr (drop (nat off) xs)
                  else Inl (UB Out_Of_Bounds)))"

definition store_chars :: "ptr \<Rightarrow> char list \<Rightarrow> heap \<Rightarrow> heap res" where
  "store_chars p cs h = (case p of (b, off) \<Rightarrow>
     (case hp_blocks h b of
       None \<Rightarrow> Inl (UB Use_After_Free)
     | Some xs \<Rightarrow>
         if 0 \<le> off \<and> off + int (length cs) \<le> int (length xs)
         then Inr (h\<lparr>hp_blocks := (hp_blocks h)(b := Some
                (take (nat off) xs @ map Some cs @ drop (nat off + length cs) xs))\<rparr>)
         else Inl (UB Out_Of_Bounds)))"

text \<open>The string at a pointer, and the bytes \<open>strncpy\<close> stores for a size of \<open>n\<close>.\<close>

fun string_of :: "char option list \<Rightarrow> string res" where
  "string_of [] = Inl (UB Out_Of_Bounds)"
| "string_of (None # xs) = Inl (UB Uninitialised)"
| "string_of (Some c # xs) = (if c = NUL then Inr [] else bnd (string_of xs) (\<lambda>s. Inr (c # s)))"

fun strncpy_bytes :: "nat \<Rightarrow> char option list \<Rightarrow> char list res" where
  "strncpy_bytes 0 xs = Inr []"
| "strncpy_bytes (Suc n) [] = Inl (UB Out_Of_Bounds)"
| "strncpy_bytes (Suc n) (None # xs) = Inl (UB Uninitialised)"
| "strncpy_bytes (Suc n) (Some c # xs) =
     (if c = NUL then Inr (replicate (Suc n) NUL)
      else bnd (strncpy_bytes n xs) (\<lambda>cs. Inr (c # cs)))"

definition c_string :: "ptr \<Rightarrow> heap \<Rightarrow> string res" where
  "c_string p h = bnd (bytes_from p h) string_of"

definition strncpy :: "ptr \<Rightarrow> ptr \<Rightarrow> int \<Rightarrow> heap \<Rightarrow> heap res" where
  "strncpy dst src n h =
     bnd (bytes_from src h) (\<lambda>xs.
     bnd (strncpy_bytes (nat n) xs) (\<lambda>cs. store_chars dst cs h))"

definition strdup :: "string \<Rightarrow> heap \<Rightarrow> ptr \<times> heap" where
  "strdup s h = (case malloc (int (length s) + 1) h of (p, h1) \<Rightarrow>
     (p, h1\<lparr>hp_blocks := (hp_blocks h1)(fst p := Some (map Some (s @ [NUL])))\<rparr>))"

fun find_char :: "char \<Rightarrow> string \<Rightarrow> nat option" where
  "find_char c [] = None"
| "find_char c (x # xs) = (if x = c then Some 0 else map_option Suc (find_char c xs))"

definition strchr :: "ptr \<Rightarrow> char \<Rightarrow> heap \<Rightarrow> ptr option res" where
  "strchr p c h = bnd (c_string p h) (\<lambda>s.
     Inr (map_option (\<lambda>k. (fst p, snd p + int k)) (find_char c s)))"

text \<open>\<open>atoi\<close>: white space, a sign, decimal digits; a value outside \<open>int\<close> is undefined.\<close>

definition is_space :: "char \<Rightarrow> bool" where
  "is_space c \<longleftrightarrow> c = CHR '' '' \<or> (9 \<le> (of_char c :: nat) \<and> (of_char c :: nat) \<le> 13)"

definition is_digit :: "char \<Rightarrow> bool" where
  "is_digit c \<longleftrightarrow> 48 \<le> (of_char c :: nat) \<and> (of_char c :: nat) \<le> 57"

definition digits_value :: "string \<Rightarrow> int" where
  "digits_value ds = foldl (\<lambda>v c. v * 10 + (of_char c - 48)) 0 ds"

definition atoi :: "string \<Rightarrow> int res" where
  "atoi s = (let t = dropWhile is_space s
     in case t of
          [] \<Rightarrow> Inr 0
        | c # cs \<Rightarrow>
            if c = CHR ''-'' then cint (- digits_value (takeWhile is_digit cs))
            else if c = CHR ''+'' then cint (digits_value (takeWhile is_digit cs))
            else cint (digits_value (takeWhile is_digit t)))"

text \<open>\<open>strncasecmp(mrl, "p2p://", 6) == 0\<close>.\<close>

definition to_lower :: "char \<Rightarrow> char" where
  "to_lower c = (let n = (of_char c :: nat) in if 65 \<le> n \<and> n \<le> 90 then char_of (n + 32) else c)"

definition is_p2p :: "string \<Rightarrow> bool" where
  "is_p2p mrl \<longleftrightarrow> map to_lower (take 6 mrl) = ''p2p://''"

section \<open>The construction\<close>

definition DEFAULT_HOST_PORT :: int where "DEFAULT_HOST_PORT = 55555"
definition OWN_PORT :: int where "OWN_PORT = 44444"

text \<open>
  The members set before the MRL is parsed; the others keep what \<open>malloc\<close> left in \<open>raw\<close>.
\<close>

definition new_plugin :: "plugin \<Rightarrow> bytes \<Rightarrow> string \<Rightarrow> plugin" where
  "new_plugin raw m mrl = raw\<lparr>pl_mrl := Heap mrl, pl_fh := - 1, pl_ring := ring_new m, pl_curpos := 0,
     pl_output := None, pl_interface := Static ''lo0'', pl_own_port := OWN_PORT\<rparr>"

text \<open>The copy of the MRL without \<open>p2p://\<close>.\<close>

definition copy_url :: "ptr \<Rightarrow> int \<Rightarrow> heap \<Rightarrow> (ptr \<times> heap) res" where
  "copy_url mrl len h =
     (let urlLength = len + 1 - 6
      in case malloc urlLength h of (url, h1) \<Rightarrow>
         bnd (strncpy url (fst mrl, snd mrl + 6) (urlLength - 1) h1) (\<lambda>h2.
         bnd (store_chars (fst url, snd url + (urlLength - 1)) [NUL] h2) (\<lambda>h3.
         Inr (url, h3))))"

text \<open>
  The host: everything before the colon.  The difference \<open>colon - url\<close> is undefined when
  \<open>strchr\<close> found none.
\<close>

definition parse_host :: "ptr \<Rightarrow> heap \<Rightarrow> (ptr \<times> int \<times> ptr \<times> heap) res" where
  "parse_host url h =
     bnd (strchr url (CHR '':'') h) (\<lambda>found.
     bnd (deref found) (\<lambda>colon.
     let positionColon = snd colon - snd url
     in case malloc (positionColon + 1) h of (host, h1) \<Rightarrow>
        bnd (strncpy host url positionColon h1) (\<lambda>h2.
        bnd (store_chars (fst host, snd host + positionColon) [NUL] h2) (\<lambda>h3.
        Inr (colon, positionColon, host, h3)))))"

definition parse_port :: "ptr \<Rightarrow> int \<Rightarrow> heap \<Rightarrow> (int \<times> heap) res" where
  "parse_port url positionColon h =
     (if positionColon \<noteq> 0 then
        bnd (c_string url h) (\<lambda>u.
        let n = int (length u) - positionColon
        in case malloc n h of (port, h1) \<Rightarrow>
           bnd (strncpy port (fst url, snd url + positionColon + 1) n h1) (\<lambda>h2.
           bnd (store_chars (fst port, snd port + n) [NUL] h2) (\<lambda>h3.
           bnd (c_string port h3) (\<lambda>digits.
           bnd (atoi digits) (\<lambda>host_port.
           bnd (free port h3) (\<lambda>h4. Inr (host_port, h4)))))))
      else Inr (DEFAULT_HOST_PORT, h))"

definition p2p_class_get_instance ::
  "plugin \<Rightarrow> bytes \<Rightarrow> string \<Rightarrow> heap \<Rightarrow> (plugin option \<times> heap) res"
where
  "p2p_class_get_instance raw m mrl h =
     (if \<not> is_p2p mrl then Inr (None, h)
      else
        let this = new_plugin raw m mrl
        in case strdup mrl h of (this_mrl, h0) \<Rightarrow>
           bnd (copy_url this_mrl (int (length mrl)) h0) (\<lambda>(url, h1).
           bnd (parse_host url h1) (\<lambda>(colon, positionColon, host, h2).
           bnd (parse_port url positionColon h2) (\<lambda>(host_port, h3).
           bnd (free colon h3) (\<lambda>h4.
           bnd (free url h4) (\<lambda>h5.
           bnd (c_string host h5) (\<lambda>host_name.
           Inr (Some (this\<lparr>pl_host := Heap host_name, pl_host_port := host_port\<rparr>), h5))))))))"

section \<open>Lemmas\<close>

text \<open>A C string that fills its block, and a heap whose next block is \<open>n\<close>.\<close>

definition c_block :: "string \<Rightarrow> char option list" where
  "c_block s = map Some (s @ [NUL])"

lemma string_of_c_block [simp]: "NUL \<notin> set s \<Longrightarrow> string_of (c_block s) = Inr s"
  by (induction s) (auto simp: c_block_def)

lemma drop_c_block: "n \<le> length s \<Longrightarrow> drop n (c_block s) = c_block (drop n s)"
  by (simp add: c_block_def drop_map)

lemma strncpy_bytes_prefix:
  "NUL \<notin> set s \<Longrightarrow> n \<le> length s \<Longrightarrow> strncpy_bytes n (c_block s) = Inr (take n s)"
proof (induction s arbitrary: n)
  case (Cons c s)
  then show ?case by (cases n) (auto simp: c_block_def)
qed (simp add: c_block_def)

lemma strncpy_bytes_whole:
  "NUL \<notin> set s \<Longrightarrow> strncpy_bytes (Suc (length s)) (c_block s) = Inr (s @ [NUL])"
  by (induction s) (auto simp: c_block_def)

lemma find_char_Some: "find_char c s = Some k \<longleftrightarrow> k < length s \<and> s ! k = c \<and> c \<notin> set (take k s)"
proof (induction s arbitrary: k)
  case (Cons x s)
  then show ?case by (cases k) (auto simp: Cons)
qed simp

lemma find_char_None: "find_char c s = None \<longleftrightarrow> c \<notin> set s"
  by (induction s) auto

lemma malloc_block:
  "nat n = k \<Longrightarrow> \<exists>h'. malloc n h = ((hp_next h, 0), h')
     \<and> hp_blocks h' = (hp_blocks h)(hp_next h := Some (replicate k None))
     \<and> hp_next h' = Suc (hp_next h)"
  by (auto simp: malloc_def)

text \<open>Filling a fresh block: \<open>n\<close> characters, then the terminator.\<close>

lemma fill_block:
  assumes "hp_blocks h b = Some (replicate (Suc (length cs)) None)"
  shows "bnd (store_chars (b, 0) cs h) (store_chars (b, int (length cs)) [NUL])
    = Inr (h\<lparr>hp_blocks := (hp_blocks h)(b := Some (c_block cs))\<rparr>)"
  using assms by (simp add: store_chars_def c_block_def)

lemma copy_url_ok:
  assumes "hp_blocks h b = Some (c_block (pre @ r))" and "b < hp_next h" and "NUL \<notin> set r"
    and "length pre = 6"
  shows "\<exists>h'. copy_url (b, 0) (int (length (pre @ r))) h = Inr ((hp_next h, 0), h')
    \<and> hp_blocks h' (hp_next h) = Some (c_block r) \<and> hp_next h' = Suc (hp_next h)"
proof -
  let ?u = "hp_next h" and ?n = "int (length (pre @ r)) + 1 - 6"
  have n: "nat ?n = Suc (length r)" "?n - 1 = int (length r)" using assms(4) by simp_all
  obtain h1 where m: "malloc ?n h = ((?u, 0), h1)"
    and h1: "hp_blocks h1 = (hp_blocks h)(?u := Some (replicate (Suc (length r)) None))"
      "hp_next h1 = Suc ?u"
    using malloc_block [OF n(1)] by blast
  have "bytes_from (b, 6) h1 = Inr (c_block r)"
    using assms(1,2,4) h1(1) by (simp add: bytes_from_def c_block_def)
  moreover have "strncpy_bytes (length r) (c_block r) = Inr r"
    using assms(3) by (simp add: strncpy_bytes_prefix)
  ultimately have c: "strncpy (?u, 0) (b, 6) (int (length r)) h1 = store_chars (?u, 0) r h1"
    by (simp add: strncpy_def)
  have "bnd (store_chars (?u, 0) r h1) (store_chars (?u, int (length r)) [NUL])
      = Inr (h1\<lparr>hp_blocks := (hp_blocks h1)(?u := Some (c_block r))\<rparr>)"
    by (rule fill_block) (simp add: h1(1))
  then obtain h2 where "store_chars (?u, 0) r h1 = Inr h2"
    and "store_chars (?u, int (length r)) [NUL] h2
      = Inr (h1\<lparr>hp_blocks := (hp_blocks h1)(?u := Some (c_block r))\<rparr>)" by blast
  then show ?thesis
    using m c h1(2) unfolding copy_url_def Let_def m prod.case n(2) by simp
qed

lemma parse_host_ok:
  assumes "hp_blocks h u = Some (c_block url)" and "u < hp_next h" and "NUL \<notin> set url"
    and "find_char (CHR '':'') url = Some k"
  shows "\<exists>h'. parse_host (u, 0) h = Inr ((u, int k), int k, (hp_next h, 0), h')
    \<and> hp_blocks h' u = Some (c_block url) \<and> hp_blocks h' (hp_next h) = Some (c_block (take k url))
    \<and> hp_next h' = Suc (hp_next h)"
proof -
  let ?b = "hp_next h"
  have k: "k < length url" using assms(4) by (simp add: find_char_Some)
  let ?h1 = "h\<lparr>hp_blocks := (hp_blocks h)(?b := Some (replicate (Suc k) None)), hp_next := Suc ?b\<rparr>"
  have "strchr (u, 0) (CHR '':'') h = Inr (Some (u, int k))"
    using assms by (simp add: strchr_def c_string_def bytes_from_def)
  moreover have "bytes_from (u, 0) ?h1 = Inr (c_block url)"
    using assms(1,2) by (simp add: bytes_from_def)
  moreover have "strncpy_bytes k (c_block url) = Inr (take k url)"
    using assms(3) k by (simp add: strncpy_bytes_prefix)
  moreover have "bnd (store_chars (?b, 0) (take k url) ?h1)
      (store_chars (?b, int (length (take k url))) [NUL])
      = Inr (?h1\<lparr>hp_blocks := (hp_blocks ?h1)(?b := Some (c_block (take k url)))\<rparr>)"
    using k by (intro fill_block) simp
  ultimately show ?thesis
    using k assms(1,2) by (auto simp: parse_host_def malloc_def strncpy_def Let_def nat_add_distrib)
qed

lemma parse_port_overflow:
  assumes "hp_blocks h u = Some (c_block (pre @ r))" and "u < hp_next h" and "NUL \<notin> set (pre @ r)"
    and "length pre = Suc k" and "0 < k"
  shows "parse_port (u, 0) (int k) h = Inl (UB Out_Of_Bounds)"
proof -
  let ?b = "hp_next h" and ?n = "int (length (pre @ r)) - int k"
  have n: "nat ?n = Suc (length r)" "?n = int (Suc (length r))" using assms(4) by simp_all
  obtain h1 where m: "malloc ?n h = ((?b, 0), h1)"
    and h1: "hp_blocks h1 = (hp_blocks h)(?b := Some (replicate (Suc (length r)) None))"
    using malloc_block [OF n(1)] by blast
  have u: "c_string (u, 0) h = Inr (pre @ r)"
    using assms(1,3) by (simp add: c_string_def bytes_from_def)
  have "bytes_from (u, int k + 1) h1 = Inr (c_block r)"
    using assms(1,2,4) h1 by (simp add: bytes_from_def c_block_def nat_add_distrib)
  moreover have "strncpy_bytes (Suc (length r)) (c_block r) = Inr (r @ [NUL])"
    using assms(3) by (intro strncpy_bytes_whole) simp
  ultimately have c: "strncpy (?b, 0) (u, int k + 1) ?n h1 = store_chars (?b, 0) (r @ [NUL]) h1"
    using n(1) by (simp only: strncpy_def bnd_Inr)
  have full: "store_chars (?b, 0) (r @ [NUL]) h1
      = Inr (h1\<lparr>hp_blocks := (hp_blocks h1)(?b := Some (c_block r))\<rparr>)" (is "_ = Inr ?h2")
    using h1 by (simp add: store_chars_def c_block_def)
  have over: "store_chars (?b, ?n) [NUL] ?h2 = Inl (UB Out_Of_Bounds)"
    using n(2) by (simp add: store_chars_def c_block_def)
  have "int k \<noteq> 0" using assms(5) by simp
  then show ?thesis
    by (simp only: parse_port_def Let_def u m c full over bnd_Inr bnd_Inl prod.case fst_conv snd_conv
        add_0 if_True not_False_eq_True)
qed

section \<open>Properties\<close>

text \<open>
  The host is parsed right: for an MRL whose part after \<open>p2p://\<close> is \<open>host:rest\<close>, the
  block allocated for the host ends up with exactly the characters before the first colon
  and a terminator.
\<close>

lemma parse_host_prefix:
  assumes "hp_blocks h u = Some (c_block (host @ CHR '':'' # rest))" and "u < hp_next h"
    and "NUL \<notin> set host \<union> set rest" and "CHR '':'' \<notin> set host"
  shows "\<exists>colon p h'. parse_host (u, 0) h = Inr (colon, int (length host), p, h')
    \<and> hp_blocks h' (fst p) = Some (c_block host) \<and> c_string p h' = Inr host"
proof -
  have "find_char (CHR '':'') (host @ CHR '':'' # rest) = Some (length host)"
    using assms(4) by (simp add: find_char_Some)
  moreover have "NUL \<notin> set (host @ CHR '':'' # rest)"
    using assms(3) by (simp add: NUL_def)
  ultimately obtain h' where "parse_host (u, 0) h
      = Inr ((u, int (length host)), int (length host), (hp_next h, 0), h')"
    and "hp_blocks h' (hp_next h) = Some (c_block host)"
    using parse_host_ok [OF assms(1,2)] by fastforce
  then show ?thesis
    using assms(3) by (auto simp: c_string_def bytes_from_def)
qed

text \<open>The copy of the MRL and the copy of what follows \<open>p2p://\<close>.\<close>

lemma copied_url:
  assumes "NUL \<notin> set mrl" and "is_p2p mrl"
  obtains u h0 h1 where "strdup mrl h = (u, h0)"
    and "copy_url u (int (length mrl)) h0 = Inr ((Suc (hp_next h), 0), h1)"
    and "hp_blocks h1 (Suc (hp_next h)) = Some (c_block (drop 6 mrl))"
    and "hp_next h1 = Suc (Suc (hp_next h))" and "NUL \<notin> set (drop 6 mrl)"
proof -
  let ?b = "hp_next h" and ?h0 = "snd (strdup mrl h)"
  have "length (map to_lower (take 6 mrl)) = 6" using assms(2) by (simp add: is_p2p_def)
  then have len: "6 \<le> length mrl" by simp
  have r: "NUL \<notin> set (drop 6 mrl)" using assms(1) in_set_dropD by metis
  have d: "strdup mrl h = ((?b, 0), ?h0)" and h0: "hp_blocks ?h0 ?b = Some (c_block mrl)"
      "hp_next ?h0 = Suc ?b"
    by (simp_all add: strdup_def malloc_def c_block_def)
  obtain h1 where "copy_url (?b, 0) (int (length mrl)) ?h0 = Inr ((Suc ?b, 0), h1)"
    and "hp_blocks h1 (Suc ?b) = Some (c_block (drop 6 mrl))" "hp_next h1 = Suc (Suc ?b)"
    using copy_url_ok [of ?h0 ?b "take 6 mrl" "drop 6 mrl"] h0 r len by auto
  then show ?thesis using that [OF d] r by blast
qed

text \<open>
  C30. No MRL of the protocol is accepted: for every MRL that begins with \<open>p2p://\<close> the
  construction has undefined behaviour, a subtraction from a null pointer without a colon, a
  double free when the colon comes first, and otherwise a store one byte after the block
  of the port.  Every other MRL is declined with \<open>NULL\<close> and changes nothing.
\<close>

theorem get_instance_undefined:
  assumes "NUL \<notin> set mrl"
  shows "p2p_class_get_instance raw m mrl h =
    (if \<not> is_p2p mrl then Inr (None, h)
     else Inl (UB (case find_char (CHR '':'') (drop 6 mrl) of
                     None \<Rightarrow> Null_Deref | Some 0 \<Rightarrow> Use_After_Free | Some (Suc k) \<Rightarrow> Out_Of_Bounds)))"
proof (cases "is_p2p mrl")
  case True
  let ?r = "drop 6 mrl" and ?u = "Suc (hp_next h)"
  obtain b h0 h1 where d: "strdup mrl h = (b, h0)"
    and u: "copy_url b (int (length mrl)) h0 = Inr ((?u, 0), h1)"
    and h1: "hp_blocks h1 ?u = Some (c_block ?r)" "hp_next h1 = Suc ?u" and r: "NUL \<notin> set ?r"
    using copied_url [OF assms True] .
  show ?thesis
  proof (cases "find_char (CHR '':'') ?r")
    case None
    have "strchr (?u, 0) (CHR '':'') h1 = Inr None"
      using h1 r None by (simp add: strchr_def c_string_def bytes_from_def)
    then show ?thesis
      using True d u None by (simp add: p2p_class_get_instance_def parse_host_def)
  next
    case (Some k)
    then obtain h2 where p: "parse_host (?u, 0) h1 = Inr ((?u, int k), int k, (Suc ?u, 0), h2)"
      and h2: "hp_blocks h2 ?u = Some (c_block ?r)" "hp_next h2 = Suc (Suc ?u)"
      using parse_host_ok [OF h1(1) _ r Some] h1(2) by auto
    show ?thesis
    proof (cases k)
      case 0
      then show ?thesis
        using True d u p h2 Some by (simp add: p2p_class_get_instance_def parse_port_def free_def)
    next
      case (Suc j)
      have "k < length ?r" using Some by (simp add: find_char_Some)
      then have "parse_port (?u, 0) (int k) h2 = Inl (UB Out_Of_Bounds)"
        using parse_port_overflow [of h2 ?u "take (Suc k) ?r" "drop (Suc k) ?r" k] Suc h2 r
        by (simp only: append_take_drop_id) simp
      then show ?thesis
        using True d u p Some Suc by (simp add: p2p_class_get_instance_def)
    qed
  qed
qed (simp add: p2p_class_get_instance_def)

theorem get_instance_undefined_witness:
  "p2p_class_get_instance ex_plugin (\<lambda>_. 0) ''P2P://tv.org:80''
     \<lparr>hp_blocks = (\<lambda>b. None), hp_next = 0\<rparr> = Inl (UB Out_Of_Bounds)"
proof -
  have "is_p2p ''P2P://tv.org:80''" by code_simp
  then show ?thesis
    using get_instance_undefined [of "''P2P://tv.org:80''" ex_plugin "\<lambda>_. 0"] by (simp add: NUL_def)
qed

end
