(* ===== verification/Playout.thy ===== *)
theory Playout
  imports Output_Ffmpeg
begin

text \<open>
  What the module of theory \<open>Output_Ffmpeg\<close> plays: the properties of the copy into the
  ring and of deliveries, each with a run on a concrete state.
\<close>

section \<open>Concrete states\<close>

text \<open>A chunk with a video header, no frames and a payload of two bytes; a new module.\<close>

definition ex_chunk :: "int \<Rightarrow> chunk" where
  "ex_chunk k = \<lparr>ck_id = k, ck_size = 12,
     ck_data = Some [1, 0, 16, 0, 16, 0, 25, 0, 1, 0, 65, 66], ck_attributes = None\<rparr>"

definition ex_ctx :: octx where
  "ex_ctx = \<lparr>oc_outputBufferSize = 3,
     oc_outputBuffer = Some (replicate 3 ((ex_chunk 0)\<lparr>ck_data := None\<rparr>)),
     oc_outputStream = True, oc_playedChunk = - 1, oc_maximumChunk = - 1,
     oc_lastRequestSent = None, oc_securedDataLogin = 0, oc_lastChunk = - 1, oc_sflag = 0,
     oc_eflag = 0, oc_startId = - 1, oc_endId = - 1\<rparr>"

definition ex_out :: "int \<Rightarrow> ostate" where
  "ex_out pos = \<lparr>os_ctx = ex_ctx,
     os_ring = (ring_new (\<lambda>_. 0))\<lparr>rb_get := pos, rb_put := pos\<rparr>,
     os_sched = [], os_env = (\<lambda>_. 0), os_tick = 0, os_byref = True, os_le = True,
     os_written = []\<rparr>"

lemma ex_playable: "playable (ex_chunk k) [1, 0, 16, 0, 16, 0, 25, 0, 1, 0, 65, 66]"
  by (simp add: playable_def ex_chunk_def chunk_offset_def INT_MAX_def)

lemma ex_offset: "chunk_offset [1, 0, 16, 0, 16, 0, 25, 0, 1, 0, 65, 66] = 10"
  by (simp add: chunk_offset_def)

lemma ex_out_simps [simp]:
  "os_ctx (ex_out pos) = ex_ctx" "os_sched (ex_out pos) = []" "os_written (ex_out pos) = []"
  "os_byref (ex_out pos) = True"
  "rb_count (os_ring (ex_out pos)) = 0" "rb_put (os_ring (ex_out pos)) = pos"
  "rb_get (os_ring (ex_out pos)) = pos" "rb_max (os_ring (ex_out pos)) = BUFFER_SIZE"
  "ck_size (ex_chunk k) = 12" "ck_id (ex_chunk k) = k"
  "oc_playedChunk ex_ctx = - 1" "oc_outputBufferSize ex_ctx = 3"
  by (simp_all add: ex_out_def ex_chunk_def ring_new_def ex_ctx_def)

lemma ex_ring_out: "0 \<le> pos \<Longrightarrow> pos < BUFFER_SIZE \<Longrightarrow>
    ring_ok (os_ring (ex_out pos)) \<and> synced (os_ring (ex_out pos))"
  by (simp add: ring_ok_def synced_def BUFFER_SIZE_def)

lemma ex_ctx_ok: "ctx_ok (os_ctx (ex_out pos))"
  by (auto simp: ctx_ok_def ex_ctx_def INT_MAX_def stored_ok_def)

section \<open>The copy into the ring\<close>

lemma write_room:
  assumes "playable c d" and "ring_ok (os_ring s)" and "os_sched s = []"
    and "ck_size c \<le> BUFFER_SIZE - rb_count (os_ring s)"
  shows "output_ffmpeg_write_chunk s c =
    bnd (ring_put d (ck_size c) (chunk_offset d) (os_ring s)) (\<lambda>r2.
    Inr (s\<lparr>os_ring := r2, os_sched := [], os_written := os_written s @ [c]\<rparr>))"
  using assms by (simp add: write_chunk_playable lock_ring_def wait_space_now ring_ok_def)

text \<open>
  C3. A written chunk joins the stream: whatever the reader takes meanwhile, when
  \<open>output_ffmpeg_write_chunk\<close> returns for a chunk with a video header and the put pointer was
  in step with the stream, the bytes taken by the reader followed by the bytes in the ring
  are the old bytes of the ring followed by the chunk's payload, without its headers.
\<close>

theorem write_chunk_appends:
  assumes "playable c d" and "ring_ok (os_ring s)" and "synced (os_ring s)"
    and "\<forall>(t, f)\<in>set (os_sched s). draining f"
    and "output_ffmpeg_write_chunk s c = Inr s'"
  shows "ring_ok (os_ring s') \<and> os_written s' = os_written s @ [c]
    \<and> (\<exists>taken. contents (os_ring s) @ payload d (ck_size c) (chunk_offset d)
          = taken @ contents (os_ring s'))"
proof -
  obtain q es where q: "drained (os_ring s) q" "ck_size c \<le> rb_max q - rb_count q"
    and w: "output_ffmpeg_write_chunk s c =
          bnd (ring_put d (ck_size c) (chunk_offset d) q) (\<lambda>r2.
          Inr (s\<lparr>os_ring := r2, os_sched := es, os_written := os_written s @ [c]\<rparr>))"
    using write_chunk_waits [OF assms(1,2,4)] assms(5) by auto
  then obtain r2 where p: "ring_put d (ck_size c) (chunk_offset d) q = Inr r2"
    and s': "s' = s\<lparr>os_ring := r2, os_sched := es, os_written := os_written s @ [c]\<rparr>"
    using assms(5) unfolding w by auto
  have "ring_ok q" and "synced q"
    using q(1) assms(3) by (auto simp: drained_def)
  then have "contents r2 = contents q @ payload d (ck_size c) (chunk_offset d)" and "ring_ok r2"
    using ring_put_append_aux playable_fits [OF assms(1) q(2)] p by blast+
  then show ?thesis
    using q(1) s' by (auto simp: drained_def)
qed

theorem write_chunk_appends_witness:
  "\<exists>s'. output_ffmpeg_write_chunk (ex_out 0) (ex_chunk 0) = Inr s' \<and> ring_ok (os_ring s')
    \<and> (\<exists>taken. [65, 66] = taken @ contents (os_ring s'))"
proof -
  obtain s' where run: "output_ffmpeg_write_chunk (ex_out 0) (ex_chunk 0) = Inr s'"
    by (simp add: write_room [OF ex_playable] ex_ring_out ex_offset ring_put_def BUFFER_SIZE_def
        cint_def INT_MIN_def INT_MAX_def)
  then show ?thesis
    using write_chunk_appends [OF ex_playable _ _ _ run] ex_ring_out [of 0]
    by (simp add: contents_def payload_def ex_offset)
qed

text \<open>
  Writing a chunk with a video header into a well-formed ring has no undefined
  behaviour while the put pointer is in step: it returns, or it waits for space with no
  wake-up left.
\<close>

lemma write_chunk_safe:
  assumes "playable c d" and "ring_ok (os_ring s)" and "synced (os_ring s)"
    and "\<forall>(t, f)\<in>set (os_sched s). draining f"
    and "output_ffmpeg_write_chunk s c = Inl e"
  shows "e = Blocked"
proof (rule ccontr)
  assume "e \<noteq> Blocked"
  then obtain q es where q: "drained (os_ring s) q" "ck_size c \<le> rb_max q - rb_count q"
    and w: "output_ffmpeg_write_chunk s c =
          bnd (ring_put d (ck_size c) (chunk_offset d) q) (\<lambda>r2.
          Inr (s\<lparr>os_ring := r2, os_sched := es, os_written := os_written s @ [c]\<rparr>))"
    using write_chunk_waits [OF assms(1,2,4)] assms(5) by auto
  have "ring_ok q" and "0 \<le> rb_put q" and "rb_put q \<le> BUFFER_SIZE"
    using q(1) assms(3) by (auto simp: drained_def synced_def)
  then obtain r2 where "ring_put d (ck_size c) (chunk_offset d) q = Inr r2"
    using ring_put_cases playable_fits [OF assms(1) q(2)] by metis
  then show False using w assms(5) by simp
qed

text \<open>
  The put pointer after the copy is in step exactly when the payload wrapped: otherwise it is
  ahead by the size of the header, which is less than the ring.
\<close>

lemma put_pos_in_step:
  assumes "p mod BUFFER_SIZE = q mod BUFFER_SIZE" and "rb_put r = p"
    and "0 < h" and "h < BUFFER_SIZE"
  shows "put_pos r n h mod BUFFER_SIZE = (q + (n - h)) mod BUFFER_SIZE
    \<longleftrightarrow> BUFFER_SIZE - p < n - h"
proof -
  have q: "(q + (n - h)) mod BUFFER_SIZE = (p + (n - h)) mod BUFFER_SIZE"
    using assms(1) by (metis mod_add_left_eq)
  have "\<not> BUFFER_SIZE dvd h"
    using assms(3,4) zdvd_not_zless by blast
  then have "(p + n) mod BUFFER_SIZE \<noteq> (p + (n - h)) mod BUFFER_SIZE"
    by (simp add: mod_eq_dvd_iff)
  moreover have "(n - h - (BUFFER_SIZE - p)) mod BUFFER_SIZE = (p + (n - h)) mod BUFFER_SIZE"
    by (simp add: mod_eq_dvd_iff)
  ultimately show ?thesis
    unfolding q put_pos_def assms(2) by auto
qed

text \<open>
  C27. With room for the whole chunk and nobody else at the ring, the write returns, and
  the put pointer is then in step with the stream exactly when the payload reached around
  the end of the buffer: after a straight copy the pointer has advanced by the size of the
  chunk, headers included, though only the payload was copied.
\<close>

theorem write_chunk_put_pointer:
  assumes "playable c d" and "ring_ok (os_ring s)" and "synced (os_ring s)"
    and "os_sched s = []" and "ck_size c \<le> BUFFER_SIZE - rb_count (os_ring s)"
  shows "\<exists>s'. output_ffmpeg_write_chunk s c = Inr s'
    \<and> (synced (os_ring s')
         \<longleftrightarrow> BUFFER_SIZE - rb_put (os_ring s) < ck_size c - chunk_offset d)"
proof -
  let ?r = "os_ring s" and ?n = "ck_size c" and ?h = "chunk_offset d"
  have pos: "0 \<le> rb_put ?r" "rb_put ?r \<le> BUFFER_SIZE" and mx: "rb_max ?r = BUFFER_SIZE"
    and md: "rb_put ?r mod BUFFER_SIZE = (rb_get ?r + rb_count ?r) mod BUFFER_SIZE"
    using assms(2,3) by (auto simp: synced_def ring_ok_def)
  have f: "fits d ?n ?h ?r"
    using playable_fits assms(1,5) mx by simp
  obtain m where q: "ring_put d ?n ?h ?r = Inr (?r\<lparr>rb_mem := m, rb_put := put_pos ?r ?n ?h,
      rb_count := rb_count ?r + (?n - ?h)\<rparr>)" (is "_ = Inr ?r2")
    using ring_put_cases [OF assms(2) pos f] by blast
  have h: "0 < ?h" "?h < BUFFER_SIZE"
    using chunk_offset_range [of d] by (simp_all add: BUFFER_SIZE_def)
  have iff: "put_pos ?r ?n ?h mod BUFFER_SIZE = (rb_get ?r + rb_count ?r + (?n - ?h)) mod BUFFER_SIZE
      \<longleftrightarrow> BUFFER_SIZE - rb_put ?r < ?n - ?h"
    using put_pos_in_step [OF md refl h] .
  have "0 \<le> put_pos ?r ?n ?h \<and> put_pos ?r ?n ?h \<le> BUFFER_SIZE" if "BUFFER_SIZE - rb_put ?r < ?n - ?h"
    using that assms(2,5) h(1) pos by (simp add: put_pos_def ring_ok_def)
  then have "synced ?r2 \<longleftrightarrow> BUFFER_SIZE - rb_put ?r < ?n - ?h"
    using iff by (auto simp: synced_def add.assoc)
  then show ?thesis
    using q write_room [OF assms(1,2,4,5)] by simp
qed

theorem write_chunk_put_pointer_witness:
  "\<exists>s'. output_ffmpeg_write_chunk (ex_out 0) (ex_chunk 0) = Inr s' \<and> \<not> synced (os_ring s')"
  using write_chunk_put_pointer [OF ex_playable, of "ex_out 0" 0] ex_ring_out [of 0]
  by (simp add: ex_offset BUFFER_SIZE_def)

text \<open>
  C28. The drift ends in a copy outside the ring.  When the payload of a chunk fits before
  the end of the buffer but its size with headers does not, the write leaves the put
  pointer beyond the end, and the next chunk that finds room is copied from and to
  addresses out of bounds.
\<close>

theorem write_chunk_overruns:
  assumes "playable c d" and "playable c' d'" and "ring_ok (os_ring s)" and "synced (os_ring s)"
    and "os_sched s = []"
    and "ck_size c + ck_size c' \<le> BUFFER_SIZE - rb_count (os_ring s)"
    and "ck_size c - chunk_offset d \<le> BUFFER_SIZE - rb_put (os_ring s)"
    and "BUFFER_SIZE - rb_put (os_ring s) < ck_size c"
  shows "bnd (output_ffmpeg_write_chunk s c) (\<lambda>s'. output_ffmpeg_write_chunk s' c')
    = Inl (UB Out_Of_Bounds)"
proof -
  let ?r = "os_ring s"
  have pos: "0 \<le> rb_put ?r" "rb_put ?r \<le> BUFFER_SIZE" and mx: "rb_max ?r = BUFFER_SIZE"
    using assms(3,4) by (auto simp: synced_def ring_ok_def)
  have o: "10 \<le> chunk_offset d" "chunk_offset d \<le> ck_size c" "10 \<le> chunk_offset d'"
      "chunk_offset d' \<le> ck_size c'" "ck_size c' \<le> INT_MAX"
    using chunk_offset_range [of d] chunk_offset_range [of d'] assms(1,2)
    by (auto simp: playable_def)
  have f: "fits d (ck_size c) (chunk_offset d) ?r"
    using playable_fits assms(1,6) mx o by simp
  obtain m where q: "ring_put d (ck_size c) (chunk_offset d) ?r =
      Inr (?r\<lparr>rb_mem := m, rb_put := rb_put ?r + ck_size c,
           rb_count := rb_count ?r + (ck_size c - chunk_offset d)\<rparr>)" (is "_ = Inr ?r2")
    using ring_put_cases [OF assms(3) pos f] assms(7) by (auto simp: put_pos_def)
  have ok2: "ring_ok ?r2"
    using assms(3,6) o by (auto simp: ring_ok_def)
  let ?s2 = "s\<lparr>os_ring := ?r2, os_sched := [], os_written := os_written s @ [c]\<rparr>"
  have w1: "output_ffmpeg_write_chunk s c = Inr ?s2"
    using write_room [OF assms(1,3,5)] q o assms(6) by simp
  have w2: "output_ffmpeg_write_chunk ?s2 c' =
      bnd (ring_put d' (ck_size c') (chunk_offset d') ?r2) (\<lambda>r2.
      Inr (?s2\<lparr>os_ring := r2, os_sched := [], os_written := os_written ?s2 @ [c']\<rparr>))"
    using write_room [OF assms(2), of ?s2] ok2 o assms(6) by simp
  have "cint (ck_size c' - chunk_offset d') = Inr (ck_size c' - chunk_offset d')"
    using o by (simp add: INT_MIN_def)
  moreover have "\<not> ck_size c' - chunk_offset d' \<le> BUFFER_SIZE - rb_put ?r2"
    using o assms(8) by simp
  moreover have "sub_bytes d' (chunk_offset d') (BUFFER_SIZE - rb_put ?r2)
      = Inl (UB Out_Of_Bounds)"
    using assms(8) by (simp add: sub_bytes_def)
  ultimately have "ring_put d' (ck_size c') (chunk_offset d') ?r2 = Inl (UB Out_Of_Bounds)"
    by (simp only: ring_put_def bnd_Inr bnd_Inl Let_def if_False)
  then show ?thesis using w1 w2 by simp
qed

theorem write_chunk_overruns_witness:
  "bnd (output_ffmpeg_write_chunk (ex_out (BUFFER_SIZE - 5)) (ex_chunk 0))
     (\<lambda>s'. output_ffmpeg_write_chunk s' (ex_chunk 1)) = Inl (UB Out_Of_Bounds)"
  by (rule write_chunk_overruns [OF ex_playable ex_playable])
    (use ex_ring_out [of "BUFFER_SIZE - 5"] in \<open>simp_all add: ex_offset BUFFER_SIZE_def\<close>)

text \<open>
  C37. A chunk bigger than the ring is waited for forever: whatever well-behaved things
  happen to the ring, the receiving thread never leaves the wait for space.
\<close>

theorem write_chunk_too_big:
  assumes "playable c d" and "BUFFER_SIZE < ck_size c" and "ring_ok (os_ring s)"
    and "\<forall>(t, f)\<in>set (os_sched s). \<forall>r. ring_ok r \<longrightarrow> ring_ok (f r)"
  shows "output_ffmpeg_write_chunk s c = Inl Blocked"
proof -
  obtain r0 es0 where lk: "lock_ring (os_ring s) (os_sched s) = (r0, es0)" by (metis surj_pair)
  then have "ring_ok r0" and "\<forall>(t, f)\<in>set es0. \<forall>r. ring_ok r \<longrightarrow> ring_ok (f r)"
    using assms(3,4) by (cases "os_sched s"; auto simp: lock_ring_def)+
  then have "wait_space (ck_size c) r0 es0 = Inl Blocked"
    by (rule wait_space_never) (use assms(2) in \<open>simp add: ring_ok_def\<close>)
  then show ?thesis
    using lk by (simp add: write_chunk_playable [OF assms(1)])
qed

definition ex_big :: chunk where
  "ex_big = (ex_chunk 0)\<lparr>ck_size := BUFFER_SIZE + 1,
     ck_data := Some (1 # replicate (nat BUFFER_SIZE) 0)\<rparr>"

lemma ex_big_playable: "playable ex_big (1 # replicate (nat BUFFER_SIZE) 0)"
proof -
  have "nth (1 # replicate (nat BUFFER_SIZE) (0 :: byte)) 9 = 0"
    by (simp add: BUFFER_SIZE_def nth_Cons')
  then show ?thesis
    by (simp add: playable_def ex_big_def chunk_offset_def BUFFER_SIZE_def INT_MAX_def)
qed

theorem write_chunk_too_big_witness:
  "output_ffmpeg_write_chunk ((ex_out 0)\<lparr>os_sched := [(True, \<lambda>r. r), (False, take_all 7)]\<rparr>) ex_big
     = Inl Blocked"
proof (rule write_chunk_too_big [OF ex_big_playable])
  show "\<forall>(t, f)\<in>set (os_sched ((ex_out 0)\<lparr>os_sched := [(True, \<lambda>r. r), (False, take_all 7)]\<rparr>)).
      \<forall>r. ring_ok r \<longrightarrow> ring_ok (f r)"
    using draining_take [of 7] by (simp add: draining_def)
qed (use ex_ring_out [of 0] in \<open>simp_all add: ex_big_def\<close>)

section \<open>Deliveries\<close>

text \<open>
  C12. The reorder buffer stays well formed: from \<open>output_ffmpeg_init\<close> with a positive buffer
  size, after any sequence of deliveries of chunks, of any content and with any \<open>int\<close> as id, every stored chunk is in the slot of its id modulo
  the buffer size and owns exactly its \<open>size\<close> bytes, and the chunk played last is not above
  the greatest id seen.
\<close>

theorem deliveries_ctx_ok:
  assumes "output_ffmpeg_init e config = Inr (Some s)"
    and "fe_config_parse e config = Some tags" and "0 < tags ''buffer'' 75"
    and "\<forall>(fc, c)\<in>set cs. int_id c"
    and "deliver_all (output_ffmpeg ask) cs s = Inr s'"
  shows "ctx_ok (os_ctx s')"
proof -
  have "ctx_ok (os_ctx s)"
    using assms(1) by (rule init_ctx_ok) (use assms(2,3) in simp)
  then show ?thesis
    using om.deliveries_inv [OF assms(5) _ assms(4)] by blast
qed

definition ex_env :: ffmpeg_env where
  "ex_env = \<lparr>fe_config_parse = (\<lambda>config. Some (\<lambda>tag dflt. if tag = ''buffer'' then 3 else dflt)),
     fe_out_stream_init = (\<lambda>dev config. True), fe_malloc_context = True,
     fe_malloc_slots = (\<lambda>n. True),
     fe_raw_slot = (\<lambda>i. ex_chunk 0), fe_state = ex_out 0\<rparr>"

theorem deliveries_ctx_ok_witness:
  "\<exists>s s'. output_ffmpeg_init ex_env ''buffer=3'' = Inr (Some s)
    \<and> deliver_all (output_ffmpeg (\<lambda>k. Inr ())) [(0, ex_chunk 2)] s = Inr s'
    \<and> ctx_ok (os_ctx s')"
proof -
  obtain s where i: "output_ffmpeg_init ex_env ''buffer=3'' = Inr (Some s)"
    by (simp add: output_ffmpeg_init_def ex_env_def)
  then have ctx: "os_ctx s = ex_ctx\<lparr>oc_outputBuffer :=
      Some (replicate 3 ((ex_chunk 0)\<lparr>ck_data := None\<rparr>))\<rparr>"
    by (auto simp: output_ffmpeg_init_def ex_env_def ex_ctx_def upt_rec numeral_3_eq_3)
  moreover obtain s' where d: "deliver_all (output_ffmpeg (\<lambda>k. Inr ())) [(0, ex_chunk 2)] s = Inr s'"
    using ctx by (simp add: output_ffmpeg_def output_ffmpeg_deliver_def Let_def ex_chunk_def
        ex_ctx_def set_max_def slot_at_def set_slot_def output_ffmpeg_buffer_flush_def
        flush_to_end_def flush_from_start_def c_rem_def cint_def INT_MAX_def INT_MIN_def
        smod_one upto.simps numeral_3_eq_3 smod_nonneg)
  moreover have "ctx_ok (os_ctx s')"
    by (rule deliveries_ctx_ok [OF i _ _ _ d, of "\<lambda>tag dflt. if tag = ''buffer'' then 3 else dflt"])
      (auto simp: ex_env_def int_id_def ex_chunk_def INT_MIN_def INT_MAX_def)
  ultimately show ?thesis using i by blast
qed

text \<open>A write that does not reach the end of the ring.\<close>

lemma write_straight:
  assumes "playable c d" and "ring_ok (os_ring s)" and "os_sched s = []"
    and "0 \<le> rb_put (os_ring s)" and "rb_put (os_ring s) + ck_size c \<le> BUFFER_SIZE"
    and "rb_count (os_ring s) + ck_size c \<le> BUFFER_SIZE"
  obtains s' where "output_ffmpeg_write_chunk s c = Inr s'" and "ring_ok (os_ring s')"
    and "os_sched s' = []" and "rb_put (os_ring s') = rb_put (os_ring s) + ck_size c"
    and "rb_count (os_ring s') \<le> rb_count (os_ring s) + ck_size c"
    and "os_written s' = os_written s @ [c]" and "os_ctx s' = os_ctx s"
proof -
  let ?r = "os_ring s"
  have o: "10 \<le> chunk_offset d" "chunk_offset d \<le> ck_size c"
    using chunk_offset_range [of d] assms(1) by (auto simp: playable_def)
  have f: "fits d (ck_size c) (chunk_offset d) ?r"
    using playable_fits assms(1,2,6) by (simp add: ring_ok_def)
  have "rb_put ?r \<le> BUFFER_SIZE" using assms(5) o by simp
  then obtain m where q: "ring_put d (ck_size c) (chunk_offset d) ?r =
      Inr (?r\<lparr>rb_mem := m, rb_put := rb_put ?r + ck_size c,
           rb_count := rb_count ?r + (ck_size c - chunk_offset d)\<rparr>)" (is "_ = Inr ?r2")
    using ring_put_cases [OF assms(2,4) _ f] o assms(5) by (auto simp: put_pos_def)
  have "ring_ok ?r2"
    using assms(2,6) o by (auto simp: ring_ok_def)
  then show ?thesis
    using that q o write_room [OF assms(1-3)] assms(6) by simp
qed

fun in_order :: "int \<Rightarrow> (int \<times> chunk) list \<Rightarrow> bool" where
  "in_order p [] = True"
| "in_order p ((fc, c) # cs) =
     (ck_id c = p + 1 \<and> ck_id c \<le> INT_MAX \<and> (\<exists>d. playable c d) \<and> in_order (p + 1) cs)"

definition total_size :: "(int \<times> chunk) list \<Rightarrow> int" where
  "total_size cs = (\<Sum>(fc, c)\<leftarrow>cs. ck_size c)"

lemma total_size_simps [simp]:
  "total_size [] = 0" "total_size ((fc, c) # cs) = ck_size c + total_size cs"
  by (simp_all add: total_size_def)

lemma total_size_nonneg: "in_order p cs \<Longrightarrow> 0 \<le> total_size cs"
proof (induction p cs rule: in_order.induct)
  case (2 p fc c cs)
  then obtain d where "playable c d" by auto
  then have "0 \<le> ck_size c"
    using chunk_offset_range [of d] by (simp add: playable_def)
  then show ?case using 2 by simp
qed simp

text \<open>A module with room for \<open>n\<close> bytes of chunks before the end of the ring.\<close>

definition stream_room :: "int \<Rightarrow> ostate \<Rightarrow> bool" where
  "stream_room n s \<longleftrightarrow> ctx_ok (os_ctx s) \<and> ring_ok (os_ring s) \<and> os_sched s = []
     \<and> 0 \<le> rb_put (os_ring s) \<and> rb_put (os_ring s) + n \<le> BUFFER_SIZE
     \<and> rb_count (os_ring s) + n \<le> BUFFER_SIZE"

lemma deliver_in_order_step:
  assumes "stream_room (ck_size c + n) s" and "0 \<le> n" and "playable c d"
    and "ck_id c = oc_playedChunk (os_ctx s) + 1" and "ck_id c \<le> INT_MAX"
  obtains s' where "output_ffmpeg_deliver ask fc s c = Inr (0, s')" and "stream_room n s'"
    and "os_written s' = os_written s @ [c]" and "oc_playedChunk (os_ctx s') = ck_id c"
proof -
  have ctx: "ctx_ok (os_ctx s)" using assms(1) by (simp add: stream_room_def)
  obtain s1 where w: "output_ffmpeg_write_chunk (seen c s) c = Inr s1" "ring_ok (os_ring s1)"
      "os_sched s1 = []" "rb_put (os_ring s1) = rb_put (os_ring s) + ck_size c"
      "rb_count (os_ring s1) \<le> rb_count (os_ring s) + ck_size c"
      "os_written s1 = os_written s @ [c]" "os_ctx s1 = os_ctx (seen c s)"
    using write_straight [OF assms(3), of "seen c s"] assms(1,2) by (auto simp: stream_room_def)
  have dl: "output_ffmpeg_deliver ask fc s c = Inr (0, set_played (ck_id c) s1)"
    using deliver_next [OF ctx, of c fc ask] assms(4,5) w(1) by simp
  have "0 \<le> ck_size c" using assms(3) chunk_offset_range [of d] by (auto simp: playable_def)
  then have "stream_room n (set_played (ck_id c) s1)"
    using ctx_ok_deliver [OF ctx assms(5) dl] assms(1) w by (simp add: stream_room_def)
  then show ?thesis using that [OF dl] w(6,7) by simp
qed

text \<open>
  C8. Chunks that come in order are played at once and in order: deliveries of consecutive
  ids after the one played last, with room for all of them before the end of the ring, all
  return, copy exactly these chunks, in this order, and leave the last of them as the chunk
  played last.
\<close>

theorem deliver_in_order:
  assumes "in_order (oc_playedChunk (os_ctx s)) cs" and "ctx_ok (os_ctx s)"
    and "ring_ok (os_ring s)" and "os_sched s = []" and "0 \<le> rb_put (os_ring s)"
    and "rb_put (os_ring s) + total_size cs \<le> BUFFER_SIZE"
    and "rb_count (os_ring s) + total_size cs \<le> BUFFER_SIZE"
  shows "\<exists>s'. deliver_all (output_ffmpeg ask) cs s = Inr s'
    \<and> os_written s' = os_written s @ map snd cs
    \<and> oc_playedChunk (os_ctx s') = oc_playedChunk (os_ctx s) + int (length cs)"
proof -
  have "stream_room (total_size cs) s" using assms(2-) by (simp add: stream_room_def)
  then show ?thesis using assms(1)
  proof (induction cs arbitrary: s)
    case (Cons a cs)
    obtain fc c where a: "a = (fc, c)" by (cases a)
    let ?p = "oc_playedChunk (os_ctx s)"
    obtain d where d: "playable c d" and k: "ck_id c = ?p + 1" "ck_id c \<le> INT_MAX"
      and io: "in_order (?p + 1) cs"
      using Cons.prems(2) a by auto
    have ts: "0 \<le> total_size cs" using total_size_nonneg io by blast
    have room: "stream_room (ck_size c + total_size cs) s" using Cons.prems(1) a by simp
    obtain s1 where "output_ffmpeg_deliver ask fc s c = Inr (0, s1)"
      and "stream_room (total_size cs) s1" and "os_written s1 = os_written s @ [c]"
      and "oc_playedChunk (os_ctx s1) = ck_id c"
      using deliver_in_order_step [OF room ts d k] by metis
    then show ?case
      using Cons.IH [of s1] io k(1) a by (auto simp: output_ffmpeg_def)
  qed simp
qed

theorem deliver_in_order_witness:
  "\<exists>s'. deliver_all (output_ffmpeg (\<lambda>k. Inr ())) [(7, ex_chunk 0), (0, ex_chunk 1)] (ex_out 0)
        = Inr s' \<and> os_written s' = [ex_chunk 0, ex_chunk 1] \<and> oc_playedChunk (os_ctx s') = 1"
  using deliver_in_order [of "ex_out 0" "[(7, ex_chunk 0), (0, ex_chunk 1)]" "\<lambda>k. Inr ()"]
    ex_playable ex_ctx_ok [of 0] ex_ring_out [of 0]
  by (auto simp: INT_MAX_def BUFFER_SIZE_def)

text \<open>The chunks in the slots; a chunk whose first byte makes the writer skip it.\<close>

definition stored :: "ostate \<Rightarrow> chunk set" where
  "stored s = {x. \<exists>i. slot_at s i = Inr x \<and> ck_data x \<noteq> None}"

definition strange :: "chunk \<Rightarrow> bool" where
  "strange c \<longleftrightarrow> (\<exists>d. ck_data c = Some d \<and> byte_at d 0 = Inr 0)"

lemma slot_at_ctx: "os_ctx s' = os_ctx s \<Longrightarrow> slot_at s' i = slot_at s i"
  by (simp add: slot_at_def)

lemma slot_at_set_slot:
  assumes "slot_at s i = Inr y"
  shows "slot_at (set_slot i x s) j = (if j = i then Inr x else slot_at s j)"
  using assms by (auto simp: slot_at_def set_slot_def index_def nth_list_update split: if_splits)

lemma stored_clear:
  assumes "slot_at s i = Inr y"
  shows "stored (clear_slot i x s) \<subseteq> stored s" and "stored s \<subseteq> insert y (stored (clear_slot i x s))"
proof -
  note sl = slot_at_set_slot [OF assms, of "x\<lparr>ck_data := None\<rparr>"]
  show "stored (clear_slot i x s) \<subseteq> stored s"
    unfolding stored_def clear_slot_def by (auto simp: sl split: if_splits)
  show "stored s \<subseteq> insert y (stored (clear_slot i x s))"
  proof
    fix z assume "z \<in> stored s"
    then obtain j where j: "slot_at s j = Inr z" "ck_data z \<noteq> None"
      by (auto simp: stored_def)
    show "z \<in> insert y (stored (clear_slot i x s))"
    proof (cases "j = i")
      case False
      then have "slot_at (clear_slot i x s) j = Inr z"
        using j sl by (simp add: clear_slot_def)
      then show ?thesis using j(2) by (auto simp: stored_def)
    qed (use j assms in simp)
  qed
qed

lemma write_chunk_records:
  assumes "output_ffmpeg_write_chunk s c = Inr s'" and "\<not> strange c"
  shows "os_written s' = os_written s @ [c]"
  using assms by (auto simp: output_ffmpeg_write_chunk_def strange_def
      dest!: payload_header_frame split: if_splits prod.splits)

lemma stored_set_played [simp]: "stored (set_played k s) = stored s"
  by (simp add: stored_def slot_at_def)

lemma stored_seen [simp]: "stored (seen c s) = stored s"
  by (simp add: stored_def)

lemma stored_ctx: "os_ctx s' = os_ctx s \<Longrightarrow> stored s' = stored s"
  by (simp add: stored_def slot_at_def)

lemma stored_write: "output_ffmpeg_write_chunk s c = Inr s' \<Longrightarrow> stored s' = stored s"
  by (rule stored_ctx) (simp add: write_chunk_frame)

text \<open>What is in the slots or has been written stays so, or is skipped by the writer.\<close>

definition kept :: "chunk set \<Rightarrow> ostate \<Rightarrow> bool" where
  "kept X s \<longleftrightarrow> X \<subseteq> stored s \<union> set (os_written s) \<union> {x. strange x}"

lemma kept_write_clear:
  assumes "kept X s" and "slot_at s i = Inr c" and "output_ffmpeg_write_chunk s c = Inr s1"
  shows "kept X (clear_slot i c s1)"
proof -
  have "slot_at s1 i = Inr c"
    using assms(2) write_chunk_frame [OF assms(3)] slot_at_ctx by metis
  moreover have "os_written (clear_slot i c s1) = os_written s1"
    by (simp add: clear_slot_def)
  moreover have "strange c \<or> c \<in> set (os_written s1)" and "set (os_written s) \<subseteq> set (os_written s1)"
    using write_chunk_records [OF assms(3)] write_chunk_frame [OF assms(3)]
    by (cases "strange c"; auto)+
  ultimately have "stored s \<union> set (os_written s) \<union> {x. strange x}
      \<subseteq> stored (clear_slot i c s1) \<union> set (os_written (clear_slot i c s1)) \<union> {x. strange x}"
    using stored_clear(2) [of s1 i c c] stored_write [OF assms(3)] by fastforce
  then show ?thesis using assms(1) unfolding kept_def by (rule order_trans [rotated])
qed

lemma kept_draw: "draw s = (r, s') \<Longrightarrow> kept X s' = kept X s"
  using draw_frame [of s r s'] stored_ctx [of s' s] by (simp add: kept_def)

lemma flush_keeps:
  assumes "output_ffmpeg_buffer_flush ask s = Inr s'" and "kept X s"
  shows "kept X s' \<and> oc_playedChunk (os_ctx s') = oc_playedChunk (os_ctx s)
    \<and> oc_lastRequestSent (os_ctx s') = oc_lastRequestSent (os_ctx s)"
  using assms(1)
proof (rule flush_inv [where P = "\<lambda>t. kept X t \<and> oc_playedChunk (os_ctx t) = oc_playedChunk (os_ctx s)
    \<and> oc_lastRequestSent (os_ctx t) = oc_lastRequestSent (os_ctx s)"])
  fix t i c t' k
  assume P: "kept X t \<and> oc_playedChunk (os_ctx t) = oc_playedChunk (os_ctx s)
      \<and> oc_lastRequestSent (os_ctx t) = oc_lastRequestSent (os_ctx s)"
    and sl: "slot_at t i = Inr c" and "ck_data c \<noteq> None" and "flush_body ask t i = Inr (t', k)"
  then obtain t1 r where w: "output_ffmpeg_write_chunk t c = Inr t1"
    and d: "draw (clear_slot i c t1) = (r, t')"
    by (rule_tac flush_body_occupied)
  have "kept X (clear_slot i c t1)"
    using kept_write_clear P sl w by blast
  then show "kept X t' \<and> oc_playedChunk (os_ctx t') = oc_playedChunk (os_ctx s)
      \<and> oc_lastRequestSent (os_ctx t') = oc_lastRequestSent (os_ctx s)"
    using P kept_draw [OF d] draw_frame [OF d] write_chunk_frame [OF w] by (simp add: clear_slot_def)
qed (use assms(2) in simp)

text \<open>
  C21. A chunk that is ahead of its turn and finds its slot free is not lost, nor is any
  other: afterwards each of them is in its slot or has been copied to the ring (or starts
  with a zero byte, which the writer skips).  But the flush that may play stored chunks
  leaves \<open>playedChunk\<close> where it was, so their ids count as still to be played.
\<close>

theorem deliver_ahead_keeps:
  assumes "ctx_ok (os_ctx s)" and "oc_playedChunk (os_ctx s) + 1 < ck_id c"
    and "ck_id c \<le> INT_MAX" and "ck_id c \<noteq> fc" and "ck_data c = Some d"
    and "slot_at s (ck_id c mod oc_outputBufferSize (os_ctx s)) = Inr sl" and "ck_data sl = None"
    and "output_ffmpeg_deliver ask fc s c = Inr (res, s')"
  shows "insert (c\<lparr>ck_data := Some (take (nat (ck_size c)) d)\<rparr>) (stored s)
      \<subseteq> stored s' \<union> set (os_written s') \<union> {x. strange x}
    \<and> oc_playedChunk (os_ctx s') = oc_playedChunk (os_ctx s)"
proof -
  define i where "i = ck_id c mod oc_outputBufferSize (os_ctx s)"
  let ?x = "c\<lparr>ck_data := Some (take (nat (ck_size c)) d)\<rparr>"
  let ?s1 = "set_slot i ?x (seen c s)"
  have sl: "slot_at (seen c s) i = Inr sl" using assms(6) by (simp add: i_def)
  have f: "output_ffmpeg_buffer_flush ask ?s1 = Inr s'"
    using assms(8) sl assms(5,7)
    unfolding deliver_later [OF assms(1-4) i_def] by (auto simp: sub_bytes_Inr)
  have st: "insert ?x (stored s) \<subseteq> stored ?s1"
  proof
    fix z assume z: "z \<in> insert ?x (stored s)"
    show "z \<in> stored ?s1"
    proof (cases "z = ?x")
      case True
      then have "slot_at ?s1 i = Inr z \<and> ck_data z \<noteq> None"
        using slot_at_set_slot [OF sl] by simp
      then show ?thesis by (auto simp: stored_def)
    next
      case False
      then obtain j where j: "slot_at s j = Inr z" "ck_data z \<noteq> None"
        using z by (auto simp: stored_def)
      then have "j \<noteq> i" using sl assms(7) by auto
      then have "slot_at ?s1 j = Inr z"
        using j slot_at_set_slot [OF sl] by simp
      then show ?thesis using j by (auto simp: stored_def)
    qed
  qed
  then have k: "kept (insert ?x (stored s)) ?s1"
    unfolding kept_def by blast
  show ?thesis
    using flush_keeps [OF f k] unfolding kept_def by (simp only: set_slot_simps seen_simps simp_thms)
qed

lemma ex_slot: "0 \<le> i \<Longrightarrow> i < 3 \<Longrightarrow> slot_at (ex_out pos) i = Inr ((ex_chunk 0)\<lparr>ck_data := None\<rparr>)"
  by (simp add: slot_at_def ex_ctx_def)

lemma ex_data: "ck_data (ex_chunk k) = Some [1, 0, 16, 0, 16, 0, 25, 0, 1, 0, 65, 66]"
  by (simp add: ex_chunk_def)

theorem deliver_ahead_keeps_witness:
  "\<exists>res s'. output_ffmpeg_deliver (\<lambda>k. Inr ()) 0 (ex_out 0) (ex_chunk 2) = Inr (res, s')
    \<and> ex_chunk 2 \<in> stored s' \<union> set (os_written s') \<union> {x. strange x}"
proof -
  obtain res s' where d: "output_ffmpeg_deliver (\<lambda>k. Inr ()) 0 (ex_out 0) (ex_chunk 2) = Inr (res, s')"
    by (simp add: output_ffmpeg_deliver_def Let_def ex_chunk_def
        ex_ctx_def set_max_def slot_at_def set_slot_def output_ffmpeg_buffer_flush_def
        flush_to_end_def flush_from_start_def c_rem_def cint_def INT_MAX_def INT_MIN_def
        smod_one upto.simps numeral_3_eq_3 smod_nonneg)
  have "(ex_chunk 2)\<lparr>ck_data := Some (take (nat (ck_size (ex_chunk 2)))
        [1, 0, 16, 0, 16, 0, 25, 0, 1, 0, 65, 66])\<rparr>
      \<in> stored s' \<union> set (os_written s') \<union> {x. strange x}"
    using deliver_ahead_keeps [OF ex_ctx_ok _ _ _ ex_data _ _ d,
        of "(ex_chunk 0)\<lparr>ck_data := None\<rparr>"]
    by (simp add: ex_slot INT_MAX_def)
  then show ?thesis using d by (auto simp: ex_chunk_def)
qed

text \<open>What the cleanup plays comes from the slots, and nothing enters a slot.\<close>

definition only_old :: "ostate \<Rightarrow> ostate \<Rightarrow> bool" where
  "only_old s s' \<longleftrightarrow> stored s' \<subseteq> stored s
     \<and> (\<exists>ws. os_written s' = os_written s @ ws \<and> set ws \<subseteq> stored s)"

lemma only_old_cleanup_body:
  assumes "only_old s t" and "cleanup_body t i = Inr (t', k)"
  shows "only_old s t'"
proof -
  obtain c where c: "slot_at t i = Inr c"
    using assms(2) by (auto simp: cleanup_body_def)
  show ?thesis
  proof (cases "ck_data c")
    case None
    then show ?thesis using assms c by (simp add: cleanup_body_def)
  next
    case (Some d)
    then obtain t1 where w: "output_ffmpeg_write_chunk t c = Inr t1"
      and t': "t' = clear_slot i c (set_played (ck_id c) t1)"
      using assms(2) c by (auto simp: cleanup_body_def write_chunk_struct_def set_played_def
          split: if_splits)
    have "c \<in> stored t" using c Some by (auto simp: stored_def)
    moreover have "slot_at (set_played (ck_id c) t1) i = Inr c"
      using c write_chunk_frame [OF w] by (simp add: slot_at_def)
    then have "stored t' \<subseteq> stored t"
      using stored_clear(1) stored_write [OF w] t' by fastforce
    moreover have "os_written t' = os_written t1"
      using t' by (simp add: clear_slot_def)
    ultimately show ?thesis
      using assms(1) write_chunk_frame [OF w] unfolding only_old_def by fastforce
  qed
qed

text \<open>
  C34. A chunk whose slot is taken is lost: \<open>output_ffmpeg_deliver\<close> reports success, but
  everything it plays or keeps was stored before, and the new chunk is neither copied to
  the ring nor put into a slot.
\<close>

theorem deliver_full_slot_drops:
  assumes "ctx_ok (os_ctx s)" and "oc_playedChunk (os_ctx s) + 1 < ck_id c"
    and "ck_id c \<le> INT_MAX" and "ck_id c \<noteq> fc"
    and "slot_at s (ck_id c mod oc_outputBufferSize (os_ctx s)) = Inr sl" and "ck_data sl \<noteq> None"
    and "output_ffmpeg_deliver ask fc s c = Inr (res, s')"
  shows "res = 0 \<and> stored s' \<subseteq> stored s
    \<and> (\<exists>ws. os_written s' = os_written s @ ws \<and> set ws \<subseteq> stored s)"
proof -
  define i where "i = ck_id c mod oc_outputBufferSize (os_ctx s)"
  have sl: "slot_at s i = Inr sl" using assms(5) by (simp add: i_def)
  then have res: "res = 0" and f: "output_ffmpeg_buffer_cleanup (seen c s) i = Inr s'"
    using assms(6,7) unfolding deliver_later [OF assms(1-4) i_def] by auto
  have "only_old (seen c s) (seen c s)" by (simp add: only_old_def)
  with f have "only_old (seen c s) s'"
    by (rule cleanup_inv) (rule only_old_cleanup_body)
  then show ?thesis using res by (simp add: only_old_def)
qed

definition ex_full :: ostate where
  "ex_full = set_slot 2 (ex_chunk 2) (set_played 1 (set_max 2 (ex_out 0)))"

lemma ex_full_simps [simp]:
  "oc_outputBufferSize (os_ctx ex_full) = 3" "oc_playedChunk (os_ctx ex_full) = 1"
  "slot_at ex_full 2 = Inr (ex_chunk 2)" "os_written ex_full = []" "os_byref ex_full = True"
  "os_sched ex_full = []" "os_ring ex_full = os_ring (ex_out 0)"
  by (simp_all add: ex_full_def ex_ctx_def slot_at_def set_slot_def set_max_def)

lemma ex_full_ok: "ctx_ok (os_ctx ex_full)"
proof -
  have "ctx_ok (os_ctx (set_max 2 (ex_out 0)))"
    using ctx_ok_set_max [OF ex_ctx_ok, of 0 2] by (simp add: ex_ctx_def INT_MAX_def)
  then have "ctx_ok (os_ctx (set_played 1 (set_max 2 (ex_out 0))))"
    using ctx_ok_set_played [of "set_max 2 (ex_out 0)" 1] by (simp add: set_max_def)
  then show ?thesis
    unfolding ex_full_def
    by (rule ctx_ok_set_slot) (auto simp: stored_ok_def ex_chunk_def set_max_def ex_ctx_def)
qed

theorem deliver_full_slot_drops_witness:
  "\<exists>s'. output_ffmpeg_deliver (\<lambda>k. Inr ()) 0 ex_full (ex_chunk 5) = Inr (0, s')
    \<and> (\<exists>ws. os_written s' = ws \<and> set ws \<subseteq> stored ex_full)"
proof -
  have "slot_at ex_full 1 = Inr ((ex_chunk 0)\<lparr>ck_data := None\<rparr>)"
    by (simp add: ex_full_def ex_ctx_def slot_at_def set_slot_def set_max_def)
  then have "cleanup_body (seen (ex_chunk 5) ex_full) 1 = Inr (seen (ex_chunk 5) ex_full, True)"
    by (simp add: cleanup_body_def)
  then have "\<exists>s'. output_ffmpeg_buffer_cleanup (seen (ex_chunk 5) ex_full) 2 = Inr s'"
    by (simp add: output_ffmpeg_buffer_cleanup_def c_rem_pos upto.simps)
  then obtain s' where "output_ffmpeg_buffer_cleanup (seen (ex_chunk 5) ex_full) 2 = Inr s'" ..
  then have "output_ffmpeg_deliver (\<lambda>k. Inr ()) 0 ex_full (ex_chunk 5) = Inr (0, s')"
    by (subst deliver_later [OF ex_full_ok, of _ _ 2]) (simp_all add: ex_data INT_MAX_def)
  moreover from this have "\<exists>ws. os_written s' = os_written ex_full @ ws \<and> set ws \<subseteq> stored ex_full"
    using deliver_full_slot_drops [OF ex_full_ok, of "ex_chunk 5" 0 "ex_chunk 2" "\<lambda>k. Inr ()" 0 s']
    by (simp add: ex_data INT_MAX_def)
  ultimately show ?thesis by simp
qed

text \<open>
  C35. Cleaning up before anything was played reads outside the buffer: with
  \<open>playedChunk = -1\<close> the loop starts at slot \<open>-1 % outputBufferSize\<close>, which is -1 in C.
\<close>

theorem deliver_cleanup_underrun:
  assumes "ctx_ok (os_ctx s)" and "oc_playedChunk (os_ctx s) = - 1"
    and "1 < oc_outputBufferSize (os_ctx s)"
    and "0 < ck_id c" and "ck_id c \<le> INT_MAX" and "ck_id c \<noteq> fc"
    and "slot_at s (ck_id c mod oc_outputBufferSize (os_ctx s)) = Inr sl" and "ck_data sl \<noteq> None"
  shows "output_ffmpeg_deliver ask fc s c = Inl (UB Out_Of_Bounds)"
proof -
  define i where "i = ck_id c mod oc_outputBufferSize (os_ctx s)"
  have i: "- 1 < i" "slot_at s i = Inr sl"
    using assms(3,7) pos_mod_sign [of "oc_outputBufferSize (os_ctx s)" "ck_id c"]
    unfolding i_def by linarith+
  have "slot_at s (- 1) = Inl (UB Out_Of_Bounds)"
    using assms(1) by (auto simp: slot_at_def ctx_ok_def index_def)
  then have "cleanup_body (seen c s) (- 1) = Inl (UB Out_Of_Bounds)"
    by (simp add: cleanup_body_def)
  then have "output_ffmpeg_buffer_cleanup (seen c s) i = Inl (UB Out_Of_Bounds)"
    using assms(2,3) i(1)
    by (simp add: output_ffmpeg_buffer_cleanup_def c_rem_minus_one upto_rec1)
  then show ?thesis
    using deliver_later [OF assms(1) _ assms(5,6) i_def] assms(2,4,8) i(2) by simp
qed

theorem deliver_cleanup_underrun_witness:
  "output_ffmpeg_deliver (\<lambda>k. Inr ()) 0 (set_slot 2 (ex_chunk 2) (set_max 2 (ex_out 0))) (ex_chunk 5)
     = Inl (UB Out_Of_Bounds)"
proof (rule deliver_cleanup_underrun)
  let ?s = "set_slot 2 (ex_chunk 2) (set_max 2 (ex_out 0))"
  have "ctx_ok (os_ctx (set_max 2 (ex_out 0)))"
    using ctx_ok_set_max [OF ex_ctx_ok, of 0 2] by (simp add: ex_ctx_def INT_MAX_def)
  then show "ctx_ok (os_ctx ?s)"
    by (rule ctx_ok_set_slot) (auto simp: stored_ok_def ex_chunk_def set_max_def ex_ctx_def)
  show "slot_at ?s (ck_id (ex_chunk 5) mod oc_outputBufferSize (os_ctx ?s)) = Inr (ex_chunk 2)"
    by (simp add: ex_ctx_def slot_at_def set_slot_def set_max_def)
qed (simp_all add: INT_MAX_def set_max_def ex_chunk_def)

lemma for_loop_same:
  assumes "\<And>s i. c s i = Inr True \<Longrightarrow> b s i = b' s i"
  shows "for_loop c b is s = for_loop c b' is s"
proof (induction "is" arbitrary: s)
  case (Cons i "is")
  show ?case
  proof (cases "c s i")
    case (Inr go)
    then show ?thesis using assms Cons by (cases go) (simp_all cong: if_cong)
  qed simp
qed simp

text \<open>
  C36. Missing chunks are never asked for: what a delivery does not depend on
  \<open>network_ask_for_chunk\<close>, in any state.  The flush calls \<open>output_ffmpeg_buffer_free\<close> on
  occupied slots only, so its branches for a missing chunk (request, timeout, skip) are
  not reached.
\<close>

theorem deliver_never_asks:
  "output_ffmpeg_deliver ask fc s c = output_ffmpeg_deliver ask' fc s c"
proof -
  have "flush_body ask t i = flush_body ask' t i"
    if go: "flush_to_end t i = Inr True \<or> flush_from_start t i = Inr True" for t i
  proof -
    obtain x where "slot_at t i = Inr x" and "ck_data x \<noteq> None"
      using go by (rule flush_condE)
    then show ?thesis by (simp add: flush_body_def buffer_free_occupied)
  qed
  then have "for_loop flush_to_end (flush_body ask) = for_loop flush_to_end (flush_body ask')"
    and "for_loop flush_from_start (flush_body ask) = for_loop flush_from_start (flush_body ask')"
    by (intro ext for_loop_same; simp)+
  then have "output_ffmpeg_buffer_flush ask = output_ffmpeg_buffer_flush ask'"
    by (intro ext) (simp only: output_ffmpeg_buffer_flush_def)
  then show ?thesis by (simp only: output_ffmpeg_deliver_def)
qed

end
