(* ===== verification/Streamer.thy ===== *)
theory Streamer
  imports Rounds Output_Factory Mrl Playout
begin

text \<open>
  \<open>src/streamer.c\<close>: the command line, the initialisation of the whole program, \<open>main\<close>; and
  \<open>p2p_plugin_open\<close> of \<open>src/input_p2p.c\<close>, through which xine starts it.
\<close>

section \<open>The command line\<close>

text \<open>The static variables the options set; a string \<open>None\<close> is \<open>NULL\<close>.\<close>

record config =
  configServerAddress :: "string option"
  configServerPort :: int
  configInterface :: "string option"
  configPort :: int

definition default_config :: config where
  "default_config = \<lparr>configServerAddress = Some ''127.0.0.1'', configServerPort = 6666,
     configInterface = Some ''lo0'', configPort = 5555\<rparr>"

text \<open>
  One option: \<open>arg\<close> is copied to an array of 512 bytes, \<open>next\<close> is \<open>argv[i + 1]\<close>, which is
  \<open>NULL\<close> behind the last argument.
\<close>

definition parse_option :: "string \<Rightarrow> string option \<Rightarrow> config \<Rightarrow> config res" where
  "parse_option arg next c =
     bnd (guard (length arg < 512) Out_Of_Bounds) (\<lambda>_.
     if arg = ''-i'' then Inr (c\<lparr>configServerAddress := next\<rparr>)
     else if arg = ''-p'' then
       bnd (deref next) (\<lambda>v. bnd (atoi v) (\<lambda>n. Inr (c\<lparr>configServerPort := n\<rparr>)))
     else if arg = ''-I'' then Inr (c\<lparr>configInterface := next\<rparr>)
     else if arg = ''-P'' then
       bnd (deref next) (\<lambda>v. bnd (atoi v) (\<lambda>n. Inr (c\<lparr>configPort := n\<rparr>)))
     else Inr c)"

text \<open>The loop over \<open>argv[1]\<close>, \<open>argv[3]\<close>, ...; the argument is what is left of \<open>argv\<close>.\<close>

fun parse_options :: "string list \<Rightarrow> config \<Rightarrow> config res" where
  "parse_options [] c = Inr c"
| "parse_options [arg] c = parse_option arg None c"
| "parse_options (arg # v # args) c = bnd (parse_option arg (Some v) c) (parse_options args)"

definition parseCommandLineArguments :: "string list \<Rightarrow> config \<Rightarrow> config res" where
  "parseCommandLineArguments argv c = parse_options (drop 1 argv) c"

section \<open>Initialisation\<close>

text \<open>
  What \<open>init\<close> calls of GRAPES, the allocator and the platform.  \<open>psample_init\<close> also gives what
  it leaves in the memory of the host's name, since the code expects it to be overwritten.
\<close>

record ('g, 'c, 'n) startup =
  su_sys :: sys
  su_net_helper_init :: "string \<Rightarrow> int \<Rightarrow> 'n option"
  su_psample_init :: "'g \<Rightarrow> 'n \<Rightarrow> string \<Rightarrow> 'g option \<times> string"
  su_cb_init :: "'g \<Rightarrow> string \<Rightarrow> 'g option"
  su_chunkDeliveryInit :: "'n \<Rightarrow> int"
  su_chunkSignalingInit :: "'n \<Rightarrow> int"
  su_peerset_init :: "'g \<Rightarrow> 'g option"
  su_create_node :: "string \<Rightarrow> int \<Rightarrow> 'n option"
  su_psample_add_peer :: "'g \<Rightarrow> 'n option \<Rightarrow> int \<times> 'g"
  su_output_malloc :: bool
  su_ffmpeg :: ffmpeg_env

definition configPeersample :: string where "configPeersample = ''protocol=cyclon''"
definition configChunkBuffer :: string where "configChunkBuffer = ''size=100,time=now''"
definition configChunkIDSet :: string where "configChunkIDSet = ''size=100''"
definition configOutput :: string where "configOutput = ''buffer=200,dechunkiser=raw,payload=avf''"

definition string_at :: "string cptr \<Rightarrow> string res" where
  "string_at q = (case q of Null \<Rightarrow> Inl (UB Null_Deref) | Heap s \<Rightarrow> Inr s | Static s \<Rightarrow> Inr s
     | Embedded s \<Rightarrow> Inr s)"

text \<open>
  The network part, up to the chunk signalling: the new plugin and network state, with \<open>False\<close>
  for \<open>return -1\<close>; then the sets, the server and the output.
\<close>

definition init_network ::
  "('g, 'c, 'n) startup \<Rightarrow> plugin \<Rightarrow> ('g, 'c, 'n, ostate) net
     \<Rightarrow> (bool \<times> plugin \<times> ('g, 'c, 'n, ostate) net) res"
where
  "init_network u p s =
     bnd (string_at (pl_interface p)) (\<lambda>interface.
     bnd (network_create_interface (su_sys u) interface) (\<lambda>my_addr.
     if my_addr = '''' then Inr (False, p, s)
     else case su_net_helper_init u my_addr (pl_own_port p) of
       None \<Rightarrow> Inr (False, p, s)
     | Some localSocket \<Rightarrow>
         bnd (string_at (pl_host p)) (\<lambda>sa.
         case su_psample_init u (nt_lib s) localSocket sa of
           (None, host) \<Rightarrow> Inr (False, p\<lparr>pl_host := Heap host\<rparr>, s)
         | (Some lib, host) \<Rightarrow>
             let p1 = p\<lparr>pl_host := Heap sa\<rparr>; s1 = s\<lparr>nt_lib := lib\<rparr>
             in (case su_cb_init u lib configChunkBuffer of
                  None \<Rightarrow> Inr (False, p1, s1)
                | Some lib2 \<Rightarrow>
                    let s2 = s1\<lparr>nt_lib := lib2\<rparr>
                    in if su_chunkDeliveryInit u localSocket < 0 then Inr (False, p1, s2)
                       else Inr (su_chunkSignalingInit u localSocket \<noteq> 0, p1, s2)))))"

definition init_output ::
  "('g, 'c, 'n) startup \<Rightarrow> ('g, 'c, 'n) grapes \<Rightarrow> (int \<Rightarrow> unit res) \<Rightarrow> plugin
     \<Rightarrow> ('g, 'c, 'n, ostate) net \<Rightarrow> (bool \<times> ('g, 'c, 'n, ostate) net) res"
where
  "init_output u g ask p s =
     (let s1 = s\<lparr>nt_chunkIDSet := chunkID_set_init g (Some configChunkIDSet)\<rparr>
      in if nt_chunkIDSet s1 = None then Inr (False, s1)
         else case su_peerset_init u (nt_lib s1) of
           None \<Rightarrow> Inr (False, s1)
         | Some lib \<Rightarrow>
             bnd (string_at (pl_host p)) (\<lambda>host.
             let server = su_create_node u host (pl_host_port p);
                 s2 = s1\<lparr>nt_lib := lib, nt_serverSocket := server\<rparr>
             in if server = None then Inr (False, s2)
                else case su_psample_add_peer u lib (su_create_node u host (pl_host_port p)) of
                  (added, lib2) \<Rightarrow>
                    let s3 = s2\<lparr>nt_lib := lib2\<rparr>
                    in if added = - 1 then Inr (False, s3)
                       else bnd (output_init ask (su_output_malloc u) (su_ffmpeg u) configOutput) (\<lambda>out.
                            case out of
                              None \<Rightarrow> Inr (False, s3\<lparr>nt_output := None\<rparr>)
                            | Some o1 \<Rightarrow> Inr (True, s3\<lparr>nt_output := Some (mo_context o1)\<rparr>))))"

definition init ::
  "('g, 'c, 'n) startup \<Rightarrow> ('g, 'c, 'n) grapes \<Rightarrow> (int \<Rightarrow> unit res) \<Rightarrow> plugin option
     \<Rightarrow> ('g, 'c, 'n, ostate) net \<Rightarrow> (int \<times> plugin \<times> ('g, 'c, 'n, ostate) net) res"
where
  "init u g ask plugin s =
     bnd (deref plugin) (\<lambda>p.
     bnd (init_network u p s) (\<lambda>(ok, p1, s1).
     if \<not> ok then Inr (- 1, p1, s1)
     else bnd (init_output u g ask p1 s1) (\<lambda>(ok2, s2).
          Inr (if ok2 then 0 else - 1, p1, s2))))"

text \<open>
  The state of the globals when the program starts.  The peers that GRAPES's peer set will
  hand out are a parameter: which of them are allocated, with which id, is up to the library.
\<close>

definition start_net :: "'g \<Rightarrow> (nat \<Rightarrow> 'n peer) \<Rightarrow> ('g, 'c, 'n, ostate) net" where
  "start_net lib peers = \<lparr>nt_lib = lib, nt_chunkBufferSize = 0, nt_chunkIDSet = None,
     nt_peerChunks = None, nt_peerChunksSize = 0, nt_peers = peers, nt_firstChunk = - 1,
     nt_transId = 1, nt_stopThreads = 0, nt_serverSocket = None, nt_output = None, nt_log = []\<rparr>"

text \<open>\<open>main\<close> calls \<open>init(NULL)\<close>.\<close>

definition main_program ::
  "('g, 'c, 'n) startup \<Rightarrow> ('g, 'c, 'n) grapes \<Rightarrow> (int \<Rightarrow> unit res) \<Rightarrow> string list \<Rightarrow> 'g
     \<Rightarrow> (nat \<Rightarrow> 'n peer) \<Rightarrow> (int \<times> config \<times> ('g, 'c, 'n, ostate) net) res"
where
  "main_program u g ask argv lib peers =
     bnd (parseCommandLineArguments argv default_config) (\<lambda>cfg.
     bnd (init u g ask None (start_net lib peers)) (\<lambda>(r, p, s).
     if r \<noteq> 0 then Inr (0, cfg, s) else Inr (0, cfg, threads_start g s)))"

section \<open>Opening the plugin\<close>

definition p2p_plugin_open ::
  "('g, 'c, 'n) startup \<Rightarrow> ('g, 'c, 'n) grapes \<Rightarrow> (int \<Rightarrow> unit res) \<Rightarrow> plugin
     \<Rightarrow> ('g, 'c, 'n, ostate) net \<Rightarrow> (int \<times> plugin \<times> ('g, 'c, 'n, ostate) net) res"
where
  "p2p_plugin_open u g ask p s =
     bnd (init u g ask (Some p) s) (\<lambda>(fh, p1, s1).
     let p2 = p1\<lparr>pl_fh := fh\<rparr>
     in if fh = - 1 then Inr (0, p2, s1) else Inr (1, p2, threads_start g s1))"

section \<open>Lemmas\<close>

lemma init_network_frame:
  assumes "init_network u p s = Inr (ok, p', s')"
  shows "nt_log s' = nt_log s \<and> nt_stopThreads s' = nt_stopThreads s
    \<and> (ok \<longrightarrow> string_at (pl_host p') = string_at (pl_host p))"
  using assms
  by (auto simp: init_network_def Let_def string_at_def split: if_splits option.splits prod.splits)

lemma init_output_frame:
  assumes "init_output u g ask p s = Inr (ok, s')"
  shows "nt_log s' = nt_log s \<and> nt_stopThreads s' = nt_stopThreads s"
  using assms
  by (auto simp: init_output_def Let_def split: if_splits option.splits prod.splits)

lemma init_unplayed: "output_ffmpeg_init e config = Inr (Some w) \<Longrightarrow> oc_playedChunk (os_ctx w) = - 1"
  by (auto simp: output_ffmpeg_init_def Let_def split: option.splits if_splits)

lemma output_init_ok:
  assumes "output_init ask b e config = Inr (Some o1)"
    and "\<forall>tags. fe_config_parse e config = Some tags \<longrightarrow> 0 < tags ''buffer'' 75"
  shows "ctx_ok (os_ctx (mo_context o1)) \<and> oc_playedChunk (os_ctx (mo_context o1)) = - 1"
proof -
  have "output_ffmpeg_init e config = Inr (Some (mo_context o1))"
    using assms(1) by (auto simp: output_init_def output_ffmpeg_def Let_def split: if_splits option.splits)
  then show ?thesis
    using init_ctx_ok [OF _ assms(2)] init_unplayed by blast
qed

lemma init_output_ok:
  assumes "init_output u g ask p s = Inr (True, s')"
    and "\<forall>tags. fe_config_parse (su_ffmpeg u) configOutput = Some tags \<longrightarrow> 0 < tags ''buffer'' 75"
  shows "nt_chunkIDSet s' \<noteq> None \<and> nt_serverSocket s' \<noteq> None
    \<and> (\<exists>w. nt_output s' = Some w \<and> ctx_ok (os_ctx w) \<and> oc_playedChunk (os_ctx w) = - 1)"
  using assms(1) output_init_ok [OF _ assms(2)]
  by (auto simp: init_output_def Let_def split: if_splits option.splits prod.splits)

lemma threads_start_simps [simp]:
  "nt_log (threads_start g s) = nt_log s @ map Thread [''receive_data'', ''send_topology'',
     ''offer_chunk'', ''send_chunk'', ''request_secured_data_login'']"
  "nt_stopThreads (threads_start g s) = 0" "nt_output (threads_start g s) = nt_output s"
  "nt_chunkIDSet (threads_start g s) = nt_chunkIDSet s"
  "nt_serverSocket (threads_start g s) = nt_serverSocket s"
  by (simp_all add: threads_start_def)

section \<open>Properties\<close>

text \<open>
  C29. Opening the plugin starts the program or reports why not: \<open>p2p_plugin_open\<close> returns
  1 or 0.  After 1 the five threads run, the server and the chunk id set exist, the output
  module is well formed with nothing played yet, and the plugin's host is the name it had
  before the peer sampler overwrote it.  After 0 no thread was started.
\<close>

theorem plugin_open_result:
  assumes "p2p_plugin_open u g ask p s = Inr (r, p', s')"
    and "\<forall>tags. fe_config_parse (su_ffmpeg u) configOutput = Some tags \<longrightarrow> 0 < tags ''buffer'' 75"
  shows "(r = 0 \<and> nt_log s' = nt_log s)
    \<or> (r = 1 \<and> string_at (pl_host p') = string_at (pl_host p)
       \<and> nt_log s' = nt_log s @ map Thread [''receive_data'', ''send_topology'', ''offer_chunk'',
            ''send_chunk'', ''request_secured_data_login'']
       \<and> nt_stopThreads s' = 0 \<and> nt_chunkIDSet s' \<noteq> None \<and> nt_serverSocket s' \<noteq> None
       \<and> (\<exists>w. nt_output s' = Some w \<and> ctx_ok (os_ctx w) \<and> oc_playedChunk (os_ctx w) = - 1))"
proof -
  obtain ok p1 s1 where n: "init_network u p s = Inr (ok, p1, s1)"
    using assms(1) by (auto simp: p2p_plugin_open_def init_def)
  note fr = init_network_frame [OF n]
  show ?thesis
  proof (cases ok)
    case False
    then show ?thesis
      using assms(1) n fr by (simp add: p2p_plugin_open_def init_def)
  next
    case True
    then obtain ok2 s2 where o: "init_output u g ask p1 s1 = Inr (ok2, s2)"
      using assms(1) n by (auto simp: p2p_plugin_open_def init_def)
    show ?thesis
    proof (cases ok2)
      case True
      then have "init_output u g ask p1 s1 = Inr (True, s2)" using o by simp
      note out = init_output_ok [OF this assms(2)]
      have "r = 1" "p' = p1\<lparr>pl_fh := 0\<rparr>" "s' = threads_start g s2"
        using assms(1) n o \<open>ok\<close> True by (simp_all add: p2p_plugin_open_def init_def)
      then show ?thesis
        using out fr \<open>ok\<close> init_output_frame [OF o] by simp
    next
      case False
      then show ?thesis
        using assms(1) n o fr \<open>ok\<close> init_output_frame [OF o]
        by (simp add: p2p_plugin_open_def init_def)
    qed
  qed
qed

definition ex_outup :: "(chunk list, int list, nat) startup" where
  "ex_outup = \<lparr>su_sys = \<lparr>sy_socket = 3, sy_ioctl = (\<lambda>i. (0, ''127.0.0.1'')), sy_IFNAMSIZ = 16,
       sy_EXIT_FAILURE = 1\<rparr>,
     su_net_helper_init = (\<lambda>a port. Some 5), su_psample_init = (\<lambda>l n host. (Some l, '''')),
     su_cb_init = (\<lambda>l config. Some l), su_chunkDeliveryInit = (\<lambda>n. 0),
     su_chunkSignalingInit = (\<lambda>n. 1), su_peerset_init = Some, su_create_node = (\<lambda>host port. Some 1),
     su_psample_add_peer = (\<lambda>l n. (0, l)), su_output_malloc = True, su_ffmpeg = ex_config\<rparr>"

theorem plugin_open_result_witness:
  "\<exists>p' s'. p2p_plugin_open ex_outup (ex_grapes (ex_ck 0) undefined) (\<lambda>k. Inr ()) ex_plugin (start_net [] (\<lambda>r. Freed))
      = Inr (1, p', s') \<and> string_at (pl_host p') = Inr ''h''
    \<and> (\<exists>w. nt_output s' = Some w \<and> ctx_ok (os_ctx w))"
proof -
  obtain p' s' where run: "p2p_plugin_open ex_outup (ex_grapes (ex_ck 0) undefined) (\<lambda>k. Inr ())
      ex_plugin (start_net [] (\<lambda>r. Freed)) = Inr (1, p', s')"
    by (simp add: p2p_plugin_open_def init_def init_network_def init_output_def ex_outup_def
        ex_plugin_def string_at_def network_create_interface_def Let_def ex_grapes_def
        output_init_def output_ffmpeg_def output_ffmpeg_init_def ex_config_def start_net_def)
  then show ?thesis
    using plugin_open_result [OF run]
    by (auto simp: ex_outup_def ex_config_def ex_plugin_def string_at_def)
qed

text \<open>
  The stand-alone program never starts: after the command line \<open>main\<close> passes a null
  pointer to \<open>init\<close>, which reads the interface through it.
\<close>

lemma main_never_starts:
  "main_program u g ask argv lib peers =
     (case parseCommandLineArguments argv default_config of
        Inl e \<Rightarrow> Inl e | Inr cfg \<Rightarrow> Inl (UB Null_Deref))"
  by (simp add: main_program_def init_def split: sum.splits)

lemma parse_options_append:
  "even (length args) \<Longrightarrow>
     parse_options (args @ rest) c = bnd (parse_options args c) (parse_options rest)"
proof (induction args c rule: parse_options.induct)
  case (3 arg v args c)
  then show ?case by (cases "parse_option arg (Some v) c") simp_all
qed simp_all

text \<open>
  An option without its value: after any complete options a final \<open>-p\<close> or \<open>-P\<close> makes
  \<open>atoi\<close> read the null pointer behind the arguments, and a final \<open>-i\<close> sets the server
  address to \<open>NULL\<close>.
\<close>

lemma parse_missing_value:
  assumes "even (length args)" and "parse_options args c = Inr c'"
  shows "parseCommandLineArguments (prog # args @ [''-p'']) c = Inl (UB Null_Deref)
    \<and> parseCommandLineArguments (prog # args @ [''-P'']) c = Inl (UB Null_Deref)
    \<and> parseCommandLineArguments (prog # args @ [''-i'']) c = Inr (c'\<lparr>configServerAddress := None\<rparr>)"
  using assms by (simp add: parseCommandLineArguments_def parse_options_append parse_option_def)

section \<open>Messages and the contract of the output module\<close>

definition output_ok :: "('w \<Rightarrow> bool) \<Rightarrow> ('g, 'c, 'n, 'w) net \<Rightarrow> bool" where
  "output_ok P s \<longleftrightarrow> (\<forall>w. nt_output s = Some w \<longrightarrow> P w)"

text \<open>
  \<open>parseChunkMsg\<close> fills in a \<open>struct chunk\<close>, so the ids it parses are C \<open>int\<close>s; what else
  is in the chunk is left open, as it comes from the network.
\<close>

definition parses_ints :: "('g, 'c, 'n) grapes \<Rightarrow> bool" where
  "parses_ints g \<longleftrightarrow> (\<forall>bs n res c t. parseChunkMsg g bs n = (res, c, t) \<longrightarrow> 0 < res \<longrightarrow> int_id c)"

text \<open>
  What a module's contract keeps, every round of every thread keeps: the contract gives a
  relation in the sense of theory \<open>Rounds\<close>.
\<close>

lemma output_add: "network_add_to_peerChunk g n k s = Inr (r, s') \<Longrightarrow> nt_output s' = nt_output s"
  by (auto simp: network_add_to_peerChunk_def Let_def split: if_splits)

lemma output_send_one: "send_one g s i = Inr (s', k) \<Longrightarrow> nt_output s' = nt_output s"
  by (auto simp: send_one_def free_peer_def split: option.splits)

lemma output_ok_emit: "output_ok P (emit e s) = output_ok P s"
  by (simp add: output_ok_def)

sublocale output_contract \<subseteq>
  rr: thread_relation g m "\<lambda>s s'. parses_ints g \<longrightarrow> output_ok inv s \<longrightarrow> output_ok inv s'" for g
proof (unfold_locales, goal_cases)
  case (2 s s1 s2)
  then show ?case by simp
next
  case (5 bs n res c t s w v w')
  show ?case
  proof (intro impI)
    assume "parses_ints g" and "output_ok inv s"
    then have "int_id c" and "inv w"
      using 5(1-3) unfolding parses_ints_def output_ok_def by blast+
    then show "output_ok inv (s\<lparr>nt_output := Some w'\<rparr>)"
      using deliver_inv [OF _ _ 5(4)] by (simp add: output_ok_def)
  qed
next
  case (6 s w c v w')
  then show ?case using secured_chunk_inv [OF _ 6(2)] by (simp add: output_ok_def)
next
  case (7 s w c v w')
  then show ?case using secured_login_inv [OF _ 7(2)] by (simp add: output_ok_def)
next
  case (8 remote k s r s')
  then show ?case by (simp add: output_ok_def output_add [OF 8])
next
  case (15 s i s' k)
  then show ?case by (simp add: output_ok_def output_send_one [OF 15])
next
  case (11 e s s1)
  then show ?case by (simp only: output_ok_emit)
qed (simp_all add: output_ok_def)

context output_contract
begin

lemma receive_inv:
  "receive_message g m remote buffer n s = Inr s' \<Longrightarrow> parses_ints g \<Longrightarrow> output_ok inv s \<Longrightarrow>
     output_ok inv s'"
  by (drule rr.receive) simp

lemma receive_all_inv:
  "threads_receive_data g m ms s = Inr s' \<Longrightarrow> parses_ints g \<Longrightarrow> output_ok inv s \<Longrightarrow> output_ok inv s'"
proof (induction ms arbitrary: s)
  case (Cons a ms)
  obtain remote buffer n where a: "a = (remote, buffer, n)" by (cases a)
  show ?case
  proof (cases "nt_stopThreads s = 1")
    case True
    then show ?thesis using Cons.prems a by simp
  next
    case False
    then obtain t where t: "receive_message g m remote buffer n s = Inr t"
      and rest: "threads_receive_data g m ms t = Inr s'"
      using Cons.prems(1) a by auto
    have "output_ok inv t" using receive_inv [OF t Cons.prems(2,3)] .
    then show ?thesis using Cons.IH [OF rest Cons.prems(2)] by blast
  qed
qed simp

end

text \<open>
  Whatever messages arrive, the output module stays well formed: from a module with an
  invariant context, after any sequence of received messages (chunks, signalling, topology,
  secured data), the reorder buffer still satisfies its invariant; the premise on the parsed
  ids is the width of the type \<open>int\<close>.
\<close>

lemma messages_keep_output:
  assumes "threads_receive_data g (output_ffmpeg ask) ms s = Inr s'"
    and "\<And>bs n res c t. parseChunkMsg g bs n = (res, c, t) \<Longrightarrow> 0 < res \<Longrightarrow> int_id c"
    and "nt_output s = Some w" and "ctx_ok (os_ctx w)" and "nt_output s' = Some w'"
  shows "ctx_ok (os_ctx w')"
proof -
  have "parses_ints g" unfolding parses_ints_def using assms(2) by blast
  then have "output_ok (\<lambda>w. ctx_ok (os_ctx w)) s'"
    using assms(3,4) by (intro om.receive_all_inv [OF assms(1)]) (simp_all add: output_ok_def)
  then show ?thesis using assms(5) by (simp add: output_ok_def)
qed

end
