(* ===== verification/Flush_Order.thy ===== *)
theory Flush_Order
  imports Playout
begin

text \<open>
  Which chunks a flush of the reorder buffer of \<open>src/output_ffmpeg.c\<close> plays, and in which
  order: a specification on the list of slots, the refinement of the two loops of
  \<open>output_ffmpeg_buffer_flush\<close> to it, and what it means for a delivery.
\<close>

section \<open>Specification on the list of slots\<close>

definition occupied :: "chunk \<Rightarrow> bool" where
  "occupied c \<longleftrightarrow> ck_data c \<noteq> None"

text \<open>A run of occupied slots at the front of a list is played and emptied.\<close>

definition empty_run :: "chunk list \<Rightarrow> chunk list" where
  "empty_run xs = map (\<lambda>c. c\<lparr>ck_data := None\<rparr>) (takeWhile occupied xs) @ dropWhile occupied xs"

text \<open>
  The slots \<open>b\<close> around the one of the chunk played last, at index \<open>p\<close> (-1 when nothing has
  been played): first the run behind it, then the run at the start of the buffer.
\<close>

definition flush_plan :: "chunk list \<Rightarrow> int \<Rightarrow> chunk list" where
  "flush_plan b p =
     takeWhile occupied (drop (nat (p + 1)) b) @ takeWhile occupied (take (nat p) b)"

definition flush_rest :: "chunk list \<Rightarrow> int \<Rightarrow> chunk list" where
  "flush_rest b p =
     empty_run (take (nat p) b) @ drop (nat p) (take (nat (p + 1)) b)
       @ empty_run (drop (nat (p + 1)) b)"

text \<open>Chunks the ring has room for, before its end, one after the other.\<close>

definition room_for :: "chunk list \<Rightarrow> ostate \<Rightarrow> bool" where
  "room_for xs s \<longleftrightarrow> ring_ok (os_ring s) \<and> os_sched s = [] \<and> 0 \<le> rb_put (os_ring s)
     \<and> rb_put (os_ring s) + sum_list (map ck_size xs) \<le> BUFFER_SIZE
     \<and> rb_count (os_ring s) + sum_list (map ck_size xs) \<le> BUFFER_SIZE
     \<and> (\<forall>x\<in>set xs. \<exists>d. playable x d)"

text \<open>What the rounds of a flush leave alone; no indeterminate return value is -1.\<close>

definition flushing :: "int \<Rightarrow> int \<Rightarrow> ostate \<Rightarrow> bool" where
  "flushing p N s \<longleftrightarrow> oc_playedChunk (os_ctx s) = p \<and> oc_outputBufferSize (os_ctx s) = N
     \<and> (\<forall>k. os_env s k \<noteq> - 1)"

section \<open>The loops\<close>

lemma sum_sizes_nonneg: "\<forall>x\<in>set xs. \<exists>d. playable x d \<Longrightarrow> 0 \<le> sum_list (map ck_size xs)"
proof (rule sum_list_nonneg)
  fix n assume "\<forall>x\<in>set xs. \<exists>d. playable x d" and "n \<in> set (map ck_size xs)"
  then obtain x d where "n = ck_size x" and "playable x d" by auto
  then show "0 \<le> n" using chunk_offset_range [of d] by (simp add: playable_def)
qed

lemma slots_split: "i \<le> hi \<Longrightarrow> take i b @ drop i (take hi b) @ drop hi b = b"
  using append_take_drop_id [of i "take hi b"] append_take_drop_id [of hi b]
  by (simp add: min_absorb1 flip: append_assoc)

lemma length_empty_run [simp]: "length (empty_run xs) = length xs"
  unfolding empty_run_def length_append length_map
  by (metis length_append takeWhile_dropWhile_id)

lemma empty_run_Cons:
  "empty_run (x # xs) = (if occupied x then x\<lparr>ck_data := None\<rparr> # empty_run xs else x # xs)"
  by (simp add: empty_run_def)

lemma room_write:
  assumes "room_for (x # xs) s"
  obtains s1 where "output_ffmpeg_write_chunk s x = Inr s1" and "room_for xs s1"
    and "os_written s1 = os_written s @ [x]" and "os_ctx s1 = os_ctx s"
    and "os_env s1 = os_env s"
proof -
  obtain d where d: "playable x d" using assms by (auto simp: room_for_def)
  have "0 \<le> sum_list (map ck_size xs)"
    using sum_sizes_nonneg assms by (simp add: room_for_def)
  then obtain s1 where w: "output_ffmpeg_write_chunk s x = Inr s1" and "ring_ok (os_ring s1)"
    and "os_sched s1 = []" and "rb_put (os_ring s1) = rb_put (os_ring s) + ck_size x"
    and "rb_count (os_ring s1) \<le> rb_count (os_ring s) + ck_size x"
    and "os_written s1 = os_written s @ [x]" and "os_ctx s1 = os_ctx s"
    using write_straight [OF d, of s] assms by (auto simp: room_for_def)
  moreover have "0 \<le> ck_size x" using d chunk_offset_range [of d] by (simp add: playable_def)
  ultimately show ?thesis
    using that [of s1] assms write_chunk_frame [OF w] by (simp add: room_for_def)
qed

text \<open>A round on an occupied slot.\<close>

lemma flush_round:
  assumes "oc_outputBuffer (os_ctx s) = Some b" and "i < length b" and "occupied (b ! i)"
    and "room_for (b ! i # xs) s" and "flushing p N s"
  obtains s1 where "flush_body ask s (int i) = Inr (s1, True)"
    and "oc_outputBuffer (os_ctx s1) = Some (b[i := (b ! i)\<lparr>ck_data := None\<rparr>])"
    and "os_written s1 = os_written s @ [b ! i]" and "room_for xs s1" and "flushing p N s1"
proof -
  obtain s0 where w: "output_ffmpeg_write_chunk s (b ! i) = Inr s0" and r: "room_for xs s0"
    and s0: "os_written s0 = os_written s @ [b ! i]" "os_ctx s0 = os_ctx s" "os_env s0 = os_env s"
    using room_write [OF assms(4)] .
  have sl: "slot_at s (int i) = Inr (b ! i)"
    using assms(1,2) by (simp add: slot_at_def)
  obtain v s1 where d: "draw (clear_slot (int i) (b ! i) s0) = (v, s1)" by fastforce
  have s1: "s1 = (clear_slot (int i) (b ! i) s0)\<lparr>os_tick := Suc (os_tick s0)\<rparr>" and "v \<noteq> - 1"
    using d s0(3) assms(5) by (auto simp: draw_def clear_slot_def set_slot_def flushing_def)
  then have "flush_body ask s (int i) = Inr (s1, True)"
    using buffer_free_occupied [OF sl] assms(3) w d by (simp add: flush_body_def occupied_def)
  then show ?thesis
    using that [of s1] s1 s0 r assms(1,5)
    by (simp add: clear_slot_def set_slot_def room_for_def flushing_def)
qed

text \<open>
  Either loop from index \<open>i\<close>, with a condition that asks for an index below \<open>hi\<close> and an
  occupied slot, plays and empties the run at the front of the slots \<open>i..<hi\<close>.
\<close>

lemma flush_loop:
  assumes "oc_outputBuffer (os_ctx s) = Some b" and "int (length b) = N" and "i \<le> hi"
    and "int hi \<le> N" and "flushing p N s"
    and "room_for (takeWhile occupied (drop i (take hi b)) @ xs) s"
    and "\<And>t j. flushing p N t \<Longrightarrow> 0 \<le> j \<Longrightarrow> C t j =
       (if j < int hi then bnd (slot_at t j) (\<lambda>c. Inr (ck_data c \<noteq> None)) else Inr False)"
  shows "\<exists>s'. for_loop C (flush_body ask) [int i .. N] s = Inr (s', True)
    \<and> oc_outputBuffer (os_ctx s') = Some (take i b @ empty_run (drop i (take hi b)) @ drop hi b)
    \<and> os_written s' = os_written s @ takeWhile occupied (drop i (take hi b))
    \<and> room_for xs s' \<and> flushing p N s'"
  using assms(1-6)
proof (induction "hi - i" arbitrary: s b i)
  case 0
  then have "C s (int i) = Inr False" using assms(7) by simp
  then show ?case
    using 0 by (simp add: upto_rec1 empty_run_def)
next
  case (Suc n)
  then have lt: "i < hi" "i < length b" by simp_all
  have up: "[int i .. N] = int i # [int (Suc i) .. N]"
    using lt(1) Suc.prems(4) by (simp add: upto_rec1 algebra_simps)
  have dr: "drop i (take hi b) = b ! i # drop (Suc i) (take hi b)"
    using lt by (metis Cons_nth_drop_Suc length_take min_less_iff_conj nth_take)
  have sl: "slot_at s (int i) = Inr (b ! i)" using Suc.prems(1) lt(2) by (simp add: slot_at_def)
  have c: "C s (int i) = Inr (occupied (b ! i))"
    using assms(7) [OF Suc.prems(5)] lt(1) sl by (simp add: occupied_def)
  show ?case
  proof (cases "occupied (b ! i)")
    case False
    have "take i b @ (b ! i # drop (Suc i) (take hi b)) @ drop hi b = b"
      using slots_split [of i hi b] lt(1) dr by simp
    then show ?thesis using False Suc.prems(1,5,6) c up dr by (simp add: empty_run_Cons)
  next
    case True
    let ?b1 = "b[i := (b ! i)\<lparr>ck_data := None\<rparr>]"
    obtain s1 where f: "flush_body ask s (int i) = Inr (s1, True)"
      and b1: "oc_outputBuffer (os_ctx s1) = Some ?b1"
      and w1: "os_written s1 = os_written s @ [b ! i]"
      and r1: "room_for (takeWhile occupied (drop (Suc i) (take hi b)) @ xs) s1"
      and q1: "flushing p N s1"
      using flush_round [OF Suc.prems(1) lt(2) True _ Suc.prems(5)] Suc.prems(6) True dr by auto
    have e: "drop (Suc i) (take hi ?b1) = drop (Suc i) (take hi b)" "drop hi ?b1 = drop hi b"
        "take (Suc i) ?b1 = take i b @ [(b ! i)\<lparr>ck_data := None\<rparr>]"
      using lt by (simp_all add: take_update_swap drop_update_cancel take_Suc_conv_app_nth
          list_update_append)
    have "\<exists>s'. for_loop C (flush_body ask) [int (Suc i) .. N] s1 = Inr (s', True)
      \<and> oc_outputBuffer (os_ctx s')
          = Some (take (Suc i) ?b1 @ empty_run (drop (Suc i) (take hi ?b1)) @ drop hi ?b1)
      \<and> os_written s' = os_written s1 @ takeWhile occupied (drop (Suc i) (take hi ?b1))
      \<and> room_for xs s' \<and> flushing p N s'"
    proof (rule Suc.hyps(1))
      show "room_for (takeWhile occupied (drop (Suc i) (take hi ?b1)) @ xs) s1"
        using r1 e(1) by simp
    qed (use Suc.hyps(2) Suc.prems(2,4) lt(1) b1 q1 in simp_all)
    then show ?thesis
      using f c up dr True e w1 by (auto simp: empty_run_Cons)
  qed
qed

text \<open>The slot of the chunk played last, by C's remainder: -1 when nothing has been played.\<close>

definition last_slot :: "octx \<Rightarrow> int" where
  "last_slot x = oc_playedChunk x smod oc_outputBufferSize x"

lemma last_slot_range:
  assumes "ctx_ok x"
  shows "- 1 \<le> last_slot x" and "last_slot x < oc_outputBufferSize x"
    and "c_rem (oc_playedChunk x) (oc_outputBufferSize x) = Inr (last_slot x)"
proof -
  have n: "0 < oc_outputBufferSize x" "- 1 \<le> oc_playedChunk x"
    using assms by (auto simp: ctx_ok_def)
  have "- 1 \<le> last_slot x \<and> last_slot x < oc_outputBufferSize x"
  proof (cases "oc_playedChunk x = - 1")
    case True
    then show ?thesis
      using n smod_one [of "oc_outputBufferSize x"] smod_nonneg [of 1 1]
      by (cases "oc_outputBufferSize x = 1") (simp_all add: last_slot_def)
  next
    case False
    then have "last_slot x = oc_playedChunk x mod oc_outputBufferSize x"
      using n smod_nonneg by (simp add: last_slot_def)
    then show ?thesis
      using n pos_mod_bound [of "oc_outputBufferSize x"] pos_mod_sign [of "oc_outputBufferSize x"]
      by (simp add: order_trans [of "- 1" 0])
  qed
  then show "- 1 \<le> last_slot x" and "last_slot x < oc_outputBufferSize x" by simp_all
  show "c_rem (oc_playedChunk x) (oc_outputBufferSize x) = Inr (last_slot x)"
    using n by (simp add: c_rem_def last_slot_def INT_MIN_def)
qed

lemma flush_to_end_cond:
  "flushing p N t \<Longrightarrow> flush_to_end t j =
     (if j < N then bnd (slot_at t j) (\<lambda>c. Inr (ck_data c \<noteq> None)) else Inr False)"
  by (simp add: flush_to_end_def flushing_def)

lemma flush_from_start_cond:
  "flushing p N t \<Longrightarrow> c_rem p N = Inr q \<Longrightarrow> 0 \<le> j \<Longrightarrow> flush_from_start t j =
     (if j < int (nat q) then bnd (slot_at t j) (\<lambda>c. Inr (ck_data c \<noteq> None)) else Inr False)"
  by (auto simp: flush_from_start_def flushing_def)

text \<open>The flush refines the specification: its two loops, and the whole.\<close>

lemma flush_behind:
  assumes "oc_outputBuffer (os_ctx s) = Some b" and "int (length b) = N" and "flushing p N s"
    and "k \<le> length b" and "room_for (takeWhile occupied (drop k b) @ xs) s"
  shows "\<exists>s1. for_loop flush_to_end (flush_body ask) [int k .. N] s = Inr (s1, True)
    \<and> oc_outputBuffer (os_ctx s1) = Some (take k b @ empty_run (drop k b))
    \<and> os_written s1 = os_written s @ takeWhile occupied (drop k b)
    \<and> room_for xs s1 \<and> flushing p N s1"
proof -
  have "room_for (takeWhile occupied (drop k (take (length b) b)) @ xs) s"
    using assms(5) by simp
  then show ?thesis
    using flush_loop [OF assms(1,2,4) _ assms(3), of xs flush_to_end ask] assms(2)
      flush_to_end_cond [of p N] by simp
qed

lemma flush_front:
  assumes "oc_outputBuffer (os_ctx s) = Some b" and "int (length b) = N" and "flushing p N s"
    and "c_rem p N = Inr q" and "q < N" and "room_for (takeWhile occupied (take (nat q) b)) s"
  shows "\<exists>s1. for_loop flush_from_start (flush_body ask) [0 .. N] s = Inr (s1, True)
    \<and> oc_outputBuffer (os_ctx s1) = Some (empty_run (take (nat q) b) @ drop (nat q) b)
    \<and> os_written s1 = os_written s @ takeWhile occupied (take (nat q) b) \<and> flushing p N s1"
proof -
  have "room_for (takeWhile occupied (drop 0 (take (nat q) b)) @ []) s"
    using assms(6) by simp
  moreover have "int (nat q) \<le> N" using assms(2,5) by auto
  moreover have "flush_from_start t j =
      (if j < int (nat q) then bnd (slot_at t j) (\<lambda>c. Inr (ck_data c \<noteq> None)) else Inr False)"
    if "flushing p N t" "0 \<le> j" for t j
    using flush_from_start_cond [OF that(1) assms(4) that(2)] .
  ultimately show ?thesis
    using flush_loop [OF assms(1,2) le0 _ assms(3), of "nat q" "[]" flush_from_start ask] by auto
qed

lemma flush_refines:
  assumes "ctx_ok (os_ctx s)" and "oc_outputBuffer (os_ctx s) = Some b"
    and "room_for (flush_plan b (last_slot (os_ctx s))) s" and "\<forall>k. os_env s k \<noteq> - 1"
  shows "\<exists>s'. output_ffmpeg_buffer_flush ask s = Inr s'
    \<and> oc_outputBuffer (os_ctx s') = Some (flush_rest b (last_slot (os_ctx s)))
    \<and> os_written s' = os_written s @ flush_plan b (last_slot (os_ctx s))
    \<and> oc_playedChunk (os_ctx s') = oc_playedChunk (os_ctx s)"
proof -
  let ?N = "oc_outputBufferSize (os_ctx s)" and ?p = "oc_playedChunk (os_ctx s)"
    and ?q = "last_slot (os_ctx s)"
  let ?k = "nat (?q + 1)"
  let ?b1 = "take ?k b @ empty_run (drop ?k b)"
  note q = last_slot_range [OF assms(1)]
  have len: "int (length b) = ?N" using assms(1,2) by (auto simp: ctx_ok_def)
  have fl: "flushing ?p ?N s" using assms(4) by (simp add: flushing_def)
  have k: "?k \<le> length b" "int ?k = ?q + 1" "nat ?q \<le> ?k"
    using q(1,2) len by simp_all
  obtain s1 where l1: "for_loop flush_to_end (flush_body ask) [?q + 1 .. ?N] s = Inr (s1, True)"
    and b1: "oc_outputBuffer (os_ctx s1) = Some ?b1"
    and w1: "os_written s1 = os_written s @ takeWhile occupied (drop ?k b)"
    and r1: "room_for (takeWhile occupied (take (nat ?q) b)) s1" and f1: "flushing ?p ?N s1"
    using flush_behind [OF assms(2) len fl k(1)] assms(3) k(2) by (auto simp: flush_plan_def)
  have t1: "take (nat ?q) ?b1 = take (nat ?q) b"
    and d1: "drop (nat ?q) ?b1 = drop (nat ?q) (take ?k b) @ empty_run (drop ?k b)"
    using k(1,3) by (simp_all add: min_absorb1)
  have len1: "int (length ?b1) = ?N" using len k(1) by simp
  have "room_for (takeWhile occupied (take (nat ?q) ?b1)) s1"
    using r1 t1 by (simp only:)
  then obtain s2 where l2: "for_loop flush_from_start (flush_body ask) [0 .. ?N] s1 = Inr (s2, True)"
    and b2: "oc_outputBuffer (os_ctx s2) = Some (empty_run (take (nat ?q) ?b1) @ drop (nat ?q) ?b1)"
    and w2: "os_written s2 = os_written s1 @ takeWhile occupied (take (nat ?q) ?b1)"
    and f2: "flushing ?p ?N s2"
    using flush_front [OF b1 len1 f1 q(3,2)] by blast
  have "output_ffmpeg_buffer_flush ask s = Inr s2"
    using q(3) l1 l2 by (simp add: output_ffmpeg_buffer_flush_def)
  then show ?thesis
    using b2 w1 w2 f2 unfolding t1 d1 by (simp add: flush_rest_def flush_plan_def flushing_def)
qed

section \<open>Deliveries of chunks ahead of their turn\<close>

text \<open>The copy of a chunk that is kept in a slot.\<close>

definition kept_copy :: "chunk \<Rightarrow> byte list \<Rightarrow> chunk" where
  "kept_copy c d = c\<lparr>ck_data := Some (take (nat (ck_size c)) d)\<rparr>"

lemma room_seen [simp]: "room_for xs (set_slot i x (seen c s)) = room_for xs s"
  by (simp add: room_for_def)

lemma env_seen [simp]: "os_env (set_slot i x (seen c s)) = os_env s"
  by (simp add: set_slot_def seen_def set_max_def)

lemma deliver_ahead_refines:
  assumes "ctx_ok (os_ctx s)" and "oc_playedChunk (os_ctx s) + 1 < ck_id c"
    and "ck_id c \<le> INT_MAX" and "ck_id c \<noteq> fc"
    and "ck_data c = Some d" and "0 \<le> ck_size c" and "ck_size c \<le> int (length d)"
    and "oc_outputBuffer (os_ctx s) = Some b"
    and "i = nat (ck_id c mod oc_outputBufferSize (os_ctx s))" and "\<not> occupied (b ! i)"
    and "room_for (flush_plan (b[i := kept_copy c d]) (last_slot (os_ctx s))) s"
    and "\<forall>k. os_env s k \<noteq> - 1"
  shows "\<exists>s'. output_ffmpeg_deliver ask fc s c = Inr (0, s')
    \<and> oc_outputBuffer (os_ctx s') = Some (flush_rest (b[i := kept_copy c d]) (last_slot (os_ctx s)))
    \<and> os_written s' = os_written s @ flush_plan (b[i := kept_copy c d]) (last_slot (os_ctx s))
    \<and> oc_playedChunk (os_ctx s') = oc_playedChunk (os_ctx s)"
proof -
  define j where "j = ck_id c mod oc_outputBufferSize (os_ctx s)"
  let ?s1 = "set_slot j (kept_copy c d) (seen c s)"
  have j: "0 \<le> j" "j < int (length b)" "i = nat j"
    using assms(1,8,9) by (auto simp: j_def ctx_ok_def)
  then have sl: "slot_at (seen c s) j = Inr (b ! i)" using assms(8) by (simp add: slot_at_def)
  have copy: "sub_bytes d 0 (ck_size c) = Inr (take (nat (ck_size c)) d)"
    using assms(6,7) by simp
  have b1: "oc_outputBuffer (os_ctx ?s1) = Some (b[i := kept_copy c d])"
    using assms(8) j(3) by (simp add: set_slot_def)
  have "last_slot (os_ctx ?s1) = last_slot (os_ctx s)" by (simp add: last_slot_def)
  moreover have "ctx_ok (os_ctx ?s1)"
    unfolding kept_copy_def
    by (rule ctx_ok_store [OF assms(1) _ assms(3) j_def copy]) (use assms(1,2) in \<open>simp add: ctx_ok_def\<close>)
  ultimately obtain s' where f: "output_ffmpeg_buffer_flush ask ?s1 = Inr s'"
    and r: "oc_outputBuffer (os_ctx s') = Some (flush_rest (b[i := kept_copy c d]) (last_slot (os_ctx s)))"
      "os_written s' = os_written s @ flush_plan (b[i := kept_copy c d]) (last_slot (os_ctx s))"
      "oc_playedChunk (os_ctx s') = oc_playedChunk (os_ctx s)"
    using flush_refines [OF _ b1] assms(11,12) by auto
  have "output_ffmpeg_deliver ask fc s c = Inr (0, s')"
    using deliver_later [OF assms(1-4) j_def, of ask] sl assms(5,10) copy f
    by (simp add: occupied_def kept_copy_def)
  then show ?thesis using r by blast
qed

section \<open>Properties\<close>

text \<open>
  C9. What a delivery ahead of its turn plays, exactly: the new chunk goes into its slot, then
  the run of occupied slots behind the slot of the chunk played last is copied to the ring,
  then the run of occupied slots at the start of the buffer; these slots are emptied, the
  others and \<open>playedChunk\<close> stay as they are.  The two C loops refine this plan on lists
  whenever the ring has room for it and no call of \<open>output_ffmpeg_buffer_free\<close> happens to
  leave -1 as the value it does not return.
\<close>

theorem deliver_ahead_plays:
  assumes "ctx_ok (os_ctx s)" and "oc_playedChunk (os_ctx s) + 1 < ck_id c"
    and "ck_id c \<le> INT_MAX" and "ck_id c \<noteq> fc"
    and "ck_data c = Some d" and "0 \<le> ck_size c" and "ck_size c \<le> int (length d)"
    and "oc_outputBuffer (os_ctx s) = Some b"
    and "i = nat (ck_id c mod oc_outputBufferSize (os_ctx s))" and "\<not> occupied (b ! i)"
    and "room_for (flush_plan (b[i := kept_copy c d]) (last_slot (os_ctx s))) s"
    and "\<forall>k. os_env s k \<noteq> - 1"
  shows "\<exists>s'. output_ffmpeg_deliver ask fc s c = Inr (0, s')
    \<and> oc_outputBuffer (os_ctx s') = Some (flush_rest (b[i := kept_copy c d]) (last_slot (os_ctx s)))
    \<and> os_written s' = os_written s @ flush_plan (b[i := kept_copy c d]) (last_slot (os_ctx s))
    \<and> oc_playedChunk (os_ctx s') = oc_playedChunk (os_ctx s)"
  using assms by (rule deliver_ahead_refines)

definition ex_played :: "int \<Rightarrow> ostate" where
  "ex_played p = set_played p (set_max p (ex_out 0))"

lemma ex_played_ok: "0 \<le> p \<Longrightarrow> p \<le> INT_MAX \<Longrightarrow> ctx_ok (os_ctx (ex_played p))"
  using ctx_ok_set_max [OF ex_ctx_ok, of 0 p] ctx_ok_set_played [of "set_max p (ex_out 0)" p]
  by (simp add: ex_played_def set_max_def ex_ctx_def)

abbreviation ex_free :: chunk where
  "ex_free \<equiv> (ex_chunk 0)\<lparr>ck_data := None\<rparr>"

lemma ex_played_simps [simp]:
  "oc_outputBuffer (os_ctx (ex_played p)) = Some [ex_free, ex_free, ex_free]"
  "oc_outputBufferSize (os_ctx (ex_played p)) = 3" "oc_playedChunk (os_ctx (ex_played p)) = p"
  "os_written (ex_played p) = []" "os_env (ex_played p) k = 0"
  by (simp_all add: ex_played_def set_played_def set_max_def ex_ctx_def ex_out_def numeral_3_eq_3)

lemma ex_kept: "kept_copy (ex_chunk k) [1, 0, 16, 0, 16, 0, 25, 0, 1, 0, 65, 66] = ex_chunk k"
  by (simp add: kept_copy_def ex_chunk_def)

lemma ex_played_room: "room_for [ex_chunk k] (ex_played p)"
  using ex_playable ex_ring_out [of 0]
  by (auto simp: room_for_def ex_played_def set_max_def BUFFER_SIZE_def)

lemma ex_occupied [simp]: "occupied (ex_chunk k)" "\<not> occupied ex_free"
  by (simp_all add: occupied_def ex_chunk_def)

theorem deliver_ahead_plays_witness:
  "\<exists>s'. output_ffmpeg_deliver (\<lambda>k. Inr ()) 0 (ex_played 0) (ex_chunk 4) = Inr (0, s')
    \<and> os_written s' = [ex_chunk 4] \<and> oc_playedChunk (os_ctx s') = 0"
proof -
  have q: "last_slot (os_ctx (ex_played 0)) = 0"
    by (simp add: last_slot_def smod_nonneg)
  show ?thesis
    using deliver_ahead_plays [of "ex_played 0" "ex_chunk 4" 0
        "[1, 0, 16, 0, 16, 0, 25, 0, 1, 0, 65, 66]" "[ex_free, ex_free, ex_free]" 1 "\<lambda>k. Inr ()"]
      ex_played_ok [of 0] ex_played_room [of 4 0]
    by (auto simp: q ex_kept ex_data INT_MAX_def flush_plan_def)
qed

text \<open>
  C26. Chunks are played too early: while a chunk is missing right behind the one played last,
  a later chunk that falls into slot 0 is copied to the ring by its own delivery, whatever
  the number of chunks missing before it, because the second loop of the flush does not
  look at ids.
\<close>

theorem deliver_plays_early:
  assumes "ctx_ok (os_ctx s)" and "oc_playedChunk (os_ctx s) + 1 < ck_id c"
    and "ck_id c \<le> INT_MAX" and "ck_id c \<noteq> fc"
    and "ck_data c = Some d" and "0 \<le> ck_size c" and "ck_size c \<le> int (length d)"
    and "oc_outputBuffer (os_ctx s) = Some b" and "ck_id c mod oc_outputBufferSize (os_ctx s) = 0"
    and "p = nat (oc_playedChunk (os_ctx s) mod oc_outputBufferSize (os_ctx s))" and "0 < p"
    and "0 \<le> oc_playedChunk (os_ctx s)" and "Suc p < length b"
    and "\<not> occupied (b ! 0)" and "\<not> occupied (b ! Suc p)"
    and "room_for (kept_copy c d # takeWhile occupied (take (p - 1) (tl b))) s"
    and "\<forall>k. os_env s k \<noteq> - 1"
  shows "\<exists>s'. output_ffmpeg_deliver ask fc s c = Inr (0, s')
    \<and> os_written s' = os_written s @ kept_copy c d # takeWhile occupied (take (p - 1) (tl b))
    \<and> oc_playedChunk (os_ctx s') = oc_playedChunk (os_ctx s)"
proof -
  let ?x = "kept_copy c d"
  have q: "last_slot (os_ctx s) = int p"
    using assms(1,10,12) smod_nonneg by (simp add: last_slot_def ctx_ok_def)
  obtain y ys where b: "b = y # ys" using assms(13) by (cases b) auto
  obtain k where k: "p = Suc k" using assms(11) by (cases p) auto
  have "drop (Suc p) b = b ! Suc p # drop (Suc (Suc p)) b"
    using assms(13) by (simp add: Cons_nth_drop_Suc)
  then have "takeWhile occupied (drop (Suc p) (b[0 := ?x])) = []"
    using assms(15) by simp
  moreover have "nat (int p + 1) = Suc p" and "nat (int p) = Suc k" using k by simp_all
  ultimately have "flush_plan (b[0 := ?x]) (last_slot (os_ctx s))
      = ?x # takeWhile occupied (take (p - 1) (tl b))"
    unfolding q flush_plan_def by (simp only:) (simp add: b k occupied_def kept_copy_def)
  then show ?thesis
    using deliver_ahead_refines [OF assms(1-8), of 0 ask] assms(9,14,16,17) by auto
qed

theorem deliver_plays_early_witness:
  "\<exists>s'. output_ffmpeg_deliver (\<lambda>k. Inr ()) 0 (ex_played 1) (ex_chunk 3) = Inr (0, s')
    \<and> os_written s' = [ex_chunk 3] \<and> oc_playedChunk (os_ctx s') = 1"
  using deliver_plays_early [of "ex_played 1" "ex_chunk 3" 0
      "[1, 0, 16, 0, 16, 0, 25, 0, 1, 0, 65, 66]" "[ex_free, ex_free, ex_free]" 1 "\<lambda>k. Inr ()"]
    ex_played_ok [of 1] ex_played_room [of 3 1]
  by (auto simp: ex_kept ex_data INT_MAX_def)

end
