(* ===== verification/Player_Receiver.thy ===== *)
theory Player_Receiver
  imports Playout Input_P2p
begin

text \<open>
  The player's thread in \<open>p2p_plugin_read\<close> (\<open>src/input_p2p.c\<close>) and the receiving thread in
  \<open>output_ffmpeg_write_chunk\<close> (\<open>src/output_ffmpeg.c\<close>) running side by side on one ring, with
  the mutex \<open>buffer_ring_mutex\<close> and the condition variables \<open>reader_cond\<close> and
  \<open>writer_cond\<close>.  A step is one stay of a thread inside the mutex, up to where it waits or
  unlocks; a signal makes a waiting thread go on.
\<close>

section \<open>The interleaved system\<close>

text \<open>
  Where each thread is.  The reader's number is what is left of \<open>nlen\<close>; after a wake-up it
  does not look at \<open>buffer_count\<close> again (the code has an \<open>if\<close>), while the writer locks the
  mutex again as at the start of its \<open>while\<close>.
\<close>

datatype reader = Reader_Idle | Reader_Locking int | Reader_Waiting int | Reader_Woken int

datatype writer =
    Writer_Idle
  | Writer_Locking "byte list" int int
  | Writer_Waiting "byte list" int int

record shared =
  sh_ring :: ring
  sh_reader :: reader
  sh_writer :: writer
  sh_in :: "byte list"
  sh_out :: "byte list"

definition signal_reader :: "reader \<Rightarrow> reader" where
  "signal_reader t = (case t of Reader_Waiting n \<Rightarrow> Reader_Woken n | _ \<Rightarrow> t)"

definition signal_writer :: "writer \<Rightarrow> writer" where
  "signal_writer t = (case t of Writer_Waiting d n k \<Rightarrow> Writer_Locking d n k | _ \<Rightarrow> t)"

text \<open>
  \<open>Call\<close> is a call from outside, \<open>Work\<close> a step inside the mutex, \<open>Timer\<close> a wake-up without
  a signal: a timeout, or a spurious one.
\<close>

datatype label = Call | Work | Timer

inductive shared_step :: "label \<Rightarrow> shared \<Rightarrow> shared \<Rightarrow> bool" where
  call_read: "sh_reader s = Reader_Idle \<Longrightarrow> 0 < n \<Longrightarrow>
     shared_step Call s (s\<lparr>sh_reader := Reader_Locking n\<rparr>)"
| read_sleeps: "sh_reader s = Reader_Locking n \<Longrightarrow> rb_count (sh_ring s) = 0 \<Longrightarrow>
     shared_step Work s (s\<lparr>sh_reader := Reader_Waiting n\<rparr>)"
| read_takes: "sh_reader s = Reader_Locking n \<and> rb_count (sh_ring s) \<noteq> 0
       \<or> sh_reader s = Reader_Woken n \<Longrightarrow>
     ring_take (sh_ring s) n = Inr (bs, r) \<Longrightarrow>
     shared_step Work s (s\<lparr>sh_ring := r, sh_out := sh_out s @ bs,
       sh_reader := (if 0 < n - int (length bs) then Reader_Locking (n - int (length bs))
                     else Reader_Idle),
       sh_writer := signal_writer (sh_writer s)\<rparr>)"
| read_timeout: "sh_reader s = Reader_Waiting n \<Longrightarrow>
     shared_step Timer s (s\<lparr>sh_reader := Reader_Idle\<rparr>)"
| read_spurious: "sh_reader s = Reader_Waiting n \<Longrightarrow>
     shared_step Timer s (s\<lparr>sh_reader := Reader_Woken n\<rparr>)"
| call_write: "sh_writer s = Writer_Idle \<Longrightarrow> 0 \<le> k \<Longrightarrow> k \<le> n \<Longrightarrow> n \<le> int (length d) \<Longrightarrow>
     n \<le> BUFFER_SIZE \<Longrightarrow> shared_step Call s (s\<lparr>sh_writer := Writer_Locking d n k\<rparr>)"
| write_sleeps: "sh_writer s = Writer_Locking d n k \<Longrightarrow>
     rb_max (sh_ring s) - rb_count (sh_ring s) < n \<Longrightarrow>
     shared_step Work s (s\<lparr>sh_writer := Writer_Waiting d n k\<rparr>)"
| write_puts: "sh_writer s = Writer_Locking d n k \<Longrightarrow>
     n \<le> rb_max (sh_ring s) - rb_count (sh_ring s) \<Longrightarrow> ring_put d n k (sh_ring s) = Inr r \<Longrightarrow>
     shared_step Work s (s\<lparr>sh_ring := r, sh_in := sh_in s @ payload d n k,
       sh_writer := Writer_Idle, sh_reader := signal_reader (sh_reader s)\<rparr>)"
| write_timer: "sh_writer s = Writer_Waiting d n k \<Longrightarrow>
     shared_step Timer s (s\<lparr>sh_writer := Writer_Locking d n k\<rparr>)"

inductive_cases shared_stepE: "shared_step l s s'"

definition any_step :: "shared \<Rightarrow> shared \<Rightarrow> bool" where
  "any_step s s' \<longleftrightarrow> (\<exists>l. shared_step l s s')"

definition shared_start :: "bytes \<Rightarrow> shared" where
  "shared_start m = \<lparr>sh_ring = ring_new m, sh_reader = Reader_Idle, sh_writer = Writer_Idle,
     sh_in = [], sh_out = []\<rparr>"

section \<open>Invariant\<close>

fun reader_ok :: "ring \<Rightarrow> reader \<Rightarrow> bool" where
  "reader_ok r Reader_Idle = True"
| "reader_ok r (Reader_Locking n) = (0 < n)"
| "reader_ok r (Reader_Waiting n) = (0 < n \<and> rb_count r = 0)"
| "reader_ok r (Reader_Woken n) = (0 < n)"

fun writer_ok :: "ring \<Rightarrow> writer \<Rightarrow> bool" where
  "writer_ok r Writer_Idle = True"
| "writer_ok r (Writer_Locking d n k) =
     (0 \<le> k \<and> k \<le> n \<and> n \<le> int (length d) \<and> n \<le> BUFFER_SIZE)"
| "writer_ok r (Writer_Waiting d n k) =
     (0 \<le> k \<and> k \<le> n \<and> n \<le> int (length d) \<and> n \<le> BUFFER_SIZE \<and> rb_max r - rb_count r < n)"

definition shared_ok :: "shared \<Rightarrow> bool" where
  "shared_ok s \<longleftrightarrow> ring_ok (sh_ring s) \<and> reader_ok (sh_ring s) (sh_reader s)
     \<and> writer_ok (sh_ring s) (sh_writer s)
     \<and> int (length (sh_out s)) + rb_count (sh_ring s) = int (length (sh_in s))"

lemma take_count:
  assumes "ring_ok r" and "0 \<le> n" and "ring_take r n = Inr (bs, r')"
  shows "ring_ok r' \<and> rb_count r = int (length bs) + rb_count r' \<and> int (length bs) \<le> n"
proof -
  have ok: "ring_ok r'" and l: "int (length bs) \<le> n" and c: "contents r = bs @ contents r'"
    using rq.tk_ok rq.tk_prefix rq.tk_bound assms by blast+
  have "0 \<le> rb_count r" and "0 \<le> rb_count r'"
    using ok assms(1) by (simp_all add: ring_ok_def)
  then have "rb_count r = int (length bs) + rb_count r'"
    using arg_cong [OF c, of "\<lambda>xs. int (length xs)"] by simp
  then show ?thesis using ok l by simp
qed

lemma put_count:
  assumes "ring_put d n k r = Inr r'"
  shows "rb_count r' = rb_count r + (n - k) \<and> rb_get r' = rb_get r \<and> rb_max r' = rb_max r"
  using assms by (auto simp: ring_put_def Let_def cint_Inr split: if_splits)

lemma reader_ok_signal: "reader_ok r t \<Longrightarrow> reader_ok r' (signal_reader t)"
  by (cases t) (simp_all add: signal_reader_def)

lemma writer_ok_signal: "writer_ok r t \<Longrightarrow> writer_ok r' (signal_writer t)"
  by (cases t) (simp_all add: signal_writer_def)

lemma shared_ok_takes:
  assumes "shared_ok s" and "0 < n" and "ring_take (sh_ring s) n = Inr (bs, r)"
  shows "shared_ok (s\<lparr>sh_ring := r, sh_out := sh_out s @ bs,
       sh_reader := (if 0 < n - int (length bs) then Reader_Locking (n - int (length bs))
                     else Reader_Idle),
       sh_writer := signal_writer (sh_writer s)\<rparr>)"
  using assms take_count [of "sh_ring s" n bs r] writer_ok_signal [of "sh_ring s" "sh_writer s" r]
  by (simp add: shared_ok_def)

lemma shared_ok_puts:
  assumes "shared_ok s" and "sh_writer s = Writer_Locking d n k"
    and "n \<le> rb_max (sh_ring s) - rb_count (sh_ring s)" and "ring_put d n k (sh_ring s) = Inr r"
  shows "shared_ok (s\<lparr>sh_ring := r, sh_in := sh_in s @ payload d n k,
       sh_writer := Writer_Idle, sh_reader := signal_reader (sh_reader s)\<rparr>)"
  using assms put_count [OF assms(4)] reader_ok_signal [of "sh_ring s" "sh_reader s" r]
  by (auto simp: shared_ok_def ring_ok_def payload_def)

lemma shared_ok_step:
  assumes "shared_step l s s'" and "shared_ok s"
  shows "shared_ok s'"
  using assms(1)
proof cases
  case (read_takes n bs r)
  then have "0 < n" using assms(2) by (auto simp: shared_ok_def)
  then show ?thesis using shared_ok_takes assms(2) read_takes by simp
next
  case (write_puts d n k r)
  then show ?thesis using shared_ok_puts assms(2) by simp
qed (use assms(2) in \<open>auto simp: shared_ok_def\<close>)

lemma shared_ok_reachable:
  "any_step\<^sup>*\<^sup>* (shared_start m) s \<Longrightarrow> shared_ok s"
proof (induction rule: rtranclp_induct)
  case base
  show ?case by (simp add: shared_ok_def shared_start_def ring_ok_def ring_new_def less_imp_le)
next
  case (step s s')
  then show ?case using shared_ok_step by (auto simp: any_step_def)
qed

text \<open>A thread inside its loop that does not wait can take its step.\<close>

lemma reader_takes_moves:
  assumes "shared_ok s" and "0 < n"
    and "sh_reader s = Reader_Locking n \<and> rb_count (sh_ring s) \<noteq> 0 \<or> sh_reader s = Reader_Woken n"
  shows "\<exists>s'. shared_step Work s s' \<and> sh_reader s' \<noteq> sh_reader s"
proof -
  have ok: "ring_ok (sh_ring s)" using assms(1) by (simp add: shared_ok_def)
  obtain bs r where t: "ring_take (sh_ring s) n = Inr (bs, r)"
    using rq.tk_total ok assms(2) by (meson less_imp_le)
  have "bs \<noteq> []" if "rb_count (sh_ring s) \<noteq> 0"
    using rq.tk_progress [OF ok assms(2) t] that ok by (auto simp: contents_Nil_iff ring_ok_def)
  then have "sh_reader s = Reader_Locking n \<Longrightarrow> 0 < length bs" using assms(3) by auto
  then show ?thesis
    using read_takes [OF assms(3) t] assms(3) by (intro exI conjI) (auto split: if_splits)
qed

lemma reader_moves:
  assumes "shared_ok s" and "sh_reader s = Reader_Locking n \<or> sh_reader s = Reader_Woken n"
  shows "\<exists>s'. shared_step Work s s' \<and> sh_reader s' \<noteq> sh_reader s"
proof (cases "sh_reader s = Reader_Locking n \<and> rb_count (sh_ring s) = 0")
  case True
  then have "shared_step Work s (s\<lparr>sh_reader := Reader_Waiting n\<rparr>)"
    using read_sleeps by blast
  then show ?thesis using True by fastforce
next
  case False
  moreover have "0 < n" using assms by (auto simp: shared_ok_def)
  ultimately show ?thesis using reader_takes_moves assms by blast
qed

lemma writer_moves:
  assumes "sh_writer s = Writer_Locking d n k"
  shows "(\<exists>s'. shared_step Work s s' \<and> sh_writer s' \<noteq> sh_writer s)
    \<or> (\<exists>e. ring_put d n k (sh_ring s) = Inl e)"
proof (cases "rb_max (sh_ring s) - rb_count (sh_ring s) < n")
  case True
  then have "shared_step Work s (s\<lparr>sh_writer := Writer_Waiting d n k\<rparr>)"
    using write_sleeps assms by blast
  then show ?thesis using assms by fastforce
next
  case False
  show ?thesis
  proof (cases "ring_put d n k (sh_ring s)")
    case (Inr r)
    then show ?thesis using write_puts [OF assms] False assms by fastforce
  qed blast
qed

section \<open>Properties\<close>

text \<open>
  C6. The two threads never lose a wake-up and never wait for each other, and no byte is
  lost or made up between them: in every reachable state of the interleaved system whose
  chunks are no longer than the ring, a reader that waits has an empty ring, a writer that
  waits has too little space, they do not both wait, the bytes taken out and the bytes
  counted in the ring add up to the bytes put in, and a thread inside its loop that does
  not wait can take its step, unless the writer's copy is out of bounds.
\<close>

theorem player_receiver_progress:
  assumes "any_step\<^sup>*\<^sup>* (shared_start m) s"
  shows "(\<forall>n. sh_reader s = Reader_Waiting n \<longrightarrow> rb_count (sh_ring s) = 0)
    \<and> (\<forall>d n k. sh_writer s = Writer_Waiting d n k \<longrightarrow> rb_max (sh_ring s) - rb_count (sh_ring s) < n)
    \<and> \<not> ((\<exists>n. sh_reader s = Reader_Waiting n) \<and> (\<exists>d n k. sh_writer s = Writer_Waiting d n k))
    \<and> int (length (sh_out s)) + rb_count (sh_ring s) = int (length (sh_in s))
    \<and> (\<forall>n. sh_reader s = Reader_Locking n \<or> sh_reader s = Reader_Woken n \<longrightarrow>
         (\<exists>s'. shared_step Work s s' \<and> sh_reader s' \<noteq> sh_reader s))
    \<and> (\<forall>d n k. sh_writer s = Writer_Locking d n k \<longrightarrow>
         (\<exists>s'. shared_step Work s s' \<and> sh_writer s' \<noteq> sh_writer s)
         \<or> (\<exists>e. ring_put d n k (sh_ring s) = Inl e))"
proof -
  have ok: "shared_ok s" using shared_ok_reachable [OF assms] .
  then have "\<not> ((\<exists>n. sh_reader s = Reader_Waiting n) \<and> (\<exists>d n k. sh_writer s = Writer_Waiting d n k))"
    by (auto simp: shared_ok_def ring_ok_def)
  moreover have "int (length (sh_out s)) + rb_count (sh_ring s) = int (length (sh_in s))"
    using ok by (simp add: shared_ok_def)
  moreover have "\<forall>n. sh_reader s = Reader_Waiting n \<longrightarrow> rb_count (sh_ring s) = 0"
    and "\<forall>d n k. sh_writer s = Writer_Waiting d n k \<longrightarrow> rb_max (sh_ring s) - rb_count (sh_ring s) < n"
    using ok by (auto simp: shared_ok_def)
  ultimately show ?thesis
    using reader_moves [OF ok] writer_moves by blast
qed

text \<open>A run: the player asks for two bytes and waits, a chunk arrives, the player is woken.\<close>

definition ex_data_bytes :: "byte list" where
  "ex_data_bytes = [1, 0, 16, 0, 16, 0, 25, 0, 1, 0, 65, 66]"

definition ex_waiting :: shared where
  "ex_waiting = (shared_start (\<lambda>_. 0))\<lparr>sh_reader := Reader_Waiting 2,
     sh_writer := Writer_Locking ex_data_bytes 12 10\<rparr>"

lemma ex_waiting_reachable: "any_step\<^sup>*\<^sup>* (shared_start (\<lambda>_. 0)) ex_waiting"
proof -
  let ?s0 = "shared_start (\<lambda>_. 0)"
  let ?s1 = "?s0\<lparr>sh_reader := Reader_Locking 2\<rparr>"
  let ?s2 = "?s1\<lparr>sh_reader := Reader_Waiting 2\<rparr>"
  let ?s3 = "?s2\<lparr>sh_writer := Writer_Locking ex_data_bytes 12 10\<rparr>"
  have "shared_step Call ?s0 ?s1"
    by (rule call_read) (simp_all add: shared_start_def)
  moreover have "shared_step Work ?s1 ?s2"
    by (rule read_sleeps) (simp_all add: shared_start_def ring_new_def)
  moreover have "shared_step Call ?s2 ?s3"
    by (rule call_write) (simp_all add: shared_start_def ex_data_bytes_def BUFFER_SIZE_def)
  moreover have "?s3 = ex_waiting" by (simp add: ex_waiting_def)
  ultimately show ?thesis
    by (metis any_step_def rtranclp.rtrancl_into_rtrancl rtranclp.rtrancl_refl)
qed

theorem player_receiver_progress_witness:
  "rb_count (sh_ring ex_waiting) = 0
    \<and> ((\<exists>s'. shared_step Work ex_waiting s' \<and> sh_writer s' \<noteq> sh_writer ex_waiting)
       \<or> (\<exists>e. ring_put ex_data_bytes 12 10 (sh_ring ex_waiting) = Inl e))"
  using player_receiver_progress [OF ex_waiting_reachable] by (simp add: ex_waiting_def)

end
