(* ===== verification/Schedules.thy ===== *)
theory Schedules
  imports Player_Receiver
begin

text \<open>
  The loops of \<open>p2p_plugin_read\<close> and \<open>output_ffmpeg_write_chunk\<close> are modelled on schedules,
  lists of what other threads did to the ring.  Here: what a thread does in the interleaved
  system of theory \<open>Player_Receiver\<close> is what its function does on a schedule.  For the reader it
  is shown that there is one.  For the writer it is the schedule read off the run: one change
  per stay in the mutex, which turns the ring the writer left into the ring it finds; these
  changes are draining, so the properties for draining schedules hold of every interleaving.
\<close>

section \<open>The reader\<close>

text \<open>Steps while the call of the reader lasts, and the rest of a round inside the mutex.\<close>

definition reading_step :: "shared \<Rightarrow> shared \<Rightarrow> bool" where
  "reading_step s s' \<longleftrightarrow> sh_reader s \<noteq> Reader_Idle \<and> any_step s s'"

definition read_round ::
  "int \<Rightarrow> bytes \<Rightarrow> int \<Rightarrow> int \<Rightarrow> int \<Rightarrow> bool \<times> ring \<times> interference list
     \<Rightarrow> (bool \<times> bytes \<times> int \<times> ring \<times> interference list) res"
where
  "read_round cap dst buf copied n = (\<lambda>(t, r1, es1).
     if t then Inr (True, dst, copied, r1, es1)
     else bnd (ring_take r1 n) (\<lambda>(bs, r2).
          bnd (store cap dst buf bs) (\<lambda>dst1.
          read_loop cap dst1 (buf + int (length bs)) (copied + int (length bs))
            (n - int (length bs)) r2 es1)))"

lemma read_loop_empty:
  "0 < n \<Longrightarrow> rb_count r = 0 \<Longrightarrow>
     read_loop cap dst buf copied n r0 ((u, \<lambda>_. r) # (t, \<lambda>_. r1) # es)
       = read_round cap dst buf copied n (t, r1, es)"
  by (subst read_loop.simps) (simp add: lock_ring_def cond_wait_def read_round_def)

lemma read_loop_filled:
  "0 < n \<Longrightarrow> rb_count r \<noteq> 0 \<Longrightarrow>
     read_loop cap dst buf copied n r0 ((u, \<lambda>_. r) # es) = read_round cap dst buf copied n (False, r, es)"
  by (subst read_loop.simps) (simp add: lock_ring_def read_round_def)

lemma read_loop_done: "n \<le> 0 \<Longrightarrow> read_loop cap dst buf copied n r es = Inr (False, dst, copied, r, es)"
  by (subst read_loop.simps) simp

lemma ring_take_length:
  assumes "ring_take r n = Inr (bs, r')" and "0 \<le> n"
  shows "int (length bs) \<le> n"
  using assms by (auto simp: ring_take_def Let_def load_Inr split: if_splits)

text \<open>
  What a run of the function should give: the bytes the reader takes from \<open>s\<close> to \<open>s'\<close> are
  in the caller's buffer, and the ring is the one of \<open>s'\<close>.  \<open>covered\<close> says that from where
  the reader is in \<open>s\<close> some schedule makes the function do so.
\<close>

definition outcome ::
  "shared \<Rightarrow> shared \<Rightarrow> bytes \<Rightarrow> int \<Rightarrow> int \<Rightarrow> (bool \<times> bytes \<times> int \<times> ring \<times> interference list) res
     \<Rightarrow> bool"
where
  "outcome s s' dst buf copied v \<longleftrightarrow>
     (\<exists>bs t. sh_out s' = sh_out s @ bs
        \<and> v = Inr (t, mem_put dst buf bs, copied + int (length bs), sh_ring s', []))"

fun covered :: "int \<Rightarrow> reader \<Rightarrow> shared \<Rightarrow> shared \<Rightarrow> bool" where
  "covered cap Reader_Idle s s' = (s = s')"
| "covered cap (Reader_Locking n) s s' =
     (\<forall>dst buf copied r0. 0 < n \<longrightarrow> 0 \<le> buf \<longrightarrow> buf + n \<le> cap \<longrightarrow>
        (\<exists>es. outcome s s' dst buf copied (read_loop cap dst buf copied n r0 es)))"
| "covered cap (Reader_Waiting n) s s' =
     (\<forall>dst buf copied. 0 < n \<longrightarrow> 0 \<le> buf \<longrightarrow> buf + n \<le> cap \<longrightarrow>
        (\<exists>t r es. outcome s s' dst buf copied (read_round cap dst buf copied n (t, r, es))))"
| "covered cap (Reader_Woken n) s s' =
     (\<forall>dst buf copied. 0 < n \<longrightarrow> 0 \<le> buf \<longrightarrow> buf + n \<le> cap \<longrightarrow>
        (\<exists>r es. outcome s s' dst buf copied (read_round cap dst buf copied n (False, r, es))))"

lemma outcome_out: "sh_out s1 = sh_out s \<Longrightarrow> outcome s1 s' dst buf copied v = outcome s s' dst buf copied v"
  by (simp add: outcome_def)

lemma covered_out:
  assumes "sh_out s1 = sh_out s" and "t \<noteq> Reader_Idle" and "covered cap t s1 s'"
  shows "covered cap t s s'"
  using assms(2,3) by (cases t) (simp_all only: covered.simps outcome_out [OF assms(1)] simp_thms)

lemma covered_woken:
  assumes "covered cap (Reader_Woken n) s s'"
  shows "covered cap (Reader_Waiting n) s s'"
  unfolding covered.simps
proof (intro allI impI)
  fix dst buf copied assume "0 < n" "0 \<le> buf" "buf + n \<le> cap"
  then obtain r es where "outcome s s' dst buf copied (read_round cap dst buf copied n (False, r, es))"
    using assms unfolding covered.simps by metis
  then show "\<exists>t r es. outcome s s' dst buf copied (read_round cap dst buf copied n (t, r, es))"
    by (intro exI)
qed

lemma covered_signal: "covered cap (signal_reader t) s s' \<Longrightarrow> covered cap t s s'"
  using covered_woken by (cases t) (simp_all only: signal_reader_def reader.simps)

text \<open>A round that takes bytes, and what follows it.\<close>

lemma covered_take:
  assumes t: "ring_take (sh_ring s) n = Inr (bs, r)" and n: "0 < n" "0 \<le> buf" "buf + n \<le> cap"
    and s1: "sh_out s1 = sh_out s @ bs" "sh_ring s1 = r"
    and c: "covered cap (if 0 < n - int (length bs) then Reader_Locking (n - int (length bs))
                 else Reader_Idle) s1 s'"
  shows "\<exists>es. outcome s s' dst buf copied (read_round cap dst buf copied n (False, sh_ring s, es))"
proof -
  let ?k = "int (length bs)"
  have le: "?k \<le> n" using ring_take_length [OF t] n by simp
  have st: "store cap dst buf bs = Inr (mem_put dst buf bs)" using n le by simp
  have run: "read_round cap dst buf copied n (False, sh_ring s, es)
      = read_loop cap (mem_put dst buf bs) (buf + ?k) (copied + ?k) (n - ?k) r es" for es
    using t st by (simp add: read_round_def)
  show ?thesis
  proof (cases "0 < n - ?k")
    case True
    then obtain es where "outcome s1 s' (mem_put dst buf bs) (buf + ?k) (copied + ?k)
        (read_loop cap (mem_put dst buf bs) (buf + ?k) (copied + ?k) (n - ?k) r es)"
      using c n by fastforce
    then obtain bs1 t1 where "sh_out s' = sh_out s1 @ bs1"
      and "read_loop cap (mem_put dst buf bs) (buf + ?k) (copied + ?k) (n - ?k) r es
        = Inr (t1, mem_put (mem_put dst buf bs) (buf + ?k) bs1, copied + ?k + int (length bs1),
               sh_ring s', [])"
      unfolding outcome_def by blast
    then have "outcome s s' dst buf copied
        (read_loop cap (mem_put dst buf bs) (buf + ?k) (copied + ?k) (n - ?k) r es)"
      using s1(1) unfolding outcome_def
      by (intro exI [of _ "bs @ bs1"] exI [of _ t1]) (simp add: mem_put_append)
    then show ?thesis using run by auto
  next
    case False
    then have "outcome s s' dst buf copied
        (read_loop cap (mem_put dst buf bs) (buf + ?k) (copied + ?k) (n - ?k) r [])"
      using c s1 by (auto simp: outcome_def read_loop_done)
    then show ?thesis using run by auto
  qed
qed

lemma covered_sleeps:
  assumes "sh_reader s = Reader_Locking n" and "rb_count (sh_ring s) = 0"
    and "sh_out s1 = sh_out s" and "covered cap (Reader_Waiting n) s1 s'"
  shows "covered cap (Reader_Locking n) s s'"
  unfolding covered.simps
proof (intro allI impI)
  fix dst buf copied r0 assume n: "0 < n" "0 \<le> buf" "buf + n \<le> cap"
  then obtain t r es where "outcome s1 s' dst buf copied (read_round cap dst buf copied n (t, r, es))"
    using assms(4) unfolding covered.simps by metis
  then have "outcome s s' dst buf copied
      (read_loop cap dst buf copied n r0 ((False, \<lambda>_. sh_ring s) # (t, \<lambda>_. r) # es))"
    using assms(2) n(1) outcome_out [OF assms(3)] by (simp add: read_loop_empty)
  then show "\<exists>es. outcome s s' dst buf copied (read_loop cap dst buf copied n r0 es)" ..
qed

lemma covered_takes:
  assumes "sh_reader s = Reader_Locking n \<and> rb_count (sh_ring s) \<noteq> 0 \<or> sh_reader s = Reader_Woken n"
    and "ring_take (sh_ring s) n = Inr (bs, r)" and "sh_out s1 = sh_out s @ bs" and "sh_ring s1 = r"
    and "covered cap (if 0 < n - int (length bs) then Reader_Locking (n - int (length bs))
           else Reader_Idle) s1 s'"
  shows "covered cap (sh_reader s) s s'"
proof -
  have tk: "\<exists>es. outcome s s' dst buf copied (read_round cap dst buf copied n (False, sh_ring s, es))"
    if "0 < n" "0 \<le> buf" "buf + n \<le> cap" for dst buf copied
    using covered_take [OF assms(2) that assms(3,4,5)] .
  show ?thesis
  proof (cases "sh_reader s = Reader_Woken n")
    case True
    show ?thesis unfolding True covered.simps using tk by blast
  next
    case False
    then have l: "sh_reader s = Reader_Locking n" "rb_count (sh_ring s) \<noteq> 0"
      using assms(1) by simp_all
    have "\<exists>es. outcome s s' dst buf copied (read_loop cap dst buf copied n r0 es)"
      if "0 < n" "0 \<le> buf" "buf + n \<le> cap" for dst buf copied r0
      using tk [OF that] read_loop_filled [OF that(1) l(2)] by metis
    then show ?thesis unfolding l(1) covered.simps by blast
  qed
qed

lemma covered_timeout:
  "covered cap Reader_Idle s1 s' \<Longrightarrow> sh_out s1 = sh_out s \<Longrightarrow> sh_ring s1 = sh_ring s \<Longrightarrow>
     covered cap (Reader_Waiting n) s s'"
  unfolding covered.simps
  by (intro allI impI exI [of _ True] exI [of _ "sh_ring s"] exI [of _ "[]"])
    (auto simp: outcome_def read_round_def)

lemma covered_step:
  assumes "reading_step s s1" and c: "covered cap (sh_reader s1) s1 s'"
  shows "covered cap (sh_reader s) s s'"
proof -
  obtain l where st: "shared_step l s s1" and busy: "sh_reader s \<noteq> Reader_Idle"
    using assms(1) by (auto simp: reading_step_def any_step_def)
  note same = covered_out [OF _ busy, of s1 s cap s']
  from st show ?thesis
  proof cases
    case (read_sleeps n)
    then show ?thesis using covered_sleeps [of s n s1] c by simp
  next
    case (read_takes n bs r)
    show ?thesis
      by (rule covered_takes [OF read_takes(3,4), of s1]) (use c read_takes(2) in simp_all)
  next
    case (read_timeout n)
    have "covered cap Reader_Idle s1 s'" using c read_timeout(2) by simp
    then show ?thesis
      unfolding read_timeout(3) by (rule covered_timeout) (simp_all add: read_timeout(2))
  next
    case (read_spurious n)
    then have "covered cap (Reader_Woken n) s s'"
      using c covered_out [of s1 s "Reader_Woken n" cap s'] by simp
    then show ?thesis using covered_woken read_spurious(3) by simp
  next
    case (write_puts d n k r)
    then have "covered cap (signal_reader (sh_reader s)) s1 s'" using c by simp
    then have "covered cap (sh_reader s) s1 s'" by (rule covered_signal)
    then show ?thesis using same write_puts(2) by simp
  next
    case (call_read n)
    then show ?thesis using busy by simp
  qed (use c same in simp_all)
qed

lemma covered_run:
  assumes "reading_step\<^sup>*\<^sup>* s s'" and "sh_reader s' = Reader_Idle"
  shows "covered cap (sh_reader s) s s'"
  using assms(1)
proof (induction rule: converse_rtranclp_induct)
  case base
  then show ?case using assms(2) by simp
next
  case (step s s1)
  then show ?case using covered_step by blast
qed

section \<open>The writer\<close>

text \<open>
  A run while the call of the writer lasts, with the rings the writer finds, one for each of
  its stays in the mutex: when it locks, and after each wait.  A stay is a step from
  \<open>Writer_Locking\<close> that changes where the writer is.
\<close>

definition found :: "shared \<Rightarrow> shared \<Rightarrow> ring list" where
  "found s s' = (case sh_writer s of
     Writer_Locking d n k \<Rightarrow> if sh_writer s' \<noteq> sh_writer s then [sh_ring s] else []
   | _ \<Rightarrow> [])"

inductive writing_run :: "shared \<Rightarrow> ring list \<Rightarrow> shared \<Rightarrow> bool" where
  returned: "sh_writer s = Writer_Idle \<Longrightarrow> writing_run s [] s"
| goes: "sh_writer s \<noteq> Writer_Idle \<Longrightarrow> any_step s s1 \<Longrightarrow> writing_run s1 rs s' \<Longrightarrow>
     writing_run s (found s s1 @ rs) s'"

text \<open>
  The schedule of such a run: each of its changes turns the ring that the writer left, or had
  at the call, into the one it finds next, and changes no other ring.
\<close>

fun schedule :: "ring \<Rightarrow> ring list \<Rightarrow> interference list" where
  "schedule p [] = []"
| "schedule p (r # rs) = (False, id(p := r)) # schedule r rs"

text \<open>
  What the function does from the lock on: the wait uses up the schedule, and the copy into
  the ring it ends with gives the ring of \<open>s'\<close>.
\<close>

definition waits :: "byte list \<Rightarrow> int \<Rightarrow> int \<Rightarrow> ring list \<Rightarrow> shared \<Rightarrow> shared \<Rightarrow> bool" where
  "waits d n k rs s s' \<longleftrightarrow> (\<exists>r rs1 q. rs = r # rs1 \<and> wait_space n r (schedule r rs1) = Inr (q, [])
     \<and> ring_put d n k q = Inr (sh_ring s') \<and> sh_in s' = sh_in s @ payload d n k)"

fun wcovered :: "writer \<Rightarrow> ring list \<Rightarrow> shared \<Rightarrow> shared \<Rightarrow> bool" where
  "wcovered Writer_Idle rs s s' = (rs = [] \<and> s = s')"
| "wcovered (Writer_Locking d n k) rs s s' = waits d n k rs s s'"
| "wcovered (Writer_Waiting d n k) rs s s' = waits d n k rs s s'"

lemma wcovered_signal: "wcovered (signal_writer t) rs s s' = wcovered t rs s s'"
  by (cases t) (simp_all add: signal_writer_def)

lemma wcovered_in:
  assumes "sh_in s1 = sh_in s" and "t \<noteq> Writer_Idle" and "wcovered t rs s1 s'"
  shows "wcovered t rs s s'"
  using assms by (cases t) (simp_all add: waits_def)

lemma waits_now:
  assumes "n \<le> rb_max r - rb_count r" and "ring_put d n k r = Inr (sh_ring s')"
    and "sh_in s' = sh_in s @ payload d n k"
  shows "waits d n k [r] s s'"
  unfolding waits_def using wait_space_now [OF assms(1), of "[]"] assms(2,3) by simp

lemma waits_again:
  assumes "rb_max r - rb_count r < n" and "waits d n k rs s1 s'" and "sh_in s1 = sh_in s"
  shows "waits d n k (r # rs) s s'"
proof -
  obtain r1 rs1 q where "rs = r1 # rs1" and "wait_space n r1 (schedule r1 rs1) = Inr (q, [])"
    and "ring_put d n k q = Inr (sh_ring s')" and "sh_in s' = sh_in s1 @ payload d n k"
    using assms(2) by (auto simp: waits_def)
  moreover have "wait_space n r (schedule r (r1 # rs1)) = wait_space n r1 (schedule r1 rs1)"
    using assms(1) by (subst wait_space.simps) simp
  ultimately show ?thesis using assms(3) by (simp add: waits_def)
qed

lemma found_same: "sh_writer s1 = sh_writer s \<Longrightarrow> found s s1 = []"
  by (simp add: found_def split: writer.splits)

lemma found_woken: "sh_writer s1 = signal_writer (sh_writer s) \<Longrightarrow> found s s1 = []"
  by (simp add: found_def signal_writer_def split: writer.splits)

lemma wcovered_step:
  assumes "any_step s s1" and "sh_writer s \<noteq> Writer_Idle" and c: "wcovered (sh_writer s1) rs s1 s'"
  shows "wcovered (sh_writer s) (found s s1 @ rs) s s'"
proof -
  obtain l where st: "shared_step l s s1"
    using assms(1) by (auto simp: any_step_def)
  note same = wcovered_in [OF _ assms(2), of s1 s rs s']
  from st show ?thesis
  proof cases
    case (read_takes n bs r)
    then have "found s s1 = []" by (intro found_woken) simp
    then show ?thesis using same c wcovered_signal read_takes by simp
  next
    case (write_sleeps d n k)
    then show ?thesis using waits_again c by (simp add: found_def)
  next
    case (write_puts d n k r)
    then have "s' = s1" and "rs = []" using c by simp_all
    then show ?thesis
      using waits_now [OF write_puts(4), of d k s' s] write_puts by (simp add: found_def)
  next
    case (write_timer d n k)
    then show ?thesis using same c by (simp add: found_def)
  qed (use c same assms(2) in \<open>simp_all add: found_same\<close>)
qed

lemma wcovered_run: "writing_run s rs s' \<Longrightarrow> wcovered (sh_writer s) rs s s'"
proof (induction rule: writing_run.induct)
  case (goes s s1 rs s')
  then show ?case using wcovered_step by blast
qed simp

text \<open>Between two stays of the writer the reader only takes, so the schedule drains.\<close>

lemma drained_refl: "ring_ok r \<Longrightarrow> drained r r"
  by (simp add: drained_def)

lemma drained_trans: "drained r r1 \<Longrightarrow> drained r1 r2 \<Longrightarrow> drained r r2"
  by (auto simp: drained_def)

lemma draining_upd: "drained p r \<Longrightarrow> draining (id(p := r))"
  unfolding draining_def
proof (intro allI impI)
  fix q
  assume d: "drained p r" and ok: "ring_ok q"
  have "drained q ((id(p := r)) q)"
    using d drained_refl [OF ok] by (cases "q = p") (simp_all only: fun_upd_apply id_apply if_True if_False simp_thms)
  then show "ring_ok ((id(p := r)) q) \<and> rb_put ((id(p := r)) q) = rb_put q
      \<and> (synced q \<longrightarrow> synced ((id(p := r)) q)) \<and> (\<exists>xs. contents q = xs @ contents ((id(p := r)) q))"
    unfolding drained_def .
qed

lemma drained_take:
  assumes "ring_ok r" and "0 \<le> n" and "ring_take r n = Inr (bs, r')"
  shows "drained r r'"
proof -
  have "take_all n r = r'" using assms(3) by (simp add: take_all_def)
  then show ?thesis
    using draining_take [OF assms(2)] assms(1) unfolding draining_def drained_def by metis
qed

lemma drained_other:
  assumes "any_step s s1" and "shared_ok s" and "sh_writer s1 \<noteq> Writer_Idle"
  shows "drained (sh_ring s) (sh_ring s1)"
proof -
  have ok: "ring_ok (sh_ring s)" using assms(2) by (simp add: shared_ok_def)
  obtain l where "shared_step l s s1" using assms(1) by (auto simp: any_step_def)
  then show ?thesis
  proof cases
    case (read_takes n bs r)
    then have "0 \<le> n" using assms(2) by (auto simp: shared_ok_def)
    then show ?thesis using drained_take [OF ok] read_takes by simp
  qed (use drained_refl [OF ok] assms(3) in simp_all)
qed

lemma schedule_draining:
  "writing_run s rs s' \<Longrightarrow> shared_ok s \<Longrightarrow> drained p (sh_ring s) \<Longrightarrow>
     \<forall>(t, f)\<in>set (schedule p rs). draining f"
proof (induction arbitrary: p rule: writing_run.induct)
  case (goes s s1 rs s')
  have ok: "shared_ok s1" using goes.hyps(2) goes.prems(1) shared_ok_step by (auto simp: any_step_def)
  show ?case
  proof (cases "sh_writer s1 = Writer_Idle")
    case True
    then have "rs = []" using goes.hyps(3) by (auto elim: writing_run.cases)
    then show ?thesis using draining_upd [OF goes.prems(2)] by (auto simp: found_def split: writer.splits)
  next
    case False
    have d: "drained (sh_ring s) (sh_ring s1)" using drained_other goes.hyps(2) goes.prems(1) False by blast
    then have "\<forall>(t, f)\<in>set (schedule (sh_ring s) rs). draining f"
      and "\<forall>(t, f)\<in>set (schedule p rs). draining f"
      using goes.IH [OF ok] drained_trans [OF goes.prems(2) d] by blast+
    then show ?thesis
      using draining_upd [OF goes.prems(2)] by (auto simp: found_def split: writer.splits)
  qed
qed simp

section \<open>Properties\<close>

text \<open>
  C14. Every call of the player in the interleaved system is a run of \<open>p2p_plugin_read\<close>: for
  any interleaving of the threads' steps from the start of a call for \<open>n\<close> bytes to its end,
  with timeouts and spurious wake-ups, there is a schedule on which the function, with the
  preview used up, returns the bytes the reader took and leaves the ring the system has.
\<close>

theorem player_call_is_read:
  assumes "reading_step\<^sup>*\<^sup>* s s'" and "sh_reader s = Reader_Locking n" and "0 < n"
    and "sh_reader s' = Reader_Idle" and "pl_preview_size p \<le> pl_curpos p" and "n \<le> cap"
  shows "\<exists>es bs p'. sh_out s' = sh_out s @ bs
    \<and> p2p_plugin_read x own cap dst n es p = Inr (int (length bs), mem_put dst 0 bs, p', [])
    \<and> pl_ring p' = sh_ring s'"
proof -
  obtain es where "outcome s s' dst 0 0 (read_loop cap dst 0 0 n (pl_ring p) es)"
    using covered_run [OF assms(1,4), of cap] assms(2,3,6) by fastforce
  then obtain bs t where b: "sh_out s' = sh_out s @ bs"
    and r: "read_loop cap dst 0 0 n (pl_ring p) es
      = Inr (t, mem_put dst 0 bs, int (length bs), sh_ring s', [])"
    by (auto simp: outcome_def)
  have "\<exists>p'. p2p_plugin_read x own cap dst n es p
      = Inr (int (length bs), mem_put dst 0 bs, p', []) \<and> pl_ring p' = sh_ring s'"
    using r assms(3,5) by (cases t) (simp_all add: p2p_plugin_read_def)
  then show ?thesis using b by blast
qed

definition ex_reading :: shared where
  "ex_reading = (shared_start (\<lambda>_. 7))\<lparr>sh_reader := Reader_Locking 2,
     sh_ring := (ring_new (\<lambda>_. 7))\<lparr>rb_put := 2, rb_count := 2\<rparr>\<rparr>"

definition ex_read_done :: shared where
  "ex_read_done = ex_reading\<lparr>sh_reader := Reader_Idle, sh_out := [7, 7],
     sh_ring := (ring_new (\<lambda>_. 7))\<lparr>rb_put := 2, rb_get := 2\<rparr>\<rparr>"

lemma ex_reading_run: "reading_step\<^sup>*\<^sup>* ex_reading ex_read_done"
proof -
  have t: "ring_take (sh_ring ex_reading) 2 = Inr ([7, 7], sh_ring ex_read_done)"
    by (simp add: ex_reading_def ex_read_done_def ring_new_def ring_take_def BUFFER_SIZE_def
        mem_get_def upt_rec)
  have "shared_step Work ex_reading (ex_reading\<lparr>sh_ring := sh_ring ex_read_done,
      sh_out := sh_out ex_reading @ [7, 7],
      sh_reader := (if 0 < 2 - int (length [7, 7 :: byte])
        then Reader_Locking (2 - int (length [7, 7 :: byte])) else Reader_Idle),
      sh_writer := signal_writer (sh_writer ex_reading)\<rparr>)"
    by (rule read_takes [OF _ t]) (simp add: ex_reading_def)
  then have "reading_step ex_reading ex_read_done"
    by (auto simp: reading_step_def any_step_def ex_reading_def ex_read_done_def shared_start_def
        signal_writer_def)
  then show ?thesis by (rule r_into_rtranclp)
qed

theorem player_call_is_read_witness:
  "\<exists>es p'. p2p_plugin_read ex_xine False 8 (\<lambda>_. 0) 2 es ex_plugin
        = Inr (2, mem_put (\<lambda>_. 0) 0 [7, 7], p', [])
    \<and> rb_count (pl_ring p') = 0"
proof -
  obtain es bs p' where "sh_out ex_read_done = sh_out ex_reading @ bs"
    and r: "p2p_plugin_read ex_xine False 8 (\<lambda>_. 0) 2 es ex_plugin
        = Inr (int (length bs), mem_put (\<lambda>_. 0) 0 bs, p', [])"
    and q: "pl_ring p' = sh_ring ex_read_done"
    using player_call_is_read [OF ex_reading_run, of 2 ex_plugin 8 ex_xine False "\<lambda>_. 0"]
    by (auto simp: ex_reading_def ex_read_done_def)
  then have "bs = [7, 7]" and "rb_count (pl_ring p') = 0"
    by (simp_all add: ex_reading_def ex_read_done_def shared_start_def ring_new_def)
  then show ?thesis using r by auto
qed

text \<open>
  C15. Every call of the receiving thread is a run of \<open>output_ffmpeg_write_chunk\<close>, wait by
  wait: take any interleaving from the start of the copy of a chunk with a video header to its
  end, in a reachable state, and the rings \<open>rs\<close> the writer finds at its stays in the mutex.  On
  the schedule that turns each of these rings into the next, and nothing else, the function
  returns, uses up the whole schedule (it locks once and waits once for each further ring),
  and leaves the ring the system has; and all changes of this schedule are draining, as C3
  asks.
\<close>

theorem receiver_call_is_write:
  assumes "any_step\<^sup>*\<^sup>* (shared_start m) s" and "writing_run s rs s'"
    and "sh_writer s = Writer_Locking d (ck_size c) (chunk_offset d)" and "playable c d"
    and "os_ring w = sh_ring s" and "os_sched w = schedule (sh_ring s) rs"
  shows "output_ffmpeg_write_chunk w c
      = Inr (w\<lparr>os_ring := sh_ring s', os_sched := [], os_written := os_written w @ [c]\<rparr>)
    \<and> (\<forall>(t, f)\<in>set (os_sched w). draining f)
    \<and> sh_in s' = sh_in s @ payload d (ck_size c) (chunk_offset d)"
proof -
  have ok: "shared_ok s" using shared_ok_reachable [OF assms(1)] .
  then have "drained (sh_ring s) (sh_ring s)" by (simp add: shared_ok_def drained_refl)
  then have draining: "\<forall>(t, f)\<in>set (os_sched w). draining f"
    using schedule_draining [OF assms(2) ok] assms(6) by simp
  obtain r rs1 q where "rs = r # rs1" and "wait_space (ck_size c) r (schedule r rs1) = Inr (q, [])"
    and "ring_put d (ck_size c) (chunk_offset d) q = Inr (sh_ring s')"
    and "sh_in s' = sh_in s @ payload d (ck_size c) (chunk_offset d)"
    using wcovered_run [OF assms(2)] assms(3) by (auto simp: waits_def)
  then show ?thesis
    using write_chunk_playable [OF assms(4)] draining assms(5,6) by (simp add: lock_ring_def)
qed

text \<open>
  A run with a wait: a chunk of the size of the ring leaves ten bytes free, the next one needs
  twelve and waits, and the player takes two bytes.
\<close>

lemma ex_nearly_full:
  obtains s where "any_step\<^sup>*\<^sup>* (shared_start (\<lambda>_. 0)) s" and "sh_reader s = Reader_Locking 2"
    and "sh_writer s = Writer_Locking ex_data_bytes 12 10" and "rb_get (sh_ring s) = 0"
    and "rb_put (sh_ring s) = BUFFER_SIZE" and "rb_count (sh_ring s) = BUFFER_SIZE - 10"
proof -
  let ?d = "replicate (nat BUFFER_SIZE) (0 :: byte)" and ?s0 = "shared_start (\<lambda>_. 0)"
  obtain r where p: "ring_put ?d BUFFER_SIZE 10 (sh_ring ?s0) = Inr r"
    and r: "rb_get r = 0" "rb_put r = BUFFER_SIZE" "rb_count r = BUFFER_SIZE - 10"
  proof (rule ring_put_cases [of "sh_ring ?s0" ?d BUFFER_SIZE 10])
    fix mem assume "ring_put ?d BUFFER_SIZE 10 (sh_ring ?s0) = Inr ((sh_ring ?s0)\<lparr>rb_mem := mem,
      rb_put := put_pos (sh_ring ?s0) BUFFER_SIZE 10,
      rb_count := rb_count (sh_ring ?s0) + (BUFFER_SIZE - 10)\<rparr>)"
    then show ?thesis using that by (simp add: shared_start_def ring_new_def put_pos_def)
  qed (simp_all add: shared_start_def ring_new_def ring_ok_def fits_def BUFFER_SIZE_def)
  let ?s1 = "?s0\<lparr>sh_writer := Writer_Locking ?d BUFFER_SIZE 10\<rparr>"
  let ?s2 = "?s1\<lparr>sh_ring := r, sh_in := sh_in ?s1 @ payload ?d BUFFER_SIZE 10,
       sh_writer := Writer_Idle, sh_reader := signal_reader (sh_reader ?s1)\<rparr>"
  let ?s3 = "?s2\<lparr>sh_writer := Writer_Locking ex_data_bytes 12 10\<rparr>"
  let ?s4 = "?s3\<lparr>sh_reader := Reader_Locking 2\<rparr>"
  have "shared_step Call ?s0 ?s1"
    by (rule call_write) (simp_all add: shared_start_def BUFFER_SIZE_def)
  moreover have "shared_step Work ?s1 ?s2"
    by (rule write_puts) (use p in \<open>simp_all add: shared_start_def ring_new_def\<close>)
  moreover have "shared_step Call ?s2 ?s3"
    by (rule call_write) (simp_all add: ex_data_bytes_def BUFFER_SIZE_def)
  moreover have "shared_step Call ?s3 ?s4"
    by (rule call_read) (simp_all add: shared_start_def signal_reader_def)
  ultimately have "any_step\<^sup>*\<^sup>* ?s0 ?s4"
    by (meson any_step_def rtranclp.rtrancl_into_rtrancl rtranclp.rtrancl_refl)
  then show ?thesis using that r by simp
qed

lemma ex_waiting_run:
  assumes "sh_reader s = Reader_Locking 2" and "sh_writer s = Writer_Locking ex_data_bytes 12 10"
    and "rb_get (sh_ring s) = 0" and "rb_put (sh_ring s) = BUFFER_SIZE"
    and "rb_count (sh_ring s) = BUFFER_SIZE - 10" and "ring_ok (sh_ring s)"
  obtains r s' where "writing_run s [sh_ring s, r] s'" and "rb_count (sh_ring s') = BUFFER_SIZE - 10"
proof -
  obtain bs r where t: "ring_take (sh_ring s) 2 = Inr (bs, r)" and l: "length bs = 2"
    and r: "rb_get r = 2" "rb_put r = BUFFER_SIZE" "rb_count r = BUFFER_SIZE - 12" "ring_ok r"
    using assms(3-6) by (auto simp: ring_take_def Let_def ring_ok_def BUFFER_SIZE_def load_def mem_get_def)
  have max: "rb_max (sh_ring s) = BUFFER_SIZE" "rb_max r = BUFFER_SIZE"
    using assms(6) r(4) by (simp_all add: ring_ok_def)
  obtain q where p: "ring_put ex_data_bytes 12 10 r = Inr q"
    using ring_put_cases [OF r(4), of ex_data_bytes 12 10] r max
    by (auto simp: fits_def ex_data_bytes_def BUFFER_SIZE_def)
  let ?s1 = "s\<lparr>sh_writer := Writer_Waiting ex_data_bytes 12 10\<rparr>"
  let ?s2 = "?s1\<lparr>sh_ring := r, sh_out := sh_out ?s1 @ bs,
       sh_reader := (if 0 < 2 - int (length bs) then Reader_Locking (2 - int (length bs))
                     else Reader_Idle),
       sh_writer := signal_writer (sh_writer ?s1)\<rparr>"
  let ?s3 = "?s2\<lparr>sh_ring := q, sh_in := sh_in ?s2 @ payload ex_data_bytes 12 10,
       sh_writer := Writer_Idle, sh_reader := signal_reader (sh_reader ?s2)\<rparr>"
  have a: "any_step s ?s1" "any_step ?s1 ?s2" "any_step ?s2 ?s3"
    unfolding any_step_def
    using write_sleeps [OF assms(2)] read_takes [of ?s1 2 bs r]
      write_puts [of ?s2 ex_data_bytes 12 10 q] assms(1,5) max t p r(3)
    by (fastforce simp: signal_writer_def BUFFER_SIZE_def)+
  have w3: "writing_run ?s3 [] ?s3" by (rule returned) simp
  have w2: "writing_run ?s2 (found ?s2 ?s3 @ []) ?s3"
    by (rule goes [OF _ a(3) w3]) (simp add: signal_writer_def)
  have w1: "writing_run ?s1 (found ?s1 ?s2 @ found ?s2 ?s3 @ []) ?s3"
    by (rule goes [OF _ a(2) w2]) simp
  have "writing_run s (found s ?s1 @ found ?s1 ?s2 @ found ?s2 ?s3 @ []) ?s3"
    by (rule goes [OF _ a(1) w1]) (simp add: assms(2))
  then have "writing_run s [sh_ring s, r] ?s3"
    using assms(2) by (simp add: found_def signal_writer_def)
  moreover have "rb_count (sh_ring ?s3) = BUFFER_SIZE - 10"
    using put_count [OF p] r(3) by simp
  ultimately show ?thesis by (rule that)
qed

theorem receiver_call_is_write_witness:
  "\<exists>w r1 r2 r3. rb_max r1 - rb_count r1 < ck_size (ex_chunk 0)
    \<and> os_ring w = r1 \<and> os_sched w = schedule r1 [r1, r2]
    \<and> output_ffmpeg_write_chunk w (ex_chunk 0)
        = Inr (w\<lparr>os_ring := r3, os_sched := [], os_written := os_written w @ [ex_chunk 0]\<rparr>)
    \<and> rb_count r3 = BUFFER_SIZE - 10"
proof -
  obtain s where s: "any_step\<^sup>*\<^sup>* (shared_start (\<lambda>_. 0)) s" "sh_reader s = Reader_Locking 2"
      "sh_writer s = Writer_Locking ex_data_bytes 12 10" "rb_get (sh_ring s) = 0"
      "rb_put (sh_ring s) = BUFFER_SIZE" "rb_count (sh_ring s) = BUFFER_SIZE - 10"
    by (rule ex_nearly_full)
  have ok: "ring_ok (sh_ring s)" using shared_ok_reachable [OF s(1)] by (simp add: shared_ok_def)
  obtain r s' where run: "writing_run s [sh_ring s, r] s'" and c: "rb_count (sh_ring s') = BUFFER_SIZE - 10"
    using ex_waiting_run [OF s(2-6) ok] .
  let ?w = "(ex_out 0)\<lparr>os_ring := sh_ring s, os_sched := schedule (sh_ring s) [sh_ring s, r]\<rparr>"
  have o: "chunk_offset ex_data_bytes = 10" and pl: "playable (ex_chunk 0) ex_data_bytes"
    using ex_offset ex_playable [of 0] by (simp_all add: ex_data_bytes_def)
  have size: "ck_size (ex_chunk 0) = 12" by (simp add: ex_chunk_def)
  have "output_ffmpeg_write_chunk ?w (ex_chunk 0)
      = Inr (?w\<lparr>os_ring := sh_ring s', os_sched := [], os_written := os_written ?w @ [ex_chunk 0]\<rparr>)"
    using receiver_call_is_write [OF s(1) run _ pl, of ?w] s(3) o size by simp
  moreover have "rb_max (sh_ring s) - rb_count (sh_ring s) < ck_size (ex_chunk 0)"
    using s(6) ok size by (simp add: ring_ok_def)
  ultimately show ?thesis
    using c by (intro exI [of _ ?w] exI [of _ "sh_ring s"] exI [of _ r] exI [of _ "sh_ring s'"] conjI)
      simp_all
qed

end
