(* ===== verification/Plugin_Calls.thy ===== *)
theory Plugin_Calls
  imports Schedules
begin

text \<open>
  Sequences of calls of the methods of \<open>src/input_p2p.c\<close> by xine, on any schedule of the
  receiving thread: how much of the caller's buffer a read touches, and the invariant of
  the plugin object that keeps all calls free of undefined behaviour.
\<close>

section \<open>What the loop changes\<close>

lemma keeping_subset: "\<forall>(t, f)\<in>set es. keeping f \<Longrightarrow> set es' \<subseteq> set es \<Longrightarrow> \<forall>(t, f)\<in>set es'. keeping f"
  by blast

lemma acquire_subset:
  assumes "lock_ring r es = (r0, es0)"
    and "(if rb_count r0 = 0 then cond_wait r0 es0 else Inr (False, r0, es0)) = Inr (t, r1, es1)"
  shows "set es1 \<subseteq> set es"
  using assms by (auto simp: lock_ring_def cond_wait_def split: list.splits if_splits)

lemma take_keeps_ok: "ring_ok r \<Longrightarrow> 0 \<le> n \<Longrightarrow> ring_take r n = Inr (bs, r') \<Longrightarrow> ring_ok r'"
  by (rule rq.tk_ok)

text \<open>
  The loop reports at least what was copied before and at most \<open>nlen\<close> bytes more, stores
  into these bytes of the buffer only, and keeps the ring well formed.
\<close>

lemma read_loop_frame:
  "read_loop cap dst buf copied nlen r es = Inr (early, dst', copied', r', es') \<Longrightarrow> 0 \<le> nlen \<Longrightarrow>
     copied \<le> copied' \<and> copied' \<le> copied + nlen \<and> set es' \<subseteq> set es
     \<and> (ring_ok r \<longrightarrow> (\<forall>(t, f)\<in>set es. keeping f) \<longrightarrow> ring_ok r')
     \<and> (\<forall>a. a < buf \<or> buf + (copied' - copied) \<le> a \<longrightarrow> dst' a = dst a)"
proof (induction cap dst buf copied nlen r es rule: read_loop.induct)
  case (1 cap dst buf copied nlen r es)
  show ?case
  proof (cases "nlen > 0")
    case False
    then show ?thesis using 1(2,3) by (simp add: read_loop.simps [of cap dst])
  next
    case True
    obtain r0 es0 where lk: "lock_ring r es = (r0, es0)" by (metis surj_pair)
    obtain t r1 es1 where wt:
      "(if rb_count r0 = 0 then cond_wait r0 es0 else Inr (False, r0, es0)) = Inr (t, r1, es1)"
      using 1(2) True lk by (subst (asm) read_loop.simps) auto
    have sub: "set es1 \<subseteq> set es" and ok1: "ring_ok r \<Longrightarrow> \<forall>(t, f)\<in>set es. keeping f \<Longrightarrow> ring_ok r1"
      using acquire_subset [OF lk wt] keeping_acquire [OF _ _ lk wt] by blast+
    show ?thesis
    proof (cases t)
      case True
      then have "early" "dst' = dst" "copied' = copied" "r' = r1" "es' = es1"
        using 1(2) \<open>nlen > 0\<close> lk wt by (subst (asm) read_loop.simps; simp)+
      then show ?thesis using sub ok1 1(3) by simp
    next
      case False
      obtain bs r2 dst1 where tk: "ring_take r1 nlen = Inr (bs, r2)"
        and st: "store cap dst buf bs = Inr dst1"
        and run: "read_loop cap dst1 (buf + int (length bs)) (copied + int (length bs))
          (nlen - int (length bs)) r2 es1 = Inr (early, dst', copied', r', es')"
        using 1(2) True False lk wt by (subst (asm) read_loop.simps) auto
      have le: "int (length bs) \<le> nlen" using ring_take_length [OF tk 1(3)] .
      have dst1: "dst1 = mem_put dst buf bs" using st by (simp add: store_Inr)
      have "ring_ok r \<Longrightarrow> \<forall>(t, f)\<in>set es. keeping f \<Longrightarrow> ring_ok r2"
        using ok1 take_keeps_ok [OF _ 1(3) tk] by blast
      then show ?thesis
        using 1(1) [OF True lk [symmetric] wt refl refl False tk refl st run] le sub
          keeping_subset [OF _ sub] unfolding dst1 by (auto simp: mem_put_out)
    qed
  qed
qed

text \<open>The end of the function after its loop.\<close>

definition read_epilogue ::
  "plugin \<Rightarrow> bool \<times> bytes \<times> int \<times> ring \<times> interference list
     \<Rightarrow> (int \<times> bytes \<times> plugin \<times> interference list) res"
where
  "read_epilogue p = (\<lambda>(early, dst2, copied2, r2, es2).
     if early then Inr (copied2, dst2, p\<lparr>pl_ring := r2\<rparr>, es2)
     else Inr (copied2, dst2, p\<lparr>pl_ring := r2, pl_curpos := pl_curpos p + copied2\<rparr>, es2))"

lemma read_epilogueE:
  assumes "bnd v (read_epilogue p) = Inr (n, dst', p', es')"
  obtains early r where "v = Inr (early, dst', n, r, es')"
    and "p' = (if early then p\<lparr>pl_ring := r\<rparr> else p\<lparr>pl_curpos := pl_curpos p + n, pl_ring := r\<rparr>)"
proof -
  obtain w where w: "v = Inr w" using assms by (cases v) simp_all
  moreover obtain early d c r es2 where "w = (early, d, c, r, es2)" by (rule prod_cases5)
  ultimately have l: "v = Inr (early, d, c, r, es2)" by simp
  then have "d = dst'" "c = n" "es2 = es'"
    and "p' = (if early then p\<lparr>pl_ring := r\<rparr> else p\<lparr>pl_ring := r, pl_curpos := pl_curpos p + n\<rparr>)"
    using assms by (cases early; simp add: read_epilogue_def)+
  then show ?thesis using that l by (cases early) simp_all
qed

text \<open>A read with preview bytes pending, that returned.\<close>

lemma read_pending:
  assumes run: "p2p_plugin_read x own cap dst nlen es p = Inr v" and "0 \<le> nlen"
    and True: "pl_curpos p < pl_preview_size p"
    and k: "k = (if pl_preview_size p - pl_curpos p > nlen then nlen
                 else pl_preview_size p - pl_curpos p)"
  shows "p2p_plugin_read x own cap dst nlen es p =
    bnd (read_loop cap (mem_put dst 0 (mem_get (pl_preview p) (pl_curpos p) k)) 0 k (nlen - k)
           (pl_ring p) es) (read_epilogue (p\<lparr>pl_curpos := pl_curpos p + k\<rparr>))"
proof -
  let ?bs = "mem_get (pl_preview p) (pl_curpos p) k" and ?p1 = "p\<lparr>pl_curpos := pl_curpos p + k\<rparr>"
  let ?g = "\<not> (own \<and> 0 < k \<and> \<bar>pl_curpos p\<bar> < k)"
  have n0: "\<not> nlen < 0" using assms(2) by simp
  have e: "p2p_plugin_read x own cap dst nlen es p =
      bnd (bnd (guard ?g Overlap) (\<lambda>_.
           bnd (load (MAX_PREVIEW_SIZE x) (pl_preview p) (pl_curpos p) k) (\<lambda>bs.
           bnd (store cap dst 0 bs) (\<lambda>dst1. Inr (dst1, ?p1, k))))) (\<lambda>(dst1, p1, copied).
      bnd (read_loop cap dst1 0 copied (nlen - copied) (pl_ring p1) es) (read_epilogue p1))"
    unfolding k by (simp only: p2p_plugin_read_def n0 True if_True if_False Let_def read_epilogue_def)
  have g: ?g using run unfolding e by (cases ?g) simp_all
  have ld: "load (MAX_PREVIEW_SIZE x) (pl_preview p) (pl_curpos p) k = Inr ?bs"
    using run unfolding e load_def by (auto split: if_splits)
  have st: "store cap dst 0 ?bs = Inr (mem_put dst 0 ?bs)"
    using run unfolding e ld store_def by (auto split: if_splits)
  show ?thesis
    unfolding e using g by (simp add: ld st guard_def cong: if_cong)
qed

text \<open>A read that returned: \<open>k\<close> bytes of the preview, then the loop.\<close>

lemma read_split:
  assumes run: "p2p_plugin_read x own cap dst nlen es p = Inr (n, dst', p', es')" and nn: "0 \<le> nlen"
  obtains k dst1 early r where "0 \<le> k" and "k \<le> nlen" and "\<forall>a. a < 0 \<or> k \<le> a \<longrightarrow> dst1 a = dst a"
    and "read_loop cap dst1 0 k (nlen - k) (pl_ring p) es = Inr (early, dst', n, r, es')"
    and "p' = (if early then p\<lparr>pl_curpos := pl_curpos p + k, pl_ring := r\<rparr>
           else p\<lparr>pl_curpos := pl_curpos p + k + n, pl_ring := r\<rparr>)"
proof (cases "pl_curpos p < pl_preview_size p")
  case False
  then have "bnd (read_loop cap dst 0 0 nlen (pl_ring p) es) (read_epilogue p) = Inr (n, dst', p', es')"
    using run read_no_preview [of p nlen] nn by (simp only: read_epilogue_def not_less)
  then show ?thesis
    by (rule read_epilogueE) (use that [of 0 dst] nn in simp)
next
  case True
  define k where "k = (if pl_preview_size p - pl_curpos p > nlen then nlen
    else pl_preview_size p - pl_curpos p)"
  let ?d = "mem_put dst 0 (mem_get (pl_preview p) (pl_curpos p) k)"
  have k: "0 \<le> k" "k \<le> nlen" using True nn by (auto simp: k_def)
  then have d: "\<forall>a. a < 0 \<or> k \<le> a \<longrightarrow> ?d a = dst a" by (auto simp: mem_put_out)
  have "bnd (read_loop cap ?d 0 k (nlen - k) (pl_ring p) es)
      (read_epilogue (p\<lparr>pl_curpos := pl_curpos p + k\<rparr>)) = Inr (n, dst', p', es')"
    using run unfolding read_pending [OF run nn True k_def] .
  then show ?thesis
  proof (rule read_epilogueE)
    fix early r
    assume "read_loop cap ?d 0 k (nlen - k) (pl_ring p) es = Inr (early, dst', n, r, es')"
      and "p' = (if early then p\<lparr>pl_curpos := pl_curpos p + k\<rparr>\<lparr>pl_ring := r\<rparr>
             else p\<lparr>pl_curpos := pl_curpos p + k\<rparr>\<lparr>pl_curpos := pl_curpos (p\<lparr>pl_curpos := pl_curpos p + k\<rparr>) + n,
                    pl_ring := r\<rparr>)"
    then show thesis using that [OF k d, of early r] by (cases early) simp_all
  qed
qed

lemma read_frame:
  assumes "p2p_plugin_read x own cap dst nlen es p = Inr (n, dst', p', es')" and "0 \<le> nlen"
  shows "0 \<le> n \<and> n \<le> nlen \<and> set es' \<subseteq> set es
    \<and> (ring_ok (pl_ring p) \<longrightarrow> (\<forall>(t, f)\<in>set es. keeping f) \<longrightarrow> ring_ok (pl_ring p'))
    \<and> pl_curpos p \<le> pl_curpos p' \<and> pl_preview_size p' = pl_preview_size p
    \<and> pl_preview_read_done p' = pl_preview_read_done p
    \<and> (\<forall>a. a < 0 \<or> n \<le> a \<longrightarrow> dst' a = dst a)"
  using assms
proof (rule read_split)
  fix k dst1 early r
  assume k: "0 \<le> k" "k \<le> nlen" and d: "\<forall>a. a < 0 \<or> k \<le> a \<longrightarrow> dst1 a = dst a"
    and l: "read_loop cap dst1 0 k (nlen - k) (pl_ring p) es = Inr (early, dst', n, r, es')"
    and p': "p' = (if early then p\<lparr>pl_curpos := pl_curpos p + k, pl_ring := r\<rparr>
           else p\<lparr>pl_curpos := pl_curpos p + k + n, pl_ring := r\<rparr>)"
  have f: "k \<le> n \<and> n \<le> k + (nlen - k) \<and> set es' \<subseteq> set es
     \<and> (ring_ok (pl_ring p) \<longrightarrow> (\<forall>(t, f)\<in>set es. keeping f) \<longrightarrow> ring_ok r)
     \<and> (\<forall>a. a < 0 \<or> 0 + (n - k) \<le> a \<longrightarrow> dst' a = dst1 a)"
    using read_loop_frame [OF l] k(2) by simp
  have "\<forall>a. a < 0 \<or> n \<le> a \<longrightarrow> dst' a = dst a"
    using f d k(1) by auto
  then show ?thesis using f k p' by simp
qed

section \<open>Calls\<close>

text \<open>What xine calls; \<open>Read\<close> comes with the size and bytes of the caller's buffer.\<close>

datatype call =
    Read int bytes int
  | Read_Block buf_element int
  | Optional_Data int

fun call_ok :: "call \<Rightarrow> bool" where
  "call_ok (Read cap dst nlen) = (nlen \<le> cap)"
| "call_ok _ = True"

fun run_call :: "xine_api \<Rightarrow> call \<Rightarrow> interference list \<times> plugin \<Rightarrow> (interference list \<times> plugin) res"
where
  "run_call x (Read cap dst nlen) (es, p) =
     bnd (p2p_plugin_read x False cap dst nlen es p) (\<lambda>(n, dst', p', es'). Inr (es', p'))"
| "run_call x (Read_Block b len) (es, p) =
     bnd (p2p_plugin_read_block x b len es p) (\<lambda>(b', p', es'). Inr (es', p'))"
| "run_call x (Optional_Data ty) (es, p) =
     bnd (p2p_plugin_get_optional_data x ty es p) (\<lambda>(n, data, p', es'). Inr (es', p'))"

fun run_calls ::
  "xine_api \<Rightarrow> call list \<Rightarrow> interference list \<times> plugin \<Rightarrow> (interference list \<times> plugin) res"
where
  "run_calls x [] s = Inr s"
| "run_calls x (c # cs) s = bnd (run_call x c s) (run_calls x cs)"

text \<open>The invariant: before the preview has been read there are no preview bytes.\<close>

definition plugin_ok :: "xine_api \<Rightarrow> plugin \<Rightarrow> bool" where
  "plugin_ok x p \<longleftrightarrow> ring_ok (pl_ring p) \<and> 0 \<le> pl_curpos p \<and> 0 \<le> pl_preview_size p
     \<and> pl_preview_size p \<le> MAX_PREVIEW_SIZE x \<and> (pl_preview_read_done p = 0 \<longrightarrow> pl_preview_size p = 0)"

definition calls_ok :: "xine_api \<Rightarrow> interference list \<times> plugin \<Rightarrow> bool" where
  "calls_ok x s \<longleftrightarrow> (case s of (es, p) \<Rightarrow> plugin_ok x p \<and> (\<forall>(t, f)\<in>set es. keeping f))"

text \<open>A step that keeps the invariant or stops waiting.\<close>

definition fine :: "xine_api \<Rightarrow> (interference list \<times> plugin) res \<Rightarrow> bool" where
  "fine x v \<longleftrightarrow> (case v of Inl e \<Rightarrow> e = Blocked | Inr s \<Rightarrow> calls_ok x s)"

lemma fine_simps [simp]: "fine x (Inl e) \<longleftrightarrow> e = Blocked" "fine x (Inr s) \<longleftrightarrow> calls_ok x s"
  by (simp_all add: fine_def)

lemma read_keeps:
  assumes "p2p_plugin_read x own cap dst nlen es p = Inr (n, dst', p', es')" and "calls_ok x (es, p)"
  shows "calls_ok x (es', p')"
proof (cases "nlen < 0")
  case True
  then show ?thesis using assms by (simp add: p2p_plugin_read_def)
next
  case False
  then show ?thesis
    using read_frame [OF assms(1)] assms(2) keeping_subset [of es es']
    by (auto simp: calls_ok_def plugin_ok_def)
qed

lemma fine_read:
  assumes "calls_ok x (es, p)" and "nlen \<le> cap"
  shows "fine x (bnd (p2p_plugin_read x False cap dst nlen es p) (\<lambda>(n, dst', p', es'). Inr (es', p')))"
  using assms p2p_plugin_read_no_UB [of p nlen cap x es dst] read_keeps [of x False cap dst nlen es p]
  by (cases "p2p_plugin_read x False cap dst nlen es p")
    (auto simp: calls_ok_def plugin_ok_def split: prod.split)

lemma fine_read_block:
  assumes "calls_ok x (es, p)"
  shows "fine x (run_call x (Read_Block b len0) (es, p))"
proof -
  define len where "len = (if len0 > be_max_size b then be_max_size b else len0)"
  have le: "len \<le> be_max_size b" by (simp add: len_def)
  show ?thesis
    using assms fine_read [OF assms le, of "be_mem b"]
    by (cases "p2p_plugin_read x False (be_max_size b) (be_mem b) len es p")
      (auto simp: p2p_plugin_read_block_def Let_def len_def [symmetric])
qed

text \<open>The first call for the preview reads into \<open>preview\<close> itself, without preview bytes.\<close>

lemma read_own_no_UB:
  assumes "plugin_ok x p" and "pl_preview_read_done p = 0" and "0 \<le> MAX_PREVIEW_SIZE x"
    and "\<forall>(t, f)\<in>set es. keeping f"
    and "p2p_plugin_read x True (MAX_PREVIEW_SIZE x) m (MAX_PREVIEW_SIZE x) es p = Inl e"
  shows "e = Blocked"
proof -
  let ?n = "MAX_PREVIEW_SIZE x"
  have np: "pl_preview_size p \<le> pl_curpos p" and ok: "ring_ok (pl_ring p)"
    using assms(1,2) by (auto simp: plugin_ok_def)
  show ?thesis
    using assms(5) read_loop_no_UB [OF _ ok assms(4), of ?n m 0 0 ?n]
    unfolding read_no_preview [OF np assms(3)]
    by (cases "read_loop ?n m 0 0 ?n (pl_ring p) es") (auto split: if_splits)
qed

lemma fine_preview:
  assumes "calls_ok x (es, p)" and "0 \<le> MAX_PREVIEW_SIZE x"
  shows "fine x (run_call x (Optional_Data ty) (es, p))"
proof -
  let ?n = "MAX_PREVIEW_SIZE x"
  have ok: "plugin_ok x p" and k: "\<forall>(t, f)\<in>set es. keeping f"
    using assms(1) by (auto simp: calls_ok_def)
  show ?thesis
  proof (cases "ty = INPUT_OPTIONAL_DATA_PREVIEW x \<and> pl_preview_read_done p = 0")
    case False
    then show ?thesis
      using assms(1) ok by (auto simp: p2p_plugin_get_optional_data_def plugin_ok_def)
  next
    case True
    show ?thesis
    proof (cases "p2p_plugin_read x True ?n (pl_preview p) ?n es p")
      case (Inl e)
      then show ?thesis
        using True read_own_no_UB [OF ok _ assms(2) k Inl]
        by (simp add: p2p_plugin_get_optional_data_def)
    next
      case (Inr v)
      then obtain n m p1 es1 where r: "p2p_plugin_read x True ?n (pl_preview p) ?n es p
          = Inr (n, m, p1, es1)" by (cases v) auto
      have n: "0 \<le> n" "n \<le> ?n" using read_frame [OF r assms(2)] by simp_all
      have "calls_ok x (es1, p1)" using read_keeps [OF r assms(1)] .
      then show ?thesis
        using True r n by (auto simp: p2p_plugin_get_optional_data_def calls_ok_def plugin_ok_def)
    qed
  qed
qed

lemma fine_call:
  assumes "calls_ok x s" and "0 \<le> MAX_PREVIEW_SIZE x" and "call_ok c"
  shows "fine x (run_call x c s)"
proof -
  obtain es p where s: "s = (es, p)" by (cases s)
  show ?thesis
    using assms unfolding s by (cases c) (simp_all only: run_call.simps call_ok.simps fine_read
        fine_read_block [unfolded run_call.simps] fine_preview [unfolded run_call.simps])
qed

lemma fine_calls:
  "calls_ok x s \<Longrightarrow> 0 \<le> MAX_PREVIEW_SIZE x \<Longrightarrow> \<forall>c\<in>set cs. call_ok c \<Longrightarrow> fine x (run_calls x cs s)"
proof (induction cs arbitrary: s)
  case (Cons c cs)
  then have "fine x (run_call x c s)" using fine_call by simp
  then show ?case using Cons by (cases "run_call x c s") auto
qed simp

section \<open>Reads end when data keeps coming\<close>

text \<open>Interference after which there is something to read.\<close>

definition feeding :: "(ring \<Rightarrow> ring) \<Rightarrow> bool" where
  "feeding f \<longleftrightarrow> (\<forall>r. ring_ok r \<longrightarrow> ring_ok (f r) \<and> 0 < rb_count (f r))"

lemma read_loop_fed:
  "ring_ok r \<Longrightarrow> \<forall>(t, f)\<in>set es. feeding f \<Longrightarrow> 0 \<le> nlen \<Longrightarrow> nlen \<le> int (length es) \<Longrightarrow> 0 \<le> buf \<Longrightarrow>
     buf + nlen \<le> cap \<Longrightarrow>
     \<exists>dst' r' es'. read_loop cap dst buf copied nlen r es = Inr (False, dst', copied + nlen, r', es')"
proof (induction es arbitrary: dst buf copied nlen r)
  case Nil
  then show ?case by simp
next
  case (Cons e es)
  obtain t f where e: "e = (t, f)" by (cases e)
  show ?case
  proof (cases "0 < nlen")
    case False
    then show ?thesis using Cons.prems(3) by (simp add: read_loop_done)
  next
    case True
    have fr: "ring_ok (f r)" "0 < rb_count (f r)"
      using Cons.prems(1,2) e by (auto simp: feeding_def)
    obtain bs r2 where tk: "ring_take (f r) nlen = Inr (bs, r2)"
      using rq.tk_total [OF fr(1) Cons.prems(3)] by blast
    have ok2: "ring_ok r2" and ne: "bs \<noteq> []" and le: "int (length bs) \<le> nlen"
      using rq.tk_ok [OF fr(1) Cons.prems(3) tk] rq.tk_progress [OF fr(1) True tk] fr(2)
        ring_take_length [OF tk Cons.prems(3)] by (auto simp: contents_Nil_iff)
    have st: "store cap dst buf bs = Inr (mem_put dst buf bs)"
      using Cons.prems(5,6) le by simp
    have "1 \<le> int (length bs)" using ne by (cases bs) auto
    then have "\<exists>dst' r' es'. read_loop cap (mem_put dst buf bs) (buf + int (length bs))
        (copied + int (length bs)) (nlen - int (length bs)) r2 es
        = Inr (False, dst', copied + int (length bs) + (nlen - int (length bs)), r', es')"
      using Cons.prems(2,4-6) le ok2 by (intro Cons.IH) auto
    then show ?thesis
      using True e fr(2) tk st by (subst read_loop.simps) (auto simp: lock_ring_def)
  qed
qed

section \<open>Properties\<close>

text \<open>
  C23. Bounds of a read: whatever the plugin's state, the caller's buffer and the schedule, a
  read that returns reports -1 for a negative length and otherwise between 0 and \<open>nlen\<close>
  bytes, and it has stored nothing outside the bytes it reports.
\<close>

theorem p2p_plugin_read_bounds:
  assumes "p2p_plugin_read x own cap dst nlen es p = Inr (n, dst', p', es')"
  shows "if nlen < 0 then n = - 1 \<and> dst' = dst \<and> p' = p
    else 0 \<le> n \<and> n \<le> nlen \<and> (\<forall>a. a < 0 \<or> n \<le> a \<longrightarrow> dst' a = dst a)"
proof (cases "nlen < 0")
  case True
  then show ?thesis using assms by (simp add: p2p_plugin_read_def)
next
  case False
  then show ?thesis using read_frame [OF assms] by simp
qed

theorem p2p_plugin_read_bounds_witness:
  "\<exists>n dst' p'. p2p_plugin_read ex_xine False 8 (\<lambda>_. 0) 7 [(False, \<lambda>r. r), (False, \<lambda>r. r), (False, \<lambda>r. r), (True, \<lambda>r. r)] ex_plugin
      = Inr (n, dst', p', []) \<and> 0 \<le> n \<and> n \<le> 7 \<and> (\<forall>a. a < 0 \<or> n \<le> a \<longrightarrow> dst' a = 0)"
proof -
  let ?es = "[(False, \<lambda>r. r), (False, \<lambda>r. r), (False, \<lambda>r. r), (True, \<lambda>r. r)]"
  obtain n dst' p' where run: "p2p_plugin_read ex_xine False 8 (\<lambda>_. 0) 7 ?es ex_plugin
      = Inr (n, dst', p', [])"
    by (simp add: read_no_preview read_loop.simps lock_ring_def cond_wait_def ring_take_def
        ex_ring_def BUFFER_SIZE_def Let_def load_def store_def)
  show ?thesis using p2p_plugin_read_bounds [OF run] run by auto
qed

text \<open>
  C11. Any sequence of calls xine makes keeps the plugin object well formed and runs into no
  undefined behaviour: reads of any length into buffers large enough for it, block reads
  from the pool, requests for the preview, in any order and on any schedule that keeps the
  ring well formed, starting without preview bytes; the only way not to return is to wait
  for data with no wake-up left.
\<close>

theorem plugin_calls_safe:
  assumes "plugin_ok x p" and "0 \<le> MAX_PREVIEW_SIZE x" and "\<forall>(t, f)\<in>set es. keeping f"
    and "\<forall>c\<in>set cs. call_ok c"
  shows "case run_calls x cs (es, p) of
      Inl e \<Rightarrow> e = Blocked
    | Inr (es', p') \<Rightarrow> plugin_ok x p' \<and> (\<forall>(t, f)\<in>set es'. keeping f)"
  using fine_calls [of x "(es, p)" cs] assms
  by (auto simp: fine_def calls_ok_def split: sum.splits)

theorem plugin_calls_safe_witness:
  "\<exists>es' p'. run_calls ex_xine [Read 8 (\<lambda>_. 0) 2, Optional_Data 5, Read 1 (\<lambda>_. 0) (- 2)]
      ([], ex_plugin) = Inr (es', p') \<and> plugin_ok ex_xine p'"
proof -
  let ?cs = "[Read 8 (\<lambda>_. 0) 2, Optional_Data 5, Read 1 (\<lambda>_. 0) (- 2)]"
  have ok: "plugin_ok ex_xine ex_plugin"
    using ex_ring_ok by (simp add: plugin_ok_def)
  obtain es' p' where run: "run_calls ex_xine ?cs ([], ex_plugin) = Inr (es', p')"
    by (simp add: read_no_preview read_loop.simps lock_ring_def cond_wait_def ring_take_def
        ex_ring_def BUFFER_SIZE_def Let_def load_def store_def p2p_plugin_get_optional_data_def
        ex_xine_def p2p_plugin_read_def)
  then show ?thesis using plugin_calls_safe [OF ok, of "[]" ?cs] by simp
qed

text \<open>
  C24. A read ends when data keeps coming: if at each of at least \<open>nlen\<close> stays inside the
  mutex the ring has at least one byte, the call returns exactly \<open>nlen\<close> bytes, so the loop
  takes at most \<open>nlen\<close> rounds.
\<close>

theorem p2p_plugin_read_returns:
  assumes "ring_ok (pl_ring p)" and "pl_preview_size p \<le> pl_curpos p"
    and "0 \<le> nlen" and "nlen \<le> cap" and "nlen \<le> int (length es)"
    and "\<forall>(t, f)\<in>set es. feeding f"
  shows "\<exists>dst' p' es'. p2p_plugin_read x own cap dst nlen es p = Inr (nlen, dst', p', es')"
proof -
  obtain dst' r' es' where "read_loop cap dst 0 0 nlen (pl_ring p) es = Inr (False, dst', 0 + nlen, r', es')"
    using read_loop_fed [OF assms(1,6,3,5), of 0 cap dst 0] assms(4) by auto
  then show ?thesis using read_no_preview [OF assms(2,3)] by simp
qed

theorem p2p_plugin_read_returns_witness:
  "\<exists>dst' p' es'. p2p_plugin_read ex_xine False 8 (\<lambda>_. 0) 2
      [(False, \<lambda>r. r\<lparr>rb_count := 1\<rparr>), (True, \<lambda>r. r\<lparr>rb_count := 1\<rparr>)]
      (ex_plugin\<lparr>pl_ring := ring_new (\<lambda>_. 0)\<rparr>) = Inr (2, dst', p', es')"
  by (rule p2p_plugin_read_returns)
    (auto simp: feeding_def ring_ok_def ring_new_def BUFFER_SIZE_def)

end
