(* ===== verification/Debug_Output.thy ===== *)
theory Debug_Output
  imports Mrl Network Output_Ffmpeg
begin

text \<open>
  The listings for debugging: \<open>network_print_chunkBuffer\<close> of \<open>src/network.c\<close> and, when the
  program is built with \<open>DEBUG\<close>, \<open>output_ffmpeg_buffer_print\<close> of \<open>src/output_ffmpeg.c\<close>.
  What they write to \<open>stderr\<close> is their result, a string.
\<close>

section \<open>Formatted integers\<close>

fun dec :: "nat \<Rightarrow> string" where
  "dec n = (if n < 10 then [char_of (48 + n)] else dec (n div 10) @ [char_of (48 + n mod 10)])"

declare dec.simps [simp del]

definition show_int :: "int \<Rightarrow> string" where
  "show_int i = (if i < 0 then CHR ''-'' # dec (nat (- i)) else dec (nat i))"

text \<open>The format \<open>%5d \<close>, with the blank behind it.\<close>

definition printf_5d :: "int \<Rightarrow> string" where
  "printf_5d i = (let s = show_int i in replicate (5 - length s) CHR '' '' @ s @ '' '')"

text \<open>\<open>if (i % 10 == 0) fprintf(stderr, "\n\t")\<close>\<close>

definition line_start :: "int \<Rightarrow> string" where
  "line_start i = (if i mod 10 = 0 then [CHR 0x0A, CHR 0x09] else [])"

section \<open>The two functions\<close>

fun print_ids :: "int \<Rightarrow> chunk list \<Rightarrow> string" where
  "print_ids i [] = []"
| "print_ids i (c # cs) = line_start i @ printf_5d (ck_id c) @ print_ids (i + 1) cs"

definition network_print_chunkBuffer ::
  "('g, 'c, 'n) grapes \<Rightarrow> ('g, 'c, 'n, 'w) net \<Rightarrow> string"
where
  "network_print_chunkBuffer g s =
     ''DEBUG: Chunks in buffer:'' @ print_ids 0 (cb_get_chunks g (nt_lib s)) @ [CHR 0x0A]"

fun print_slots :: "ostate \<Rightarrow> int list \<Rightarrow> string res" where
  "print_slots s [] = Inr []"
| "print_slots s (i # is) =
     bnd (slot_at s i) (\<lambda>c.
     bnd (print_slots s is) (\<lambda>rest.
     Inr (line_start i @ (if ck_data c \<noteq> None then printf_5d (ck_id c) else ''----- '') @ rest)))"

definition output_ffmpeg_buffer_print :: "int \<Rightarrow> ostate \<Rightarrow> int \<Rightarrow> string res" where
  "output_ffmpeg_buffer_print firstChunk s currentChunkId =
     (if firstChunk < 0 then Inr []
      else bnd (print_slots s [0 .. oc_outputBufferSize (os_ctx s) - 1]) (\<lambda>slots.
           Inr (''DEBUG: outputBuffer: currentChunkId '' @ show_int currentChunkId @ slots
                @ [CHR 0x0A])))"

text \<open>On a well-formed context the listing of the slots touches no slot out of bounds.\<close>

lemma print_slots_total:
  assumes "ctx_ok (os_ctx s)" and "\<forall>i\<in>set is. 0 \<le> i \<and> i < oc_outputBufferSize (os_ctx s)"
  shows "\<exists>t. print_slots s is = Inr t"
  using assms(2)
proof (induction "is")
  case (Cons i js)
  then obtain c t where "slot_at s i = Inr c" and "print_slots s js = Inr t"
    using slot_at_total [OF assms(1)] by fastforce
  then show ?case by simp
qed simp

lemma buffer_print_total:
  "ctx_ok (os_ctx s) \<Longrightarrow> \<exists>t. output_ffmpeg_buffer_print fc s k = Inr t"
  using print_slots_total [of s "[0 .. oc_outputBufferSize (os_ctx s) - 1]"]
  by (auto simp: output_ffmpeg_buffer_print_def)

section \<open>Reading the listings\<close>

text \<open>The words of a string, and a listing's words.\<close>

fun words_from :: "string \<Rightarrow> string \<Rightarrow> string list" where
  "words_from w [] = (if w = [] then [] else [w])"
| "words_from w (c # cs) =
     (if is_space c then (if w = [] then [] else [w]) @ words_from [] cs
      else words_from (w @ [c]) cs)"

lemma words_from_nonspace:
  "\<forall>c\<in>set x. \<not> is_space c \<Longrightarrow> words_from w (x @ cs) = words_from (w @ x) cs"
  by (induction x arbitrary: w) simp_all

lemma words_from_space: "\<forall>c\<in>set x. is_space c \<Longrightarrow> words_from [] (x @ cs) = words_from [] cs"
  by (induction x) simp_all

lemma words_from_word:
  assumes "\<forall>c\<in>set x. \<not> is_space c" and "x \<noteq> []" and "is_space c"
  shows "words_from [] (x @ c # cs) = x # words_from [] cs"
  using words_from_nonspace [OF assms(1)] assms(2,3) by simp

lemma is_digit_char: "n < 10 \<Longrightarrow> is_digit (char_of (48 + n :: nat))"
  by (simp add: is_digit_def)

lemma digit_not_space: "is_digit c \<Longrightarrow> \<not> is_space c \<and> c \<noteq> CHR ''-'' \<and> c \<noteq> CHR ''+''"
  by (auto simp: is_digit_def is_space_def)

lemma dec_digits: "\<forall>c\<in>set (dec n). is_digit c"
  by (induction n rule: dec.induct) (subst dec.simps, auto simp: is_digit_char)

lemma dec_not_Nil: "dec n \<noteq> []"
  by (subst dec.simps) simp

lemma digits_value_append: "digits_value (xs @ [c]) = digits_value xs * 10 + (of_char c - 48)"
  by (simp add: digits_value_def)

lemma of_char_digit: "n < 10 \<Longrightarrow> (of_char (char_of (48 + n :: nat)) :: int) = 48 + int n"
  using of_nat_of_char [of "char_of (48 + n)", where 'a = int] by (simp del: of_nat_of_char)

lemma digits_value_dec: "digits_value (dec n) = int n"
proof (induction n rule: dec.induct)
  case (1 n)
  show ?case
  proof (cases "n < 10")
    case True
    then show ?thesis
      by (subst dec.simps) (simp add: digits_value_def of_char_digit)
  next
    case False
    then have "digits_value (dec n) = int (n div 10) * 10 + int (n mod 10)"
      using 1 by (subst dec.simps) (simp add: digits_value_append of_char_digit)
    also have "\<dots> = int n" by (metis div_mult_mod_eq of_nat_add of_nat_mult of_nat_numeral)
    finally show ?thesis .
  qed
qed

lemma digits_value_taken: "digits_value (takeWhile is_digit (dec n)) = int n"
proof -
  have "takeWhile is_digit (dec n) = dec n"
    using dec_digits by (simp add: takeWhile_eq_all_conv)
  then show ?thesis by (simp only: digits_value_dec)
qed

lemma atoi_show_int:
  assumes "INT_MIN \<le> i" and "i \<le> INT_MAX"
  shows "atoi (show_int i) = Inr i"
proof (cases "i < 0")
  case True
  moreover have "\<not> is_space CHR ''-''" by (simp add: is_space_def)
  ultimately show ?thesis
    using assms by (simp add: atoi_def show_int_def digits_value_taken)
next
  case False
  obtain c cs where d: "dec (nat i) = c # cs" using dec_not_Nil by (cases "dec (nat i)") auto
  then have c: "is_digit c" using dec_digits [of "nat i"] by simp
  have "digits_value (takeWhile is_digit (c # cs)) = i"
    using digits_value_taken [of "nat i"] d False by simp
  then show ?thesis
    using assms False digit_not_space [OF c] d by (simp add: atoi_def show_int_def Let_def)
qed

lemma show_int_word: "(\<forall>c\<in>set (show_int i). \<not> is_space c) \<and> show_int i \<noteq> []"
  using dec_digits dec_not_Nil digit_not_space by (auto simp: show_int_def is_space_def)

lemma words_printf:
  "words_from [] (line_start i @ printf_5d k @ cs) = show_int k # words_from [] cs"
proof -
  have "words_from [] ((line_start i @ replicate (5 - length (show_int k)) CHR '' '')
      @ show_int k @ CHR '' '' # cs) = words_from [] (show_int k @ CHR '' '' # cs)"
    by (rule words_from_space) (auto simp: line_start_def is_space_def)
  also have "\<dots> = show_int k # words_from [] cs"
    using words_from_word [of "show_int k" "CHR '' ''" cs] show_int_word [of k]
    by (simp add: is_space_def)
  finally show ?thesis by (simp add: printf_5d_def Let_def)
qed

lemma words_ids:
  "words_from [] (print_ids i cs @ [CHR 0x0A]) = map (\<lambda>c. show_int (ck_id c)) cs"
proof (induction cs arbitrary: i)
  case Nil
  then show ?case by (simp add: is_space_def)
next
  case (Cons c cs)
  then show ?case using words_printf [of i "ck_id c" "print_ids (i + 1) cs @ [CHR 0x0A]"] by simp
qed

section \<open>Properties\<close>

text \<open>
  C39. The listing of the chunk buffer can be read back: its words are those of its heading
  followed by numbers, and \<open>atoi\<close> gives from these the ids of the chunks in the buffer, in
  order, negative ones too.
\<close>

theorem print_chunkBuffer_roundtrip:
  assumes "\<forall>c\<in>set (cb_get_chunks g (nt_lib s)). INT_MIN \<le> ck_id c \<and> ck_id c \<le> INT_MAX"
  shows "\<exists>ws. words_from [] (network_print_chunkBuffer g s)
      = [''DEBUG:'', ''Chunks'', ''in'', ''buffer:''] @ ws
    \<and> map atoi ws = map (\<lambda>c. Inr (ck_id c)) (cb_get_chunks g (nt_lib s))"
proof -
  let ?cs = "cb_get_chunks g (nt_lib s)"
  have h: "words_from [] (''DEBUG: Chunks in buffer:'' @ cs)
      = [''DEBUG:'', ''Chunks'', ''in''] @ words_from ''buffer:'' cs" for cs
    by (simp add: is_space_def)
  have "words_from w (print_ids 0 ?cs @ [CHR 0x0A])
      = (if w = [] then [] else [w]) @ words_from [] (print_ids 0 ?cs @ [CHR 0x0A])" for w
    by (cases ?cs) (simp_all add: is_space_def line_start_def)
  then have "words_from [] (network_print_chunkBuffer g s)
      = [''DEBUG:'', ''Chunks'', ''in'', ''buffer:''] @ map (\<lambda>c. show_int (ck_id c)) ?cs"
    unfolding network_print_chunkBuffer_def h by (simp add: words_ids)
  moreover have "map atoi (map (\<lambda>c. show_int (ck_id c)) ?cs) = map (\<lambda>c. Inr (ck_id c)) ?cs"
    using assms by (simp add: atoi_show_int)
  ultimately show ?thesis by blast
qed

theorem print_chunkBuffer_roundtrip_witness:
  "\<exists>ws. words_from [] (network_print_chunkBuffer (ex_grapes (ex_ck 0) undefined)
        (ex_net [ex_ck 7, ex_ck (- 12), ex_ck 123456] :: (chunk list, int list, nat, unit) net))
      = [''DEBUG:'', ''Chunks'', ''in'', ''buffer:''] @ ws
    \<and> map atoi ws = [Inr 7, Inr (- 12), Inr 123456]"
  using print_chunkBuffer_roundtrip [of "ex_grapes (ex_ck 0) undefined"
      "ex_net [ex_ck 7, ex_ck (- 12), ex_ck 123456] :: (chunk list, int list, nat, unit) net"]
  by (simp add: ex_grapes_def ex_net_def ex_ck_def INT_MIN_def INT_MAX_def)

end
