(* ===== verification/Interleaving.thy ===== *)
theory Interleaving
  imports Streamer
begin

text \<open>
  The running program: the five threads that \<open>threads_start\<close> (\<open>src/threads.c\<close>) creates, in any
  interleaving of their accesses to the globals.

  What a step is follows from the mutexes.  The receiving and the topology thread touch the
  shared data in one region of their mutexes, which is one step; an answer that the receiving
  thread sends after it has unlocked is a step of its own.  The sending thread takes all three
  mutexes in one step and then sends entry by entry, so what it has sent stays sent when a
  later entry is undefined.  The offering thread holds two mutexes during its round, but
  \<open>transId++\<close> in it is not protected against \<open>transId++\<close> in the thread that requests the data
  of the login, which holds none: in both threads the load, the store and the message are
  separate steps.  The tests of \<open>stopThreads\<close> are steps too.

  The messages that will arrive are part of the state.  Without one the receiving thread stays
  in \<open>recv_from_peer\<close>.
\<close>

section \<open>Steps\<close>

text \<open>
  Where a thread is.  The sending thread keeps the index of its loop, the offering thread the
  neighbours it has still to serve, and for the neighbour it is serving the loaded value of
  \<open>transId\<close>, then the number of the message.
\<close>

datatype ('c, 'n) pc =
    Testing
  | Working
  | Replying "('c, 'n) answer"
  | Sending int
  | Offering "'n list"
  | Offer_Loaded int 'n "'c option" "'n list"
  | Offer_Stored int 'n "'c option" "'n list"
  | Login_Loaded int
  | Login_Stored int
  | Finished

text \<open>
  \<open>pg_inbox\<close> lists what \<open>recv_from_peer\<close> will return: sender, buffer and length, -1 for an
  error.
\<close>

record ('g, 'c, 'n, 'w) program =
  pg_net :: "('g, 'c, 'n, 'w) net"
  pg_inbox :: "('n \<times> byte list \<times> int) list"
  pg_pc :: "thread \<Rightarrow> ('c, 'n) pc"

text \<open>The thread that requests the data of the login has no loop.\<close>

fun first_pc :: "thread \<Rightarrow> ('c, 'n) pc" where
  "first_pc Request_Login = Working"
| "first_pc t = Testing"

fun next_pc :: "thread \<Rightarrow> ('c, 'n) pc" where
  "next_pc Request_Login = Finished"
| "next_pc t = Testing"

definition program_start ::
  "('g, 'c, 'n, 'w) net \<Rightarrow> ('n \<times> byte list \<times> int) list \<Rightarrow> ('g, 'c, 'n, 'w) program"
where
  "program_start s ms = \<lparr>pg_net = s, pg_inbox = ms, pg_pc = first_pc\<rparr>"

definition move ::
  "thread \<Rightarrow> ('c, 'n) pc \<Rightarrow> ('g, 'c, 'n, 'w) net \<Rightarrow> ('g, 'c, 'n, 'w) program
     \<Rightarrow> ('g, 'c, 'n, 'w) program"
where
  "move t c s p = p\<lparr>pg_net := s, pg_pc := (pg_pc p)(t := c)\<rparr>"

text \<open>The mutexes a thread holds between its steps.\<close>

fun held :: "('c, 'n) pc \<Rightarrow> mutex set" where
  "held (Sending i) = {topologyMutex, chunkBufferMutex, peerChunkMutex}"
| "held (Offering ns) = {topologyMutex, chunkBufferMutex}"
| "held (Offer_Loaded k n cset ns) = {topologyMutex, chunkBufferMutex}"
| "held (Offer_Stored i n cset ns) = {topologyMutex, chunkBufferMutex}"
| "held c = {}"

text \<open>The mutexes that a round takes, by what it logs, are free.\<close>

definition unblocked :: "('g, 'c, 'n, 'w) program \<Rightarrow> ('c, 'n) event list \<Rightarrow> bool" where
  "unblocked p es \<longleftrightarrow> (\<forall>t. \<forall>mx\<in>held (pg_pc p t). Lock mx \<notin> set es)"

inductive program_step ::
  "('g, 'c, 'n) grapes \<Rightarrow> ('e, 'w) output_interface \<Rightarrow> thread
     \<Rightarrow> ('g, 'c, 'n, 'w) program \<Rightarrow> ('g, 'c, 'n, 'w) program \<Rightarrow> bool"
  for g :: "('g, 'c, 'n) grapes" and m :: "('e, 'w) output_interface"
where
  goes_on: "pg_pc p t = Testing \<Longrightarrow> nt_stopThreads (pg_net p) \<noteq> 1 \<Longrightarrow>
     program_step g m t p (move t Working (pg_net p) p)"
| stops: "pg_pc p t = Testing \<Longrightarrow> nt_stopThreads (pg_net p) = 1 \<Longrightarrow>
     program_step g m t p (move t Finished (pg_net p) p)"
| receives: "pg_pc p Receive_Data = Working \<Longrightarrow> pg_inbox p = msg # ms \<Longrightarrow>
     thread_body g m Receive_Data msg (pg_net p) = Inr s \<Longrightarrow>
     nt_log s = nt_log (pg_net p) @ es \<Longrightarrow> unblocked p es \<Longrightarrow>
     program_step g m Receive_Data p (move Receive_Data Testing s (p\<lparr>pg_inbox := ms\<rparr>))"
| receives_to_answer: "pg_pc p Receive_Data = Working \<Longrightarrow> pg_inbox p = msg # ms \<Longrightarrow>
     thread_body g m Receive_Data msg (pg_net p) = Inr (emit (message a) s) \<Longrightarrow>
     nt_log s = nt_log (pg_net p) @ es \<Longrightarrow> unblocked p es \<Longrightarrow>
     program_step g m Receive_Data p (move Receive_Data (Replying a) s (p\<lparr>pg_inbox := ms\<rparr>))"
| answers: "pg_pc p t = Replying a \<Longrightarrow>
     program_step g m t p (move t Testing (emit (message a) (pg_net p)) p)"
| topology_works: "pg_pc p Send_Topology = Working \<Longrightarrow>
     threads_send_topology g (pg_net p) = Inr s \<Longrightarrow>
     nt_log s = nt_log (pg_net p) @ es \<Longrightarrow> unblocked p es \<Longrightarrow>
     program_step g m Send_Topology p (move Send_Topology Testing s p)"
| send_locks: "pg_pc p Send_Chunk = Working \<Longrightarrow>
     unblocked p [Lock topologyMutex, Lock chunkBufferMutex, Lock peerChunkMutex] \<Longrightarrow>
     program_step g m Send_Chunk p (move Send_Chunk (Sending 0)
       (emit (Lock peerChunkMutex) (emit (Lock chunkBufferMutex)
         (emit (Lock topologyMutex) (pg_net p)))) p)"
| send_sends: "pg_pc p Send_Chunk = Sending i \<Longrightarrow> i < nt_peerChunksSize (pg_net p) \<Longrightarrow>
     send_one g (pg_net p) i = Inr (s, b) \<Longrightarrow>
     program_step g m Send_Chunk p (move Send_Chunk (Sending (i + 1)) s p)"
| send_unlocks: "pg_pc p Send_Chunk = Sending i \<Longrightarrow> \<not> i < nt_peerChunksSize (pg_net p) \<Longrightarrow>
     program_step g m Send_Chunk p (move Send_Chunk Testing
       (emit (Unlock topologyMutex) (emit (Unlock chunkBufferMutex) (emit (Unlock peerChunkMutex)
         ((pg_net p)\<lparr>nt_peerChunks := None, nt_peerChunksSize := 0\<rparr>)))) p)"
| offer_locks: "pg_pc p Offer_Chunk = Working \<Longrightarrow>
     unblocked p [Lock topologyMutex, Lock chunkBufferMutex] \<Longrightarrow>
     ns = take 10 (psample_get_cache g (nt_lib (pg_net p))) \<Longrightarrow>
     program_step g m Offer_Chunk p (move Offer_Chunk (Offering ns)
       (emit (Lock chunkBufferMutex) (emit (Lock topologyMutex) (pg_net p))) p)"
| offer_skips: "pg_pc p t = Offering (n # ns) \<Longrightarrow>
     nodeid_equal g (nt_serverSocket (pg_net p)) n \<noteq> 0 \<Longrightarrow>
     program_step g m t p (move t (Offering ns) (pg_net p) p)"
| offer_loads: "pg_pc p t = Offering (n # ns) \<Longrightarrow>
     nodeid_equal g (nt_serverSocket (pg_net p)) n = 0 \<Longrightarrow>
     network_chunkBuffer_to_buffermap g (pg_net p) = Inr cset \<Longrightarrow>
     program_step g m t p (move t (Offer_Loaded (nt_transId (pg_net p)) n cset ns) (pg_net p) p)"
| offer_stores: "pg_pc p t = Offer_Loaded k n cset ns \<Longrightarrow> cint (k + 1) = Inr k' \<Longrightarrow>
     program_step g m t p (move t (Offer_Stored (k mod 2 ^ 16) n cset ns)
       ((pg_net p)\<lparr>nt_transId := k'\<rparr>) p)"
| offer_sends: "pg_pc p t = Offer_Stored i n cset ns \<Longrightarrow>
     program_step g m t p (move t (Offering ns) (emit (OfferChunks n cset 50 i) (pg_net p)) p)"
| offer_unlocks: "pg_pc p t = Offering [] \<Longrightarrow>
     program_step g m t p (move t Testing
       (emit (Unlock topologyMutex) (emit (Unlock chunkBufferMutex) (pg_net p))) p)"
| login_skips: "pg_pc p Request_Login = Working \<Longrightarrow> nt_output (pg_net p) = Some w \<Longrightarrow>
     oi_secured_data_enabled_login m w \<noteq> 1 \<Longrightarrow>
     program_step g m Request_Login p (move Request_Login Finished (pg_net p) p)"
| login_loads: "pg_pc p Request_Login = Working \<Longrightarrow> nt_output (pg_net p) = Some w \<Longrightarrow>
     oi_secured_data_enabled_login m w = 1 \<Longrightarrow>
     program_step g m Request_Login p
       (move Request_Login (Login_Loaded (nt_transId (pg_net p))) (pg_net p) p)"
| login_stores: "pg_pc p t = Login_Loaded k \<Longrightarrow> cint (k + 1) = Inr k' \<Longrightarrow>
     program_step g m t p (move t (Login_Stored (k mod 2 ^ 16)) ((pg_net p)\<lparr>nt_transId := k'\<rparr>) p)"
| login_sends: "pg_pc p t = Login_Stored i \<Longrightarrow>
     program_step g m t p (move t Finished
       (emit (RequestSecuredDataLogin (nt_serverSocket (pg_net p)) i) (pg_net p)) p)"

definition some_step ::
  "('g, 'c, 'n) grapes \<Rightarrow> ('e, 'w) output_interface
     \<Rightarrow> ('g, 'c, 'n, 'w) program \<Rightarrow> ('g, 'c, 'n, 'w) program \<Rightarrow> bool"
where
  "some_step g m p q \<longleftrightarrow> (\<exists>t. program_step g m t p q)"

lemma some_stepI: "program_step g m t p q \<Longrightarrow> some_step g m p q"
  unfolding some_step_def by blast

lemma move_simps [simp]:
  "pg_net (move t c s p) = s" "pg_pc (move t c s p) = (pg_pc p)(t := c)"
  "move t c s (move t d r p) = move t c s p"
  by (simp_all add: move_def)

lemma program_start_simps [simp]:
  "pg_net (program_start s ms) = s" "pg_inbox (program_start s ms) = ms"
  "pg_pc (program_start s ms) = first_pc"
  by (simp_all add: program_start_def)

lemma move_program_start:
  "move t (first_pc t) s ((program_start r ms)\<lparr>pg_inbox := ms'\<rparr>) = program_start s ms'"
  by (simp add: move_def program_start_def)

lemma move_inbox [simp]:
  "pg_inbox (move t c s p) = pg_inbox p"
  "(move t c s p)\<lparr>pg_inbox := ms\<rparr> = move t c s (p\<lparr>pg_inbox := ms\<rparr>)"
  by (simp_all add: move_def)

lemma unblocked_free: "\<forall>u. held (pg_pc p u) = {} \<Longrightarrow> unblocked p es"
  by (simp add: unblocked_def)

section \<open>Relations kept by steps\<close>

context numbering_relation
begin

lemma step_other:
  assumes "program_step g m t p q" and "t \<noteq> Send_Chunk"
  shows "R (pg_net p) (pg_net q)"
  using assms(1)
proof cases
  case (receives msg ms s es)
  then show ?thesis using body by simp
next
  case (receives_to_answer msg ms a s es)
  then have "R (pg_net p) (emit (message a) s)" using body by blast
  then show ?thesis using R_unanswered receives_to_answer by simp
next
  case (topology_works s es)
  then show ?thesis using topology by simp
next
  case offer_locks
  then show ?thesis
    using R_emit [of "pg_net p" "emit (Lock topologyMutex) (pg_net p)"] R_neutral by simp
next
  case offer_unlocks
  then show ?thesis
    using R_emit [of "pg_net p" "emit (Unlock chunkBufferMutex) (pg_net p)"] R_neutral by simp
qed (use assms(2) in \<open>simp_all add: R_refl R_neutral R_transId R_offer R_login\<close>)

end

context thread_relation
begin

lemma step:
  assumes "program_step g m t p q"
  shows "R (pg_net p) (pg_net q)"
proof (cases "t = Send_Chunk")
  case True
  show ?thesis
    using assms
  proof cases
    case send_locks
    then show ?thesis by (simp add: R_emit R_refl)
  next
    case (send_sends i s b)
    then show ?thesis using R_send_one by simp
  next
    case (send_unlocks i)
    then show ?thesis by (simp add: R_emit R_sent)
  next
    case offer_unlocks
    then show ?thesis by (simp add: R_emit R_refl)
  qed (use True in \<open>simp_all add: R_refl R_neutral R_transId R_offer R_login\<close>)
qed (use step_other assms in simp)

lemma run: "(some_step g m)\<^sup>*\<^sup>* p q \<Longrightarrow> R (pg_net p) (pg_net q)"
  by (induction rule: rtranclp_induct) (auto simp: some_step_def R_refl intro: R_trans step)

end

section \<open>Rounds as runs\<close>

text \<open>
  A round that no other thread interrupts is the function of theory \<open>Threads\<close>.
\<close>

lemma body_log:
  assumes "thread_body g m t msg s = Inr s'"
  obtains es where "nt_log s' = nt_log s @ es"
proof -
  have "balanced [] s s'"
    using assms balanced_receive balanced_topology balanced_offer_chunk balanced_send_chunk balanced_login
    by (cases "(g, m, t, msg, s)" rule: thread_body.cases) auto
  then show ?thesis using that by (auto simp: balanced_def)
qed

lemma offers_run:
  "pg_pc p Offer_Chunk = Offering ns \<Longrightarrow> offer_to g ns (pg_net p) = Inr s \<Longrightarrow>
     (some_step g m)\<^sup>*\<^sup>* p (move Offer_Chunk (Offering []) s p)"
proof (induction ns arbitrary: p)
  case Nil
  then have "move Offer_Chunk (Offering []) s p = p" by (auto simp: move_def fun_upd_idem)
  then show ?case by simp
next
  case (Cons n ns)
  show ?case
  proof (cases "nodeid_equal g (nt_serverSocket (pg_net p)) n = 0")
    case True
    then obtain cset k where c: "network_chunkBuffer_to_buffermap g (pg_net p) = Inr cset"
      and k: "cint (nt_transId (pg_net p) + 1) = Inr k"
      and rest: "offer_to g ns (emit (OfferChunks n cset 50 (nt_transId (pg_net p) mod 2 ^ 16))
        ((pg_net p)\<lparr>nt_transId := k\<rparr>)) = Inr s"
      using Cons.prems(2) by (auto simp: next_transId_def)
    let ?p1 = "move Offer_Chunk (Offer_Loaded (nt_transId (pg_net p)) n cset ns) (pg_net p) p"
    let ?p2 = "move Offer_Chunk (Offer_Stored (nt_transId (pg_net p) mod 2 ^ 16) n cset ns)
      ((pg_net p)\<lparr>nt_transId := k\<rparr>) p"
    let ?p3 = "move Offer_Chunk (Offering ns) (emit (OfferChunks n cset 50
      (nt_transId (pg_net p) mod 2 ^ 16)) ((pg_net p)\<lparr>nt_transId := k\<rparr>)) p"
    have "some_step g m p ?p1"
      using offer_loads [OF Cons.prems(1) True c] by (rule some_stepI)
    moreover have "some_step g m ?p1 ?p2"
      using offer_stores [of ?p1 Offer_Chunk _ n cset ns k g m] k by (intro some_stepI) simp
    moreover have "some_step g m ?p2 ?p3"
      using offer_sends [of ?p2 Offer_Chunk _ n cset ns g m] by (intro some_stepI) simp
    moreover have "(some_step g m)\<^sup>*\<^sup>* ?p3 (move Offer_Chunk (Offering []) s p)"
      using Cons.IH [of ?p3] rest by simp
    ultimately show ?thesis by (meson converse_rtranclp_into_rtranclp)
  next
    case False
    let ?p1 = "move Offer_Chunk (Offering ns) (pg_net p) p"
    have "some_step g m p ?p1"
      using offer_skips [OF Cons.prems(1) False] by (rule some_stepI)
    moreover have "(some_step g m)\<^sup>*\<^sup>* ?p1 (move Offer_Chunk (Offering []) s p)"
      using Cons.IH [of ?p1] Cons.prems(2) False by simp
    ultimately show ?thesis by (rule converse_rtranclp_into_rtranclp)
  qed
qed

lemma offer_round_runs:
  assumes "pg_pc p Offer_Chunk = Working" and "\<forall>u. held (pg_pc p u) = {}"
    and "threads_offer_chunk g (pg_net p) = Inr s"
  shows "(some_step g m)\<^sup>*\<^sup>* p (move Offer_Chunk Testing s p)"
proof -
  let ?ns = "take 10 (psample_get_cache g (nt_lib (pg_net p)))"
  let ?s1 = "emit (Lock chunkBufferMutex) (emit (Lock topologyMutex) (pg_net p))"
  let ?p1 = "move Offer_Chunk (Offering ?ns) ?s1 p"
  obtain s2 where o: "offer_to g ?ns ?s1 = Inr s2"
    and s: "s = emit (Unlock topologyMutex) (emit (Unlock chunkBufferMutex) s2)"
    using assms(3) by (auto simp: threads_offer_chunk_def locked_def)
  let ?p2 = "move Offer_Chunk (Offering []) s2 p"
  have "some_step g m p ?p1"
    using offer_locks [OF assms(1) unblocked_free [OF assms(2)] refl] by (rule some_stepI)
  moreover have "(some_step g m)\<^sup>*\<^sup>* ?p1 ?p2"
    using offers_run [of ?p1 ?ns g s2 m] o by simp
  moreover have "some_step g m ?p2 (move Offer_Chunk Testing s p)"
    using offer_unlocks [of ?p2 Offer_Chunk g m] s by (intro some_stepI) simp
  ultimately show ?thesis
    by (meson converse_rtranclp_into_rtranclp rtranclp.rtrancl_into_rtrancl)
qed

lemma login_round_runs:
  assumes "pg_pc p Request_Login = Working"
    and "threads_request_secured_data_login m (pg_net p) = Inr s"
  shows "(some_step g m)\<^sup>*\<^sup>* p (move Request_Login Finished s p)"
proof -
  obtain w where w: "nt_output (pg_net p) = Some w"
    using assms(2) by (auto simp: threads_request_secured_data_login_def)
  show ?thesis
  proof (cases "oi_secured_data_enabled_login m w = 1")
    case True
    then obtain k where k: "cint (nt_transId (pg_net p) + 1) = Inr k"
      and s: "s = emit (RequestSecuredDataLogin (nt_serverSocket (pg_net p))
        (nt_transId (pg_net p) mod 2 ^ 16)) ((pg_net p)\<lparr>nt_transId := k\<rparr>)"
      using assms(2) w by (auto simp: threads_request_secured_data_login_def next_transId_def)
    let ?p1 = "move Request_Login (Login_Loaded (nt_transId (pg_net p))) (pg_net p) p"
    let ?p2 = "move Request_Login (Login_Stored (nt_transId (pg_net p) mod 2 ^ 16))
      ((pg_net p)\<lparr>nt_transId := k\<rparr>) p"
    have "some_step g m p ?p1"
      using login_loads [OF assms(1) w True] by (rule some_stepI)
    moreover have "some_step g m ?p1 ?p2"
      using login_stores [of ?p1 Request_Login _ k g m] k by (intro some_stepI) simp
    moreover have "some_step g m ?p2 (move Request_Login Finished s p)"
      using login_sends [of ?p2 Request_Login _ g m] s by (intro some_stepI) simp
    ultimately show ?thesis by (meson converse_rtranclp_into_rtranclp r_into_rtranclp)
  next
    case False
    then have "s = pg_net p"
      using assms(2) w by (simp add: threads_request_secured_data_login_def)
    then show ?thesis using login_skips [OF assms(1) w False] some_stepI by blast
  qed
qed

text \<open>The sending thread goes through its loop entry by entry.\<close>

lemma send_one_size: "send_one g s i = Inr (s', b) \<Longrightarrow> nt_peerChunksSize s' = nt_peerChunksSize s \<and> b"
  by (auto simp: send_one_def free_peer_def split: option.splits)

lemma sends_run:
  "pg_pc p Send_Chunk = Sending i \<Longrightarrow> i \<le> n \<Longrightarrow> n = nt_peerChunksSize (pg_net p) \<Longrightarrow>
     for_loop (\<lambda>s i. Inr (i < nt_peerChunksSize s)) (send_one g) [i .. n] (pg_net p) = Inr (s, b) \<Longrightarrow>
     \<exists>j. (some_step g m)\<^sup>*\<^sup>* p (move Send_Chunk (Sending j) s p) \<and> \<not> j < nt_peerChunksSize s"
proof (induction "nat (n - i)" arbitrary: p i)
  case 0
  then have "pg_net p = s" by (simp add: upto.simps)
  then have "move Send_Chunk (Sending i) s p = p" using 0 by (auto simp: move_def fun_upd_idem)
  then show ?case using 0 by (intro exI [of _ i]) auto
next
  case (Suc k)
  then have i: "i < n" by simp
  then have k: "k = nat (n - (i + 1))" and "[i .. n] = i # [i + 1 .. n]" using Suc.hyps(2) by (simp_all add: upto.simps)
  then obtain s1 b1 where one: "send_one g (pg_net p) i = Inr (s1, b1)"
    and rest: "for_loop (\<lambda>s i. Inr (i < nt_peerChunksSize s)) (send_one g) [i + 1 .. n] s1 = Inr (s, b)"
    using Suc.prems i by (auto dest: send_one_size split: if_splits)
  let ?p1 = "move Send_Chunk (Sending (i + 1)) s1 p"
  have "some_step g m p ?p1"
    using send_sends [OF Suc.prems(1) _ one] i Suc.prems(3) by (intro some_stepI) simp
  moreover obtain j where "(some_step g m)\<^sup>*\<^sup>* ?p1 (move Send_Chunk (Sending j) s p)"
    and "\<not> j < nt_peerChunksSize s"
    using Suc.hyps(1) [OF k, of ?p1] i rest send_one_size [OF one] Suc.prems(3) by auto
  ultimately show ?case by (meson converse_rtranclp_into_rtranclp)
qed

lemma send_round_runs:
  assumes "pg_pc p Send_Chunk = Working" and "\<forall>u. held (pg_pc p u) = {}"
    and "0 \<le> nt_peerChunksSize (pg_net p)" and "threads_send_chunk g (pg_net p) = Inr s"
  shows "(some_step g m)\<^sup>*\<^sup>* p (move Send_Chunk Testing s p)"
proof -
  let ?s1 = "emit (Lock peerChunkMutex) (emit (Lock chunkBufferMutex)
    (emit (Lock topologyMutex) (pg_net p)))"
  let ?p1 = "move Send_Chunk (Sending 0) ?s1 p"
  obtain s2 b where l: "for_loop (\<lambda>s i. Inr (i < nt_peerChunksSize s)) (send_one g)
      [0 .. nt_peerChunksSize ?s1] ?s1 = Inr (s2, b)"
    and s: "s = emit (Unlock topologyMutex) (emit (Unlock chunkBufferMutex) (emit (Unlock peerChunkMutex)
      (s2\<lparr>nt_peerChunks := None, nt_peerChunksSize := 0\<rparr>)))"
    using assms(4) by (auto simp: threads_send_chunk_def locked_def network_send_chunks_to_peers_def)
  obtain j where j: "(some_step g m)\<^sup>*\<^sup>* ?p1 (move Send_Chunk (Sending j) s2 p)"
    and stop: "\<not> j < nt_peerChunksSize s2"
    using sends_run [of ?p1 0 _ g s2 b m] l assms(3) by auto
  let ?p2 = "move Send_Chunk (Sending j) s2 p"
  have "some_step g m p ?p1"
    using send_locks [OF assms(1) unblocked_free [OF assms(2)]] by (rule some_stepI)
  moreover have "some_step g m ?p2 (move Send_Chunk Testing s p)"
    using send_unlocks [of ?p2 j g m] stop s by (intro some_stepI) simp
  ultimately show ?thesis
    using j by (meson converse_rtranclp_into_rtranclp rtranclp.rtrancl_into_rtrancl)
qed

lemma next_pc_loop: "t \<noteq> Request_Login \<Longrightarrow> next_pc t = Testing"
  by (cases t) simp_all

lemma first_pc_loop: "t \<noteq> Request_Login \<Longrightarrow> first_pc t = Testing"
  by (cases t) simp_all

text \<open>The messages that are left after a round: one less after a round of the receiving thread.\<close>

fun rest :: "thread \<Rightarrow> 'm \<Rightarrow> 'm list \<Rightarrow> 'm list \<Rightarrow> bool" where
  "rest Receive_Data msg ms ms' = (ms = msg # ms')"
| "rest t msg ms ms' = (ms = ms')"

lemma round_runs:
  assumes "pg_pc p t = Working" and "\<forall>u. held (pg_pc p u) = {}"
    and "0 \<le> nt_peerChunksSize (pg_net p)"
    and "rest t msg (pg_inbox p) ms" and "thread_body g m t msg (pg_net p) = Inr s"
  shows "(some_step g m)\<^sup>*\<^sup>* p (move t (next_pc t) s (p\<lparr>pg_inbox := ms\<rparr>))"
proof -
  have same: "t \<noteq> Receive_Data \<Longrightarrow> p\<lparr>pg_inbox := ms\<rparr> = p" using assms(4) by (cases t) auto
  obtain es where log: "nt_log s = nt_log (pg_net p) @ es" using body_log [OF assms(5)] .
  have free: "unblocked p es" using assms(2) by (rule unblocked_free)
  show ?thesis
  proof (cases t)
    case Receive_Data
    then have "pg_inbox p = msg # ms" using assms(4) by simp
    then have "some_step g m p (move t Testing s (p\<lparr>pg_inbox := ms\<rparr>))"
      using receives [OF _ _ _ log free, of msg ms g m] assms(1,5) Receive_Data
      by (auto intro: some_stepI)
    then show ?thesis using Receive_Data by (simp add: r_into_rtranclp)
  next
    case Send_Topology
    then have "some_step g m p (move t Testing s p)"
      using topology_works [OF _ _ log free, of g m] assms(1,5) by (auto intro: some_stepI)
    then show ?thesis using Send_Topology same by (simp add: r_into_rtranclp)
  next
    case Offer_Chunk
    then show ?thesis using offer_round_runs assms(1,2,5) same by simp
  next
    case Send_Chunk
    then show ?thesis using send_round_runs assms(1,2,3,5) same by simp
  next
    case Request_Login
    then show ?thesis using login_round_runs assms(1,5) same by simp
  qed
qed

text \<open>A whole round of a thread with a loop, from a state in which all threads test.\<close>

lemma first_pc_free: "held (first_pc t) = {}"
  by (cases t) simp_all

lemma one_round:
  assumes "nt_stopThreads s \<noteq> 1" and "0 \<le> nt_peerChunksSize s" and "t \<noteq> Request_Login"
    and "rest t msg ms ms'" and "thread_body g m t msg s = Inr s1"
  shows "(some_step g m)\<^sup>*\<^sup>* (program_start s ms) (program_start s1 ms')"
proof -
  let ?p = "move t Working s (program_start s ms)"
  have "some_step g m (program_start s ms) ?p"
    using goes_on [of "program_start s ms" t g m] assms(1,3)
    by (intro some_stepI [of g m t]) (simp add: first_pc_loop)
  moreover have "(some_step g m)\<^sup>*\<^sup>* ?p (program_start s1 ms')"
    using round_runs [of ?p t msg ms' g m s1] assms(2-5) move_program_start [of t s1 ms' s ms]
    by (simp add: first_pc_loop next_pc_loop first_pc_free)
  ultimately show ?thesis by (rule converse_rtranclp_into_rtranclp)
qed

end
