(* ===== verification/Program.thy ===== *)
theory Program
  imports Interleaving
begin

text \<open>
  What holds of the running program of theory \<open>Interleaving\<close>, started in the state in which
  \<open>p2p_plugin_open\<close> leaves the globals: the fields the threads leave alone, the list of chunks
  to send, the numbers of the messages, the stop.
\<close>

section \<open>What the rounds keep\<close>

text \<open>
  The fields the threads leave alone, \<open>firstChunk\<close> once it is set, and \<open>stopThreads\<close>, which
  can only become 1.
\<close>

definition settled :: "('g, 'c, 'n, 'w) net \<Rightarrow> ('g, 'c, 'n, 'w) net \<Rightarrow> bool" where
  "settled s s' \<longleftrightarrow> nt_serverSocket s' = nt_serverSocket s \<and> nt_chunkIDSet s' = nt_chunkIDSet s
     \<and> nt_chunkBufferSize s' = nt_chunkBufferSize s
     \<and> (nt_firstChunk s \<noteq> - 1 \<longrightarrow> nt_firstChunk s' = nt_firstChunk s)
     \<and> (nt_stopThreads s' = nt_stopThreads s \<or> nt_stopThreads s' = 1)
     \<and> (nt_output s \<noteq> None \<longrightarrow> nt_output s' \<noteq> None)"

text \<open>The numbers of the messages that take them from \<open>transId\<close>, in the order of the log.\<close>

fun offer_id :: "('c, 'n) event \<Rightarrow> int list" where
  "offer_id (OfferChunks n cs k t) = [t]"
| "offer_id e = []"

fun login_id :: "('c, 'n) event \<Rightarrow> int list" where
  "login_id (RequestSecuredDataLogin n t) = [t]"
| "login_id e = []"

definition offer_ids :: "('c, 'n) event list \<Rightarrow> int list" where
  "offer_ids es = concat (map offer_id es)"

definition login_ids :: "('c, 'n) event list \<Rightarrow> int list" where
  "login_ids es = concat (map login_id es)"

definition silent :: "('g, 'c, 'n, 'w) net \<Rightarrow> ('g, 'c, 'n, 'w) net \<Rightarrow> bool" where
  "silent s s' \<longleftrightarrow> nt_transId s' = nt_transId s \<and> offer_ids (nt_log s') = offer_ids (nt_log s)
     \<and> login_ids (nt_log s') = login_ids (nt_log s)"

text \<open>\<open>k\<close> successive values from \<open>a\<close> on, as \<open>uint16_t\<close>.\<close>

definition count_up :: "int \<Rightarrow> nat \<Rightarrow> int list" where
  "count_up a k = map (\<lambda>i. (a + int i) mod 2 ^ 16) [0..<k]"

text \<open>The list of chunks to send is empty, or has one entry where the code counts two.\<close>

definition peers_ok :: "('g, 'c, 'n, 'w) net \<Rightarrow> bool" where
  "peers_ok s \<longleftrightarrow> nt_peerChunks s = None \<and> nt_peerChunksSize s = 0
     \<or> (\<exists>e. nt_peerChunks s = Some [Some e]) \<and> nt_peerChunksSize s = 2"

text \<open>The chunks sent to peers, in the order of the log.\<close>

fun is_sent :: "('c, 'n) event \<Rightarrow> bool" where
  "is_sent (SendChunk i c) = True"
| "is_sent e = False"

abbreviation sent :: "('g, 'c, 'n, 'w) net \<Rightarrow> ('c, 'n) event list" where
  "sent s \<equiv> filter is_sent (nt_log s)"

text \<open>What every thread but the sending one does to the list of chunks to send.\<close>

definition listing :: "('g, 'c, 'n, 'w) net \<Rightarrow> ('g, 'c, 'n, 'w) net \<Rightarrow> bool" where
  "listing s s' \<longleftrightarrow> sent s' = sent s \<and> (peers_ok s \<longrightarrow>
     peers_ok s' \<and> (nt_peerChunksSize s = 2 \<longrightarrow> nt_peerChunksSize s' = 2))"

lemma ids_simps [simp]:
  "offer_ids [] = []" "offer_ids (es @ fs) = offer_ids es @ offer_ids fs"
  "offer_ids (e # es) = offer_id e @ offer_ids es"
  "login_ids [] = []" "login_ids (es @ fs) = login_ids es @ login_ids fs"
  "login_ids (e # es) = login_id e @ login_ids es"
  by (simp_all add: offer_ids_def login_ids_def)

lemma ids_neutral [simp]: "neutral e \<Longrightarrow> offer_id e = [] \<and> login_id e = []"
  by (cases e) simp_all

lemma ids_message [simp]: "offer_id (message a) = []" "login_id (message a) = []"
  by (simp_all add: ids_neutral)

lemma sent_neutral [simp]: "neutral e \<Longrightarrow> \<not> is_sent e"
  by (cases e) simp_all

lemma count_up_simps [simp]: "count_up a 0 = []"
  by (simp add: count_up_def)

lemma count_up_Suc: "count_up a (Suc k) = count_up a k @ [(a + int k) mod 2 ^ 16]"
  by (simp add: count_up_def)

lemma settled_trans: "settled s s1 \<Longrightarrow> settled s1 s2 \<Longrightarrow> settled s s2"
  by (auto simp: settled_def)

lemma silent_trans: "silent s s1 \<Longrightarrow> silent s1 s2 \<Longrightarrow> silent s s2"
  by (simp add: silent_def)

text \<open>The primitive steps on the list of chunks to send.\<close>

lemma add_fields:
  assumes "network_add_to_peerChunk g remote k s = Inr (r, s')"
  shows "settled s s' \<and> silent s s' \<and> listing s s'"
proof (cases "cb_get_chunk g (nt_lib s) k = None")
  case True
  then show ?thesis
    using assms by (simp add: network_add_to_peerChunk_def settled_def silent_def listing_def)
next
  case False
  then have s': "nt_log s' = nt_log s" "nt_transId s' = nt_transId s" "settled s s'"
    using assms by (auto simp: network_add_to_peerChunk_def Let_def settled_def)
  have "peers_ok s' \<and> nt_peerChunksSize s = 0" if "peers_ok s"
    using that assms False
    by (auto simp: peers_ok_def network_add_to_peerChunk_def realloc_one_def Let_def index_Inr cint_Inr)
  then show ?thesis using s' by (auto simp: listing_def silent_def)
qed

lemma send_one_fields:
  assumes "send_one g s i = Inr (s', k)"
  shows "settled s s' \<and> silent s s'"
  using assms unfolding send_one_def free_peer_def
  by (auto simp: settled_def silent_def split: option.splits)

text \<open>
  A listed entry: the first round of the loop sends at most one chunk and leaves the list as
  long as it was; the second round is out of bounds.
\<close>

lemma send_first:
  assumes "send_one g s 0 = Inr (s', k)" and "nt_peerChunks s = Some [Some e]"
    and "nt_peerChunksSize s = 2"
  shows "peers_ok s' \<and> nt_peerChunksSize s' = 2
    \<and> (sent s' = sent s \<or> (\<exists>i c. sent s' = sent s @ [SendChunk i c]))"
  using assms unfolding send_one_def free_peer_def
  by (cases e) (auto simp: peers_ok_def split: option.splits if_splits)

lemma send_second:
  assumes "nt_peerChunks s = Some [e]"
  shows "send_one g s 1 = Inl (UB Out_Of_Bounds)"
  using assms by (simp add: send_one_def index_def)

lemma send_listed:
  assumes "nt_peerChunks s = Some [Some e]" and "nt_peerChunksSize s = 2"
  shows "\<exists>u. network_send_chunks_to_peers g s = Inl (UB u)"
proof (cases "send_one g s 0")
  case (Inl x)
  then have "\<exists>u. x = UB u"
    using assms unfolding send_one_def free_peer_def peer_at_def
    by (cases e) (auto simp: index_def initialised_def guard_def split: option.splits peer.splits)
  then show ?thesis
    using Inl assms(2) by (auto simp: network_send_chunks_to_peers_def upto.simps)
next
  case (Inr v)
  then obtain s1 where v: "v = (s1, True)" and s1: "nt_peerChunks s1 = Some [Some (None, snd e)]"
    and n: "nt_peerChunksSize s1 = 2"
    using assms unfolding send_one_def free_peer_def
    by (cases e) (auto simp: index_def initialised_def split: option.splits if_splits)
  then show ?thesis
    using Inr v n assms(2) send_second [OF s1, of g]
    by (auto simp: network_send_chunks_to_peers_def upto.simps)
qed

section \<open>Interpretations\<close>

interpretation fields: thread_relation g m settled
proof (unfold_locales, goal_cases)
  case (2 s s1 s2)
  then show ?case by (rule settled_trans)
next
  case (8 remote k s r s')
  then show ?case using add_fields [OF 8] by simp
next
  case (15 s i s' b)
  then show ?case using send_one_fields [OF 15] by simp
qed (auto simp: settled_def)

interpretation ids: round_relation g m silent
proof (unfold_locales, goal_cases)
  case (2 s s1 s2)
  then show ?case by (rule silent_trans)
next
  case (8 remote k s r s')
  then show ?case using add_fields [OF 8] by simp
qed (auto simp: silent_def)

interpretation sending: numbering_relation g m listing
proof (unfold_locales, goal_cases)
  case (2 s s1 s2)
  then show ?case by (auto simp: listing_def)
next
  case (8 remote k s r s')
  then show ?case using add_fields [OF 8] by simp
qed (auto simp: listing_def peers_ok_def)

section \<open>The start\<close>

lemma init_network_fields:
  assumes "init_network u p s = Inr (ok, p', s')"
  shows "nt_peerChunks s' = nt_peerChunks s \<and> nt_peerChunksSize s' = nt_peerChunksSize s
    \<and> nt_transId s' = nt_transId s"
  using assms by (auto simp: init_network_def Let_def split: if_splits option.splits prod.splits)

lemma init_output_fields:
  assumes "init_output u g ask p s = Inr (ok, s')"
  shows "nt_peerChunks s' = nt_peerChunks s \<and> nt_peerChunksSize s' = nt_peerChunksSize s
    \<and> nt_transId s' = nt_transId s"
  using assms by (auto simp: init_output_def Let_def split: if_splits option.splits prod.splits)

text \<open>The state in which a successful \<open>p2p_plugin_open\<close> leaves the globals.\<close>

lemma opened:
  assumes "p2p_plugin_open u g ask p (start_net lib peers) = Inr (1, p', s)"
  obtains ok1 p1 s1 s2 where "init_network u p (start_net lib peers) = Inr (True, p1, s1)"
    and "init_output u g ask p1 s1 = Inr (True, s2)" and "s = threads_start g s2"
  using assms by (auto simp: p2p_plugin_open_def init_def split: if_splits)

lemma opened_fields:
  assumes "p2p_plugin_open u g ask p (start_net lib peers) = Inr (1, p', s)"
  shows "peers_ok s \<and> sent s = []" and "nt_transId s = 1" and "nt_stopThreads s = 0"
    and "offer_ids (nt_log s) = []" and "login_ids (nt_log s) = []"
proof -
  obtain p1 s1 s2 where n: "init_network u p (start_net lib peers) = Inr (True, p1, s1)"
    and o: "init_output u g ask p1 s1 = Inr (True, s2)" and s: "s = threads_start g s2"
    using opened [OF assms] by metis
  have s2: "nt_peerChunks s2 = None" "nt_peerChunksSize s2 = 0" "nt_transId s2 = 1" "nt_log s2 = []"
    using init_network_fields [OF n] init_output_fields [OF o] init_network_frame [OF n]
      init_output_frame [OF o] by (simp_all add: start_net_def)
  then show "peers_ok s \<and> sent s = []" and "nt_transId s = 1" and "nt_stopThreads s = 0"
    and "offer_ids (nt_log s) = []" and "login_ids (nt_log s) = []"
    unfolding s by (auto simp: threads_start_def peers_ok_def)
qed

lemma opened_output:
  assumes "p2p_plugin_open u g ask p (start_net lib peers) = Inr (1, p', s)"
    and "\<forall>tags. fe_config_parse (su_ffmpeg u) configOutput = Some tags \<longrightarrow> 0 < tags ''buffer'' 75"
  shows "nt_chunkIDSet s \<noteq> None \<and> nt_serverSocket s \<noteq> None
    \<and> (\<exists>w. nt_output s = Some w \<and> ctx_ok (os_ctx w) \<and> oc_playedChunk (os_ctx w) = - 1)"
proof -
  obtain p1 s1 s2 where "init_output u g ask p1 s1 = Inr (True, s2)" and "s = threads_start g s2"
    using opened [OF assms(1)] by metis
  then show ?thesis using init_output_ok [OF _ assms(2)] by simp
qed

section \<open>Where a thread can be\<close>

fun pc_ok :: "thread \<Rightarrow> ('c, 'n) pc \<Rightarrow> bool" where
  "pc_ok t Testing = (t \<noteq> Request_Login)"
| "pc_ok t (Replying a) = (t \<noteq> Offer_Chunk \<and> t \<noteq> Request_Login)"
| "pc_ok t (Sending i) = (t = Send_Chunk)"
| "pc_ok t (Offering ns) = (t = Offer_Chunk \<and> length ns \<le> 10)"
| "pc_ok t (Offer_Loaded k n cset ns) = (t = Offer_Chunk \<and> length ns < 10)"
| "pc_ok t (Offer_Stored i n cset ns) = (t = Offer_Chunk \<and> length ns < 10)"
| "pc_ok t (Login_Loaded k) = (t = Request_Login)"
| "pc_ok t (Login_Stored i) = (t = Request_Login)"
| "pc_ok t c = True"

definition pcs_ok :: "('g, 'c, 'n, 'w) program \<Rightarrow> bool" where
  "pcs_ok p \<longleftrightarrow> (\<forall>t. pc_ok t (pg_pc p t))"

lemma pcs_okD: "pcs_ok p \<Longrightarrow> pg_pc p t = c \<Longrightarrow> pc_ok t c"
  by (auto simp: pcs_ok_def)

lemma pcs_ok_move: "pcs_ok p \<Longrightarrow> pc_ok t c \<Longrightarrow> pcs_ok (move t c s p)"
  by (simp add: pcs_ok_def)

lemma pcs_ok_inbox [simp]: "pcs_ok (p\<lparr>pg_inbox := ms\<rparr>) = pcs_ok p"
  by (simp add: pcs_ok_def)

lemma pcs_ok_step:
  assumes "program_step g m t p q" and "pcs_ok p"
  shows "pcs_ok q"
  using assms(1) pcs_okD [OF assms(2), of t]
  by cases (use assms(2) in \<open>auto intro!: pcs_ok_move\<close>)

lemma pcs_ok_run: "(some_step g m)\<^sup>*\<^sup>* (program_start s ms) q \<Longrightarrow> pcs_ok q"
proof (induction rule: rtranclp_induct)
  case base
  have "pc_ok t (first_pc t :: ('b, 'c) pc)" for t by (cases t) simp_all
  then show ?case by (simp add: pcs_ok_def)
next
  case (step p q)
  then show ?case using pcs_ok_step by (auto simp: some_step_def)
qed

section \<open>The numbers of the messages\<close>

text \<open>
  What the offering thread has in its hands: a number it has not sent yet, and the value it has
  loaded from \<open>transId\<close>.
\<close>

fun pending :: "('c, 'n) pc \<Rightarrow> int list" where
  "pending (Offer_Stored i n cset ns) = [i]"
| "pending c = []"

fun loaded :: "('c, 'n) pc \<Rightarrow> int option" where
  "loaded (Offer_Loaded k n cset ns) = Some k"
| "loaded c = None"

text \<open>
  While the login thread has stored nothing, the offers have the numbers from 1 to \<open>a\<close> and
  \<open>transId\<close> is the next one.  Its store of \<open>k + 1\<close>, for a \<open>k\<close> it has loaded before, sets the
  numbering back: the offers go on with \<open>k + 1\<close>, or with \<open>a + 1\<close> where the offering thread had
  loaded this value before.
\<close>

definition fresh :: "int \<Rightarrow> int option \<Rightarrow> nat \<Rightarrow> nat \<Rightarrow> bool" where
  "fresh T ld a b \<longleftrightarrow> b = 0 \<and> T = int a + 1 \<and> (\<forall>j. ld = Some j \<longrightarrow> j = T)"

definition offers_ok :: "int \<Rightarrow> int list \<Rightarrow> int option \<Rightarrow> nat \<Rightarrow> int \<Rightarrow> nat \<Rightarrow> bool" where
  "offers_ok T os ld a k b \<longleftrightarrow> T \<le> INT_MAX \<and> os = count_up 1 a @ count_up (k + 1) b
     \<and> 1 \<le> k \<and> k \<le> int a + 1 \<and> (b = 0 \<and> T = int a + 1 \<or> T = k + 1 + int b)
     \<and> (\<forall>j. ld = Some j \<longrightarrow> j \<le> INT_MAX \<and> (j = T \<or> b = 0 \<and> j = int a + 1))"

fun login_ok :: "int \<Rightarrow> int option \<Rightarrow> nat \<Rightarrow> int \<Rightarrow> nat \<Rightarrow> ('c, 'n) pc \<Rightarrow> int list \<Rightarrow> bool" where
  "login_ok T ld a k b (Login_Loaded l) ls = (ls = [] \<and> fresh T ld a b \<and> 1 \<le> l \<and> l \<le> T)"
| "login_ok T ld a k b (Login_Stored i) ls = (ls = [] \<and> i = k mod 2 ^ 16)"
| "login_ok T ld a k b Finished ls = (ls = [] \<and> fresh T ld a b \<or> ls = [k mod 2 ^ 16])"
| "login_ok T ld a k b c ls = (ls = [] \<and> fresh T ld a b)"

definition numbers_ok ::
  "int \<Rightarrow> int list \<Rightarrow> int option \<Rightarrow> ('c, 'n) pc \<Rightarrow> int list \<Rightarrow> bool"
where
  "numbers_ok T os ld c ls \<longleftrightarrow> (\<exists>a k b. offers_ok T os ld a k b \<and> login_ok T ld a k b c ls)"

lemma numbers_start: "numbers_ok 1 [] None Working []"
  unfolding numbers_ok_def
  by (intro exI [of _ 0] exI [of _ 1]) (simp add: offers_ok_def fresh_def INT_MAX_def)

lemma login_ok_load: "login_ok T None a k b c ls \<Longrightarrow> login_ok T (Some T) a k b c ls"
  by (cases c) (auto simp: fresh_def)

lemma numbers_load: "numbers_ok T os None c ls \<Longrightarrow> numbers_ok T os (Some T) c ls"
  unfolding numbers_ok_def offers_ok_def by (blast intro: login_ok_load)

text \<open>Where nothing was set back, an offer takes the next number.\<close>

lemma login_ok_next:
  "login_ok T (Some j) a k b c ls \<Longrightarrow> \<exists>b'. b' = b \<and> (j = int a + 1 \<and> b = 0 \<longrightarrow>
     login_ok (j + 1) None (Suc a) k 0 c ls)"
  by (cases c) (auto simp: fresh_def)

lemma login_ok_back:
  "login_ok T (Some j) a k b c ls \<Longrightarrow> \<not> (b = 0 \<and> j = int a + 1) \<Longrightarrow>
     login_ok T' None a k b' c ls"
  by (cases c) (auto simp: fresh_def)

lemma numbers_store:
  assumes "numbers_ok T os (Some j) c ls" and "cint (j + 1) = Inr T'"
  shows "numbers_ok T' (os @ [j mod 2 ^ 16]) None c ls"
proof -
  obtain a k b where o: "offers_ok T os (Some j) a k b" and l: "login_ok T (Some j) a k b c ls"
    using assms(1) by (auto simp: numbers_ok_def)
  have T': "T' = j + 1" "T' \<le> INT_MAX" using assms(2) by (simp_all add: cint_Inr)
  show ?thesis
  proof (cases "b = 0 \<and> j = int a + 1")
    case True
    then have "offers_ok T' (os @ [j mod 2 ^ 16]) None (Suc a) k 0"
      using o T' by (simp add: offers_ok_def count_up_Suc add.commute)
    moreover have "login_ok T' None (Suc a) k 0 c ls"
      using login_ok_next [OF l] True T' by simp
    ultimately show ?thesis unfolding numbers_ok_def by blast
  next
    case False
    then have "j = T" and "T = k + 1 + int b" using o by (auto simp: offers_ok_def)
    then have "offers_ok T' (os @ [j mod 2 ^ 16]) None a k (Suc b)"
      using o T' by (simp add: offers_ok_def count_up_Suc)
    then show ?thesis using login_ok_back [OF l False] unfolding numbers_ok_def by blast
  qed
qed

lemma numbers_login_load:
  "numbers_ok T os ld Working ls \<Longrightarrow> numbers_ok T os ld (Login_Loaded T) ls"
  by (auto simp: numbers_ok_def fresh_def)

lemma numbers_login_skip: "numbers_ok T os ld Working ls \<Longrightarrow> numbers_ok T os ld Finished ls"
  by (auto simp: numbers_ok_def)

lemma numbers_login_store:
  assumes "numbers_ok T os ld (Login_Loaded l) ls" and "cint (l + 1) = Inr T'"
  shows "numbers_ok T' os ld (Login_Stored (l mod 2 ^ 16)) ls"
proof -
  obtain a k b where "offers_ok T os ld a k b" and "login_ok T ld a k b (Login_Loaded l) ls"
    using assms(1) by (auto simp: numbers_ok_def)
  then have "offers_ok T' os ld a l 0 \<and> login_ok T' ld a l 0 (Login_Stored (l mod 2 ^ 16)) ls"
    using assms(2) by (auto simp: offers_ok_def fresh_def cint_Inr)
  then show ?thesis unfolding numbers_ok_def by blast
qed

lemma numbers_login_send:
  "numbers_ok T os ld (Login_Stored i) ls \<Longrightarrow> numbers_ok T os ld Finished (ls @ [i])"
  by (auto simp: numbers_ok_def)

definition numbering :: "('g, 'c, 'n, 'w) program \<Rightarrow> bool" where
  "numbering p \<longleftrightarrow> numbers_ok (nt_transId (pg_net p))
     (offer_ids (nt_log (pg_net p)) @ pending (pg_pc p Offer_Chunk)) (loaded (pg_pc p Offer_Chunk))
     (pg_pc p Request_Login) (login_ids (nt_log (pg_net p)))"

text \<open>A step of another thread, or one that neither loads, stores nor sends.\<close>

lemma numbering_silent:
  assumes "numbering p" and "silent (pg_net p) s" and "pg_pc p Request_Login = c \<or> t \<noteq> Request_Login"
    and "t = Offer_Chunk \<longrightarrow> pending c = pending (pg_pc p t) \<and> loaded c = loaded (pg_pc p t)"
  shows "numbering (move t c s p)"
  using assms by (auto simp: numbering_def silent_def)

lemma numbering_inbox [simp]: "numbering (p\<lparr>pg_inbox := ms\<rparr>) = numbering p"
  by (simp add: numbering_def)

lemma numbering_step:
  assumes "program_step g m t p q" and "pcs_ok p" and "numbering p"
  shows "numbering q"
  using assms(1)
proof cases
  case (receives msg ms s es)
  then have "silent (pg_net p) s" using ids.body by blast
  then show ?thesis using numbering_silent [of "p\<lparr>pg_inbox := ms\<rparr>"] assms(3) receives by simp
next
  case (receives_to_answer msg ms a s es)
  then have "silent (pg_net p) (emit (message a) s)" using ids.body by blast
  then have "silent (pg_net p) s" by (rule ids.R_unanswered)
  then show ?thesis
    using numbering_silent [of "p\<lparr>pg_inbox := ms\<rparr>"] assms(3) receives_to_answer by simp
next
  case (topology_works s es)
  then have "silent (pg_net p) s" using ids.topology by blast
  then show ?thesis using numbering_silent [OF assms(3)] topology_works by simp
next
  case (send_sends i s b)
  then have "silent (pg_net p) s" using send_one_fields by blast
  then show ?thesis using numbering_silent [OF assms(3)] send_sends by simp
next
  case (offer_loads n ns cset)
  then have "t = Offer_Chunk" using pcs_okD [OF assms(2), of t] by simp
  then show ?thesis using offer_loads assms(3) numbers_load by (simp add: numbering_def)
next
  case (offer_stores k n cset ns k')
  then have "t = Offer_Chunk" using pcs_okD [OF assms(2), of t] by simp
  then show ?thesis using offer_stores assms(3) numbers_store by (simp add: numbering_def)
next
  case (offer_sends i n cset ns)
  then have "t = Offer_Chunk" using pcs_okD [OF assms(2), of t] by simp
  then show ?thesis using offer_sends assms(3) by (simp add: numbering_def)
next
  case (login_skips w)
  then show ?thesis using assms(3) numbers_login_skip by (simp add: numbering_def)
next
  case (login_loads w)
  then show ?thesis using assms(3) numbers_login_load by (simp add: numbering_def)
next
  case (login_stores k k')
  then have "t = Request_Login" using pcs_okD [OF assms(2), of t] by simp
  then show ?thesis using login_stores assms(3) numbers_login_store by (simp add: numbering_def)
next
  case (login_sends i)
  then have "t = Request_Login" using pcs_okD [OF assms(2), of t] by simp
  then show ?thesis using login_sends assms(3) numbers_login_send by (simp add: numbering_def)
qed (use pcs_okD [OF assms(2), of t] in
     \<open>auto intro!: numbering_silent [OF assms(3)] simp: silent_def\<close>)

lemma numbering_run:
  assumes "p2p_plugin_open u g ask p (start_net lib peers) = Inr (1, p', s)"
    and "(some_step g m)\<^sup>*\<^sup>* (program_start s ms) q"
  shows "numbering q"
  using assms(2)
proof (induction rule: rtranclp_induct)
  case base
  show ?case using opened_fields [OF assms(1)] numbers_start by (simp add: numbering_def)
next
  case (step q r)
  then obtain t where "program_step g m t q r" by (auto simp: some_step_def)
  then show ?case using numbering_step pcs_ok_run step by blast
qed

text \<open>An output module that secures no login.\<close>

lemma no_login_step:
  assumes "program_step g m t p q" and "pcs_ok p" and "\<forall>w. oi_secured_data_enabled_login m w \<noteq> 1"
    and "pg_pc p Request_Login \<in> {Working, Finished} \<and> login_ids (nt_log (pg_net p)) = []"
  shows "pg_pc q Request_Login \<in> {Working, Finished} \<and> login_ids (nt_log (pg_net q)) = []"
  using assms(1)
proof cases
  case (receives msg ms s es)
  then have "silent (pg_net p) s" using ids.body by blast
  then show ?thesis using receives assms(4) by (simp add: silent_def)
next
  case (receives_to_answer msg ms a s es)
  then have "silent (pg_net p) (emit (message a) s)" using ids.body by blast
  then show ?thesis using receives_to_answer assms(4) by (simp add: silent_def)
next
  case (topology_works s es)
  then have "silent (pg_net p) s" using ids.topology by blast
  then show ?thesis using topology_works assms(4) by (simp add: silent_def)
next
  case (send_sends i s b)
  then have "silent (pg_net p) s" using send_one_fields by blast
  then show ?thesis using send_sends assms(4) by (simp add: silent_def)
qed (use assms(2-4) pcs_okD [OF assms(2), of t] in auto)

lemma no_login_run:
  assumes "(some_step g m)\<^sup>*\<^sup>* (program_start s ms) q" and "\<forall>w. oi_secured_data_enabled_login m w \<noteq> 1"
    and "login_ids (nt_log s) = []"
  shows "pg_pc q Request_Login \<in> {Working, Finished} \<and> login_ids (nt_log (pg_net q)) = []"
  using assms(1)
proof (induction rule: rtranclp_induct)
  case base
  show ?case using assms(3) by simp
next
  case (step q r)
  then obtain t where "program_step g m t q r" by (auto simp: some_step_def)
  then show ?case using no_login_step assms(2) pcs_ok_run step by blast
qed

section \<open>The sending thread\<close>

text \<open>
  Where the sending thread is and what has been sent: nothing, or one chunk, and then the
  thread stands before the second round of its loop with the list as it was.
\<close>

fun sends_ok :: "('g, 'c, 'n, 'w) net \<Rightarrow> ('c, 'n) pc \<Rightarrow> bool" where
  "sends_ok s (Sending i) = (i = 0 \<and> sent s = [] \<or> i = 1 \<and> nt_peerChunksSize s = 2
     \<and> (sent s = [] \<or> (\<exists>i c. sent s = [SendChunk i c])))"
| "sends_ok s c = (sent s = [])"

definition sending_ok :: "('g, 'c, 'n, 'w) program \<Rightarrow> bool" where
  "sending_ok p \<longleftrightarrow> peers_ok (pg_net p) \<and> sends_ok (pg_net p) (pg_pc p Send_Chunk)"

lemma sends_ok_listing:
  "listing s s' \<Longrightarrow> peers_ok s \<Longrightarrow> sends_ok s c \<Longrightarrow> sends_ok s' c"
  by (cases c) (auto simp: listing_def)

lemma step_elsewhere: "program_step g m t p q \<Longrightarrow> u \<noteq> t \<Longrightarrow> pg_pc q u = pg_pc p u"
  by (cases rule: program_step.cases) auto

lemma sending_ok_step:
  assumes "program_step g m t p q" and "pcs_ok p" and "sending_ok p"
  shows "sending_ok q"
proof (cases "t = Send_Chunk")
  case False
  then show ?thesis
    using sending.step_other [OF assms(1)] step_elsewhere [OF assms(1), of Send_Chunk]
      sends_ok_listing assms(3) by (auto simp: sending_ok_def listing_def)
next
  case True
  have ok: "peers_ok (pg_net p)" "sends_ok (pg_net p) (pg_pc p Send_Chunk)"
    using assms(3) by (simp_all add: sending_ok_def)
  show ?thesis
    using assms(1)
  proof cases
    case (send_sends i s b)
    then obtain e where e: "nt_peerChunks (pg_net p) = Some [Some e]" "nt_peerChunksSize (pg_net p) = 2"
      using ok by (auto simp: peers_ok_def)
    then have "i = 0" using send_sends ok send_second [OF e(1), of g] by auto
    then have "sent (pg_net p) = []" and one: "send_one g (pg_net p) 0 = Inr (s, b)"
      using send_sends ok by auto
    then show ?thesis
      using send_first [OF one e] send_sends \<open>i = 0\<close> by (auto simp: sending_ok_def)
  next
    case (send_unlocks i)
    then have "sent (pg_net p) = []" using ok by (auto simp: peers_ok_def)
    then show ?thesis using send_unlocks by (simp add: sending_ok_def peers_ok_def)
  qed (use True ok pcs_okD [OF assms(2), of Send_Chunk] in
       \<open>auto simp: sending_ok_def peers_ok_def\<close>)
qed

lemma sending_ok_run:
  assumes "p2p_plugin_open u g ask p (start_net lib peers) = Inr (1, p', s)"
    and "(some_step g m)\<^sup>*\<^sup>* (program_start s ms) q"
  shows "sending_ok q"
  using assms(2)
proof (induction rule: rtranclp_induct)
  case base
  show ?case using opened_fields [OF assms(1)] by (simp add: sending_ok_def)
next
  case (step q r)
  then obtain t where "program_step g m t q r" by (auto simp: some_step_def)
  then show ?case using sending_ok_step pcs_ok_run step by blast
qed

section \<open>The stop\<close>

text \<open>How many steps a thread can still take once \<open>stopThreads\<close> is 1.\<close>

fun steps_left :: "thread \<Rightarrow> ('c, 'n) pc \<Rightarrow> nat" where
  "steps_left t Finished = 0"
| "steps_left t Testing = 1"
| "steps_left t (Replying a) = 2"
| "steps_left Receive_Data Working = 3"
| "steps_left Send_Topology Working = 2"
| "steps_left Offer_Chunk Working = 33"
| "steps_left Send_Chunk Working = 4"
| "steps_left Request_Login Working = 3"
| "steps_left t (Sending i) = 3 - nat i"
| "steps_left t (Offering ns) = 2 + 3 * length ns"
| "steps_left t (Offer_Loaded k n cset ns) = 4 + 3 * length ns"
| "steps_left t (Offer_Stored i n cset ns) = 3 + 3 * length ns"
| "steps_left t (Login_Loaded k) = 2"
| "steps_left t (Login_Stored i) = 1"

fun most_left :: "thread \<Rightarrow> nat" where
  "most_left Receive_Data = 3"
| "most_left Send_Topology = 2"
| "most_left Offer_Chunk = 33"
| "most_left Send_Chunk = 4"
| "most_left Request_Login = 3"

definition all_left :: "(thread \<Rightarrow> ('c, 'n) pc) \<Rightarrow> nat" where
  "all_left f = (\<Sum>t\<leftarrow>[Receive_Data, Send_Topology, Offer_Chunk, Send_Chunk, Request_Login].
     steps_left t (f t))"

lemma steps_left_le: "pc_ok t c \<Longrightarrow> steps_left t c \<le> most_left t"
  by (cases t; cases c) auto

lemma all_left_bound: "pcs_ok p \<Longrightarrow> all_left (pg_pc p) \<le> 45"
  using steps_left_le [OF pcs_okD [OF _ refl, of p Receive_Data]]
    steps_left_le [OF pcs_okD [OF _ refl, of p Send_Topology]]
    steps_left_le [OF pcs_okD [OF _ refl, of p Offer_Chunk]]
    steps_left_le [OF pcs_okD [OF _ refl, of p Send_Chunk]]
    steps_left_le [OF pcs_okD [OF _ refl, of p Request_Login]]
  by (simp add: all_left_def)

lemma all_left_less: "steps_left t c < steps_left t (f t) \<Longrightarrow> all_left (f(t := c)) < all_left f"
  by (cases t) (simp_all add: all_left_def)

lemma stopped_step:
  assumes "program_step g m t p q" and "nt_stopThreads (pg_net p) = 1" and "sending_ok p"
  shows "nt_stopThreads (pg_net q) = 1 \<and> all_left (pg_pc q) < all_left (pg_pc p)"
proof -
  have "nt_stopThreads (pg_net q) = 1"
    using fields.step [OF assms(1)] assms(2) by (auto simp: settled_def)
  moreover have "all_left (pg_pc q) < all_left (pg_pc p)"
    using assms(1)
  proof cases
    case (offer_locks ns)
    then show ?thesis by (auto intro!: all_left_less)
  next
    case (send_sends i s b)
    then have "i = 0 \<or> i = 1" using assms(3) by (auto simp: sending_ok_def)
    then show ?thesis using send_sends by (auto intro!: all_left_less)
  next
    case (send_unlocks i)
    then have "i = 0 \<or> i = 1" using assms(3) by (auto simp: sending_ok_def)
    then show ?thesis using send_unlocks by (auto intro!: all_left_less)
  qed (use assms(2) in \<open>auto intro!: all_left_less\<close>)
  ultimately show ?thesis by simp
qed

lemma stopped_run:
  assumes "(some_step g m ^^ n) p q" and "nt_stopThreads (pg_net p) = 1"
    and "\<And>r. (some_step g m)\<^sup>*\<^sup>* p r \<Longrightarrow> sending_ok r"
  shows "nt_stopThreads (pg_net q) = 1 \<and> n + all_left (pg_pc q) \<le> all_left (pg_pc p)"
  using assms(1)
proof (induction n arbitrary: q)
  case (Suc n)
  then obtain r where r: "(some_step g m ^^ n) p r" and "some_step g m r q" by auto
  then obtain t where st: "program_step g m t r q" by (auto simp: some_step_def)
  have "sending_ok r" using assms(3) r by (meson relpowp_imp_rtranclp)
  then show ?case using Suc.IH [OF r] stopped_step [OF st] by fastforce
qed (use assms(2) in simp)

text \<open>
  A thread whose next access has no result: its round is undefined or waits for room in the
  ring (the receiving thread's round with the message that is next), an entry of the list of
  chunks to send is undefined, \<open>transId++\<close> overflows, or there is no memory for a buffer map.
\<close>

definition no_result ::
  "('g, 'c, 'n) grapes \<Rightarrow> ('e, 'w) output_interface \<Rightarrow> ('g, 'c, 'n, 'w) program \<Rightarrow> thread \<Rightarrow> bool"
where
  "no_result g m p t = (case pg_pc p t of
     Working \<Rightarrow> (\<exists>msg e. (t = Receive_Data \<longrightarrow> (\<exists>ms. pg_inbox p = msg # ms))
       \<and> thread_body g m t msg (pg_net p) = Inl e)
   | Sending i \<Rightarrow> i < nt_peerChunksSize (pg_net p) \<and> (\<exists>e. send_one g (pg_net p) i = Inl e)
   | Offering ns \<Rightarrow> ns \<noteq> [] \<and> (\<exists>e. network_chunkBuffer_to_buffermap g (pg_net p) = Inl e)
   | Offer_Loaded k n cset ns \<Rightarrow> k = INT_MAX
   | Login_Loaded k \<Rightarrow> k = INT_MAX
   | _ \<Rightarrow> False)"

text \<open>The receiving thread in \<open>recv_from_peer\<close> with no message to come.\<close>

definition waits_for_message :: "('g, 'c, 'n, 'w) program \<Rightarrow> bool" where
  "waits_for_message p \<longleftrightarrow> pg_pc p Receive_Data = Working \<and> pg_inbox p = []"

lemma waits_on: "program_step g m t p q \<Longrightarrow> waits_for_message p \<Longrightarrow> waits_for_message q"
  by (cases rule: program_step.cases) (auto simp: waits_for_message_def)

lemma waits_forever: "(some_step g m)\<^sup>*\<^sup>* p q \<Longrightarrow> waits_for_message p \<Longrightarrow> waits_for_message q"
  by (induction rule: rtranclp_induct) (auto simp: some_step_def intro: waits_on)

lemma blocked_round:
  assumes "\<And>r. \<not> some_step g m q r" and "pg_pc q t = Working" and "\<forall>u. held (pg_pc q u) = {}"
    and "0 \<le> nt_peerChunksSize (pg_net q)" and "t = Receive_Data \<longrightarrow> pg_inbox q \<noteq> []"
  shows "no_result g m q t"
proof -
  obtain msg ms where inbox: "rest t msg (pg_inbox q) ms" "t = Receive_Data \<longrightarrow> pg_inbox q = msg # ms"
    using assms(5) by (cases t; cases "pg_inbox q") auto
  have "\<exists>e. thread_body g m t msg (pg_net q) = Inl e"
  proof (cases "thread_body g m t msg (pg_net q)")
    case (Inr s)
    let ?r = "move t (next_pc t) s (q\<lparr>pg_inbox := ms\<rparr>)"
    have "pg_pc ?r t \<noteq> pg_pc q t" using assms(2) by (cases t) simp_all
    then have "?r \<noteq> q" by metis
    then show ?thesis
      using round_runs [OF assms(2-4) inbox(1) Inr] assms(1) by (metis converse_rtranclpE)
  qed blast
  then show ?thesis unfolding no_result_def assms(2) pc.case using inbox(2) by blast
qed

text \<open>A thread in the middle of a round that can take no step.\<close>

lemma no_step_within:
  assumes none: "\<And>t r. \<not> program_step g m t q r" and ok: "numbering q" "pcs_ok q"
    and c: "pg_pc q t \<notin> {Finished, Working}"
  shows "no_result g m q t"
proof (cases "pg_pc q t")
  case Testing
  then show ?thesis using none goes_on [of q t g m] stops [of q t g m] by blast
next
  case (Replying a)
  then show ?thesis using none answers [OF Replying] by blast
next
  case (Sending i)
  then have t: "t = Send_Chunk" using pcs_okD [OF ok(2) Sending] by simp
  show ?thesis
  proof (cases "i < nt_peerChunksSize (pg_net q) \<and> (\<exists>e. send_one g (pg_net q) i = Inl e)")
    case True
    then show ?thesis using Sending by (simp add: no_result_def)
  next
    case False
    then show ?thesis
      using none send_sends [of q i g _ _ m] send_unlocks [of q i g m] Sending t
      by (cases "send_one g (pg_net q) i") auto
  qed
next
  case (Offering ns)
  show ?thesis
  proof (cases ns)
    case Nil
    then show ?thesis using none offer_unlocks [of q t g m] Offering by simp
  next
    case (Cons n ns')
    then have "nodeid_equal g (nt_serverSocket (pg_net q)) n = 0"
      using none offer_skips [of q t n ns' g m] Offering by auto
    then have "\<not> (\<exists>cset. network_chunkBuffer_to_buffermap g (pg_net q) = Inr cset)"
      using none offer_loads [of q t n ns' g _ m] Offering Cons by auto
    then show ?thesis
      using Offering Cons
      by (cases "network_chunkBuffer_to_buffermap g (pg_net q)") (auto simp: no_result_def)
  qed
next
  case (Offer_Loaded k n cset ns)
  have "t = Offer_Chunk" using pcs_okD [OF ok(2) Offer_Loaded] by simp
  then have "1 \<le> k \<and> k \<le> INT_MAX"
    using ok(1) Offer_Loaded by (auto simp: numbering_def numbers_ok_def offers_ok_def)
  moreover have "\<not> (\<exists>k'. cint (k + 1) = Inr k')" using none offer_stores [OF Offer_Loaded] by blast
  ultimately show ?thesis
    using Offer_Loaded by (auto simp: no_result_def cint_Inr INT_MIN_def INT_MAX_def)
next
  case (Offer_Stored i n cset ns)
  then show ?thesis using none offer_sends [OF Offer_Stored] by blast
next
  case (Login_Loaded k)
  have "t = Request_Login" using pcs_okD [OF ok(2) Login_Loaded] by simp
  then have "1 \<le> k \<and> k \<le> INT_MAX"
    using ok(1) Login_Loaded by (auto simp: numbering_def numbers_ok_def offers_ok_def)
  moreover have "\<not> (\<exists>k'. cint (k + 1) = Inr k')" using none login_stores [OF Login_Loaded] by blast
  ultimately show ?thesis
    using Login_Loaded by (auto simp: no_result_def cint_Inr INT_MIN_def INT_MAX_def)
next
  case (Login_Stored i)
  then show ?thesis using none login_sends [OF Login_Stored] by blast
qed (use c in auto)

lemma no_step:
  assumes "\<And>r. \<not> some_step g m q r" and "numbering q" and "pcs_ok q" and "sending_ok q"
  shows "pg_pc q t = Finished \<or> t = Receive_Data \<and> waits_for_message q \<or> no_result g m q t
    \<or> pg_pc q t = Working \<and> (\<exists>u. held (pg_pc q u) \<noteq> {} \<and> no_result g m q u)"
proof -
  have "\<And>t r. \<not> program_step g m t q r" using assms(1) by (auto simp: some_step_def)
  note within = no_step_within [OF this assms(2,3)]
  show ?thesis
  proof (cases "\<forall>u. held (pg_pc q u) = {}")
    case True
    have "0 \<le> nt_peerChunksSize (pg_net q)" using assms(4) by (auto simp: sending_ok_def peers_ok_def)
    then show ?thesis
      using within [of t] blocked_round [OF assms(1) _ True, of t]
      by (auto simp: waits_for_message_def)
  next
    case False
    then obtain u where u: "held (pg_pc q u) \<noteq> {}" by blast
    then have "no_result g m q u" using within [of u] by force
    then show ?thesis using u within [of t] by blast
  qed
qed

section \<open>Runs\<close>

lemma emit_transId: "(emit e s)\<lparr>nt_transId := k\<rparr> = emit e (s\<lparr>nt_transId := k\<rparr>)"
  by (simp add: emit_def)

text \<open>The offering thread passes over the server.\<close>

lemma skips_run:
  "pg_pc p Offer_Chunk = Offering (xs @ ys) \<Longrightarrow>
     \<forall>x\<in>set xs. nodeid_equal g (nt_serverSocket (pg_net p)) x \<noteq> 0 \<Longrightarrow>
     (some_step g m)\<^sup>*\<^sup>* p (move Offer_Chunk (Offering ys) (pg_net p) p)"
proof (induction xs arbitrary: p)
  case Nil
  then have "move Offer_Chunk (Offering ys) (pg_net p) p = p" by (simp add: move_def fun_upd_idem)
  then show ?case by simp
next
  case (Cons x xs)
  let ?p1 = "move Offer_Chunk (Offering (xs @ ys)) (pg_net p) p"
  have "some_step g m p ?p1"
    using offer_skips [of p Offer_Chunk x "xs @ ys" g m] Cons.prems by (intro some_stepI) simp
  moreover have "(some_step g m)\<^sup>*\<^sup>* ?p1 (move Offer_Chunk (Offering ys) (pg_net p) p)"
    using Cons.IH [of ?p1] Cons.prems by simp
  ultimately show ?case by (rule converse_rtranclp_into_rtranclp)
qed

lemma ex_opened:
  assumes "psample_parse_data g = (\<lambda>l bs n. l)" and "chunkID_set_init g = (\<lambda>cfg. Some c)"
  obtains p' s where "p2p_plugin_open ex_outup g ask ex_plugin (start_net l peers) = Inr (1, p', s)"
    and "nt_lib s = l" and "nt_serverSocket s = Some 1" and "nt_stopThreads s = 0"
    and "nt_transId s = 1" and "nt_peerChunks s = None" and "nt_peerChunksSize s = 0"
    and "nt_peers s = peers" and "sent s = []"
  by (simp add: assms p2p_plugin_open_def init_def init_network_def init_output_def ex_outup_def
      ex_plugin_def string_at_def network_create_interface_def Let_def
      output_init_def output_ffmpeg_def output_ffmpeg_init_def ex_config_def start_net_def
      threads_start_def)

lemma ex_library [simp]: "psample_parse_data (ex_grapes c sg) = (\<lambda>l bs n. l)"
  "chunkID_set_init (ex_grapes c sg) = (\<lambda>cfg. Some [])"
  by (simp_all add: ex_grapes_def)

text \<open>The offering thread's first round, and a message that asks for chunk 3.\<close>

lemma ex_offer:
  assumes "nt_lib s = []" and "nt_serverSocket s = Some 1" and "nt_stopThreads s = 0"
    and "nt_transId s = 1" and "nt_peerChunksSize s = 0"
  obtains s1 where "(some_step ((ex_grapes c sg)\<lparr>peerset_get_peer := f\<rparr>) m)\<^sup>*\<^sup>* (program_start s ms) (program_start s1 ms)"
    and "nt_transId s1 = 2" and "nt_firstChunk s1 = nt_firstChunk s"
proof -
  obtain s1 where b: "thread_body ((ex_grapes c sg)\<lparr>peerset_get_peer := f\<rparr>) m Offer_Chunk undefined s = Inr s1"
    and "nt_transId s1 = 2" and "nt_firstChunk s1 = nt_firstChunk s"
    using assms by (simp add: threads_offer_chunk_def locked_def ex_grapes_def
        network_chunkBuffer_to_buffermap_def next_transId_def cint_def INT_MIN_def INT_MAX_def)
  moreover have "(some_step ((ex_grapes c sg)\<lparr>peerset_get_peer := f\<rparr>) m)\<^sup>*\<^sup>* (program_start s ms) (program_start s1 ms)"
    by (rule one_round [OF _ _ _ _ b]) (simp_all add: assms)
  ultimately show ?thesis using that by blast
qed

text \<open>The peer set of this library knows every node.\<close>

abbreviation ex_deliver :: "(chunk list, int list, nat) grapes" where
  "ex_deliver \<equiv> (ex_grapes (ex_ck 0) (ex_signal [3] 1 sig_deliver))\<lparr>peerset_get_peer := \<lambda>l n. Some n\<rparr>"

lemma ex_parses_ints: "parses_ints ex_deliver"
  by (auto simp: parses_ints_def ex_grapes_def int_id_def ex_ck_def INT_MIN_def INT_MAX_def)

abbreviation ex_message :: "nat \<times> byte list \<times> int" where
  "ex_message \<equiv> (2, [18], 1)"

lemma ex_listed:
  assumes "nt_lib s = [ex_ck 3]" and "nt_stopThreads s = 0"
    and "nt_peerChunks s = None" and "nt_peerChunksSize s = 0"
  obtains s1 where "(some_step ex_deliver m)\<^sup>*\<^sup>* (program_start s [ex_message]) (program_start s1 [])"
    and "nt_peerChunks s1 = Some [Some (Some 2, 3)]" and "nt_peerChunksSize s1 = 2"
    and "nt_peers s1 = nt_peers s" and "nt_lib s1 = nt_lib s" and "nt_stopThreads s1 = 0"
    and "sent s1 = sent s"
proof -
  obtain s1 where b: "thread_body ex_deliver m Receive_Data ex_message s = Inr s1"
    and "nt_peerChunks s1 = Some [Some (Some 2, 3)]" and "nt_peerChunksSize s1 = 2"
    and "nt_peers s1 = nt_peers s" and "nt_lib s1 = nt_lib s" and "nt_stopThreads s1 = 0"
    and "sent s1 = sent s"
    using assms by (simp add: receive_message_def handle_signalling_def handle_accept_def locked_def
        ex_grapes_def ex_signal_def ex_ck_def byte_at_def received_set_def initialised_def upto.simps
        network_add_to_peerChunk_def realloc_one_def index_def cint_def INT_MIN_def INT_MAX_def Let_def)
  moreover have "(some_step ex_deliver m)\<^sup>*\<^sup>* (program_start s [ex_message]) (program_start s1 [])"
    by (rule one_round [OF _ _ _ _ b]) (simp_all add: assms)
  ultimately show ?thesis using that by blast
qed

text \<open>The first round of the sending loop with a listed chunk.\<close>

lemma ex_sends:
  assumes "nt_lib s = [ex_ck 3]" and "nt_stopThreads s = 0"
    and "nt_peerChunks s = Some [Some (Some 2, 3)]" and "nt_peerChunksSize s = 2"
    and "nt_peers s = (\<lambda>r. Peer (Some r))" and "sent s = []"
  obtains q where "(some_step ex_deliver m)\<^sup>*\<^sup>* (program_start s ms) q"
    and "sent (pg_net q) = [SendChunk (Some 2) (ex_ck 3)]"
proof -
  let ?s1 = "emit (Lock peerChunkMutex) (emit (Lock chunkBufferMutex) (emit (Lock topologyMutex) s))"
  let ?p1 = "move Send_Chunk Working s (program_start s ms)"
  let ?p2 = "move Send_Chunk (Sending 0) ?s1 ?p1"
  obtain s2 where one: "send_one ex_deliver ?s1 0 = Inr (s2, True)"
    and "sent s2 = [SendChunk (Some 2) (ex_ck 3)]"
    using assms by (simp add: send_one_def index_def initialised_def ex_grapes_def ex_ck_def
        peer_at_def free_peer_def)
  let ?p3 = "move Send_Chunk (Sending 1) s2 ?p2"
  have "program_step ex_deliver m Send_Chunk (program_start s ms) ?p1"
    using goes_on [of "program_start s ms" Send_Chunk ex_deliver m] assms(2) by simp
  moreover have "program_step ex_deliver m Send_Chunk ?p1 ?p2"
    using send_locks [of ?p1 ex_deliver m] by (simp add: unblocked_free first_pc_free)
  moreover have "program_step ex_deliver m Send_Chunk ?p2 ?p3"
    using send_sends [of ?p2 0 ex_deliver s2 True m] one assms(4) by simp
  ultimately have "(some_step ex_deliver m)\<^sup>*\<^sup>* (program_start s ms) ?p3"
    by (meson some_stepI converse_rtranclp_into_rtranclp rtranclp.rtrancl_refl)
  then show ?thesis using that \<open>sent s2 = _\<close> by simp
qed

text \<open>A peer sampler without neighbours ends the program.\<close>

abbreviation ex_lonely :: "(chunk list, int list, nat) grapes" where
  "ex_lonely \<equiv> ex_deliver\<lparr>psample_get_cache := \<lambda>l. []\<rparr>"

lemma ex_stopped:
  obtains p' s q where "p2p_plugin_open ex_outup ex_lonely ask ex_plugin (start_net l peers) = Inr (1, p', s)"
    and "(some_step ex_lonely m)\<^sup>*\<^sup>* (program_start s []) q" and "nt_stopThreads (pg_net q) = 1"
    and "waits_for_message q" and "pg_pc q Offer_Chunk = Testing"
proof -
  have "psample_parse_data ex_lonely = (\<lambda>l bs n. l)"
    and "chunkID_set_init ex_lonely = (\<lambda>cfg. Some [])" by simp_all
  then obtain p' s where o: "p2p_plugin_open ex_outup ex_lonely ask ex_plugin (start_net l peers) = Inr (1, p', s)"
    and s: "nt_stopThreads s = 0" "nt_peerChunksSize s = 0"
    by (rule ex_opened)
  obtain s1 where b: "thread_body ex_lonely m Send_Topology ex_message s = Inr s1"
    and s1: "nt_stopThreads s1 = 1"
    by (simp add: threads_send_topology_def locked_def Let_def)
  let ?p1 = "move Receive_Data Working s (program_start s [])"
  let ?p2 = "move Send_Topology Working s ?p1"
  let ?q = "move Send_Topology Testing s1 ?p2"
  have "program_step ex_lonely m Receive_Data (program_start s []) ?p1"
    using goes_on [of "program_start s []" Receive_Data ex_lonely m] s by simp
  moreover have "program_step ex_lonely m Send_Topology ?p1 ?p2"
    using goes_on [of ?p1 Send_Topology ex_lonely m] s by simp
  moreover have "(some_step ex_lonely m)\<^sup>*\<^sup>* ?p2 ?q"
    using round_runs [of ?p2 Send_Topology ex_message "[]" ex_lonely m s1] b s
    by (simp add: first_pc_free program_start_def move_def)
  ultimately have "(some_step ex_lonely m)\<^sup>*\<^sup>* (program_start s []) ?q"
    by (meson some_stepI converse_rtranclp_into_rtranclp)
  then show ?thesis using that [OF o] s1 by (simp add: waits_for_message_def)
qed

section \<open>Properties\<close>

text \<open>
  C13. The types of the running program: in every state that the five threads reach, in any
  interleaving of their steps and whatever messages arrive, after the plugin was opened with a
  positive buffer size, the output module exists and its
  reorder buffer is well formed, the server and the plugin's own chunk id set are those of
  the start (so requests for the buffer map are answered with the set that was never filled),
  \<open>stopThreads\<close> is 0 or 1, \<open>transId\<close> is an \<open>int\<close> of at least 1, and the list of chunks to send
  is empty or has one entry where \<open>peerChunksSize\<close> is 2.  Of the parsed chunks it is only used
  that their ids are C \<open>int\<close>s, which is the type of the member (\<open>parses_ints\<close>).
\<close>

theorem program_state_ok:
  assumes "p2p_plugin_open u g ask p (start_net lib peers) = Inr (1, p', s)"
    and "\<forall>tags. fe_config_parse (su_ffmpeg u) configOutput = Some tags \<longrightarrow> 0 < tags ''buffer'' 75"
    and "parses_ints g" and "(some_step g (output_ffmpeg ask))\<^sup>*\<^sup>* (program_start s ms) q"
  shows "(\<exists>w. nt_output (pg_net q) = Some w \<and> ctx_ok (os_ctx w))
    \<and> nt_serverSocket (pg_net q) = nt_serverSocket s \<and> nt_serverSocket s \<noteq> None
    \<and> nt_chunkIDSet (pg_net q) = nt_chunkIDSet s \<and> nt_chunkIDSet s \<noteq> None
    \<and> nt_stopThreads (pg_net q) \<in> {0, 1}
    \<and> 1 \<le> nt_transId (pg_net q) \<and> nt_transId (pg_net q) \<le> INT_MAX \<and> peers_ok (pg_net q)"
proof -
  note start = opened_fields [OF assms(1)] opened_output [OF assms(1,2)]
  have ok: "output_ok (\<lambda>w. ctx_ok (os_ctx w)) (pg_net q)"
  proof -
    have "output_ok (\<lambda>w. ctx_ok (os_ctx w)) s"
      using start(6) by (auto simp: output_ok_def)
    then show ?thesis
      using om.rr.run [OF assms(4)] assms(3) by simp
  qed
  have f: "settled s (pg_net q)" and u: "peers_ok (pg_net q)"
    using fields.run [OF assms(4)] sending_ok_run [OF assms(1,4)] by (simp_all add: sending_ok_def)
  obtain w where "nt_output (pg_net q) = Some w"
    using f start(6) by (auto simp: settled_def)
  moreover have "ctx_ok (os_ctx w)"
    using ok calculation by (simp add: output_ok_def)
  moreover have "1 \<le> nt_transId (pg_net q) \<and> nt_transId (pg_net q) \<le> INT_MAX"
    using numbering_run [OF assms(1,4)]
    by (auto simp: numbering_def numbers_ok_def offers_ok_def)
  moreover have "nt_serverSocket (pg_net q) = nt_serverSocket s \<and> nt_serverSocket s \<noteq> None
      \<and> nt_chunkIDSet (pg_net q) = nt_chunkIDSet s \<and> nt_chunkIDSet s \<noteq> None
      \<and> nt_stopThreads (pg_net q) \<in> {0, 1}"
    using f start(3,6) by (auto simp: settled_def)
  ultimately show ?thesis using u by simp
qed

theorem program_state_ok_witness:
  "\<exists>p' s q. p2p_plugin_open ex_outup ex_deliver (\<lambda>k. Inr ()) ex_plugin
        (start_net [ex_ck 3] (\<lambda>r. Freed)) = Inr (1, p', s)
    \<and> (some_step ex_deliver (output_ffmpeg (\<lambda>k. Inr ())))\<^sup>*\<^sup>* (program_start s [ex_message]) q
    \<and> nt_peerChunksSize (pg_net q) = 2 \<and> peers_ok (pg_net q)
    \<and> (\<exists>w. nt_output (pg_net q) = Some w \<and> ctx_ok (os_ctx w))"
proof -
  obtain p' s where o: "p2p_plugin_open ex_outup ex_deliver (\<lambda>k. Inr ()) ex_plugin
        (start_net [ex_ck 3] (\<lambda>r. Freed)) = Inr (1, p', s)"
    and s: "nt_lib s = [ex_ck 3]" "nt_stopThreads s = 0"
      "nt_peerChunks s = None" "nt_peerChunksSize s = 0"
    by (rule ex_opened [of ex_deliver]) simp_all
  obtain s1 where r: "(some_step ex_deliver (output_ffmpeg (\<lambda>k. Inr ())))\<^sup>*\<^sup>*
      (program_start s [ex_message]) (program_start s1 [])" and n: "nt_peerChunksSize s1 = 2"
    using ex_listed [OF s] .
  have "\<forall>tags. fe_config_parse (su_ffmpeg ex_outup) configOutput = Some tags \<longrightarrow> 0 < tags ''buffer'' 75"
    by (simp add: ex_outup_def ex_config_def)
  then show ?thesis
    using program_state_ok [OF o _ ex_parses_ints r] o r n by (metis program_start_simps(1))
qed


text \<open>
  C20. At most one chunk is ever sent: whatever messages arrive, whichever peers the peer set
  hands out and however the threads interleave, the program has sent no chunk to a peer, or
  exactly one, and then the sending thread stands before the second round of its loop, which
  reads the list of one entry at index 1, with all three mutexes held; and from a state in
  which a chunk is listed, a whole round of the sending thread is undefined.
\<close>

theorem at_most_one_chunk_sent:
  assumes "p2p_plugin_open u g ask p (start_net lib peers) = Inr (1, p', s)"
    and "(some_step g m)\<^sup>*\<^sup>* (program_start s ms) q"
  shows "(sent (pg_net q) = [] \<or> (\<exists>i c. sent (pg_net q) = [SendChunk i c]
         \<and> pg_pc q Send_Chunk = Sending 1 \<and> 1 < nt_peerChunksSize (pg_net q)
         \<and> send_one g (pg_net q) 1 = Inl (UB Out_Of_Bounds)))
    \<and> (nt_peerChunksSize (pg_net q) \<noteq> 0 \<longrightarrow>
         (\<exists>u. thread_body g m Send_Chunk msg (pg_net q) = Inl (UB u)))"
proof -
  have ok: "peers_ok (pg_net q)" "sends_ok (pg_net q) (pg_pc q Send_Chunk)"
    using sending_ok_run [OF assms] by (simp_all add: sending_ok_def)
  have "\<exists>u. thread_body g m Send_Chunk msg (pg_net q) = Inl (UB u)"
    if listed: "nt_peerChunksSize (pg_net q) \<noteq> 0"
  proof -
    let ?t = "emit (Lock peerChunkMutex) (emit (Lock chunkBufferMutex)
      (emit (Lock topologyMutex) (pg_net q)))"
    obtain e where "nt_peerChunks ?t = Some [Some e]" and "nt_peerChunksSize ?t = 2"
      using ok(1) listed by (auto simp: peers_ok_def)
    then obtain u where "network_send_chunks_to_peers g ?t = Inl (UB u)"
      using send_listed by metis
    then show ?thesis by (simp add: threads_send_chunk_def locked_def)
  qed
  moreover have "send_one g (pg_net q) 1 = Inl (UB Out_Of_Bounds)"
    if "nt_peerChunksSize (pg_net q) = 2"
    using that ok(1) send_second by (auto simp: peers_ok_def)
  ultimately show ?thesis
    using ok(2) by (cases "pg_pc q Send_Chunk") auto
qed

theorem at_most_one_chunk_sent_witness:
  "\<exists>p' s q. p2p_plugin_open ex_outup ex_deliver (\<lambda>k. Inr ()) ex_plugin
        (start_net [ex_ck 3] (\<lambda>r. Peer (Some r))) = Inr (1, p', s)
    \<and> (some_step ex_deliver (output_ffmpeg (\<lambda>k. Inr ())))\<^sup>*\<^sup>* (program_start s [ex_message]) q
    \<and> sent (pg_net q) = [SendChunk (Some 2) (ex_ck 3)]
    \<and> send_one ex_deliver (pg_net q) 1 = Inl (UB Out_Of_Bounds)"
proof -
  let ?m = "output_ffmpeg (\<lambda>k. Inr ())"
  obtain p' s where o: "p2p_plugin_open ex_outup ex_deliver (\<lambda>k. Inr ()) ex_plugin
        (start_net [ex_ck 3] (\<lambda>r. Peer (Some r))) = Inr (1, p', s)"
    and s: "nt_lib s = [ex_ck 3]" "nt_stopThreads s = 0"
      "nt_peerChunks s = None" "nt_peerChunksSize s = 0"
    and peers: "nt_peers s = (\<lambda>r. Peer (Some r))" "sent s = []"
    by (rule ex_opened [of ex_deliver]) simp_all
  obtain s1 where r1: "(some_step ex_deliver ?m)\<^sup>*\<^sup>* (program_start s [ex_message]) (program_start s1 [])"
    and s1: "nt_peerChunks s1 = Some [Some (Some 2, 3)]" "nt_peerChunksSize s1 = 2"
      "nt_peers s1 = nt_peers s" "nt_lib s1 = nt_lib s" "nt_stopThreads s1 = 0" "sent s1 = sent s"
    using ex_listed [OF s] .
  obtain q where r2: "(some_step ex_deliver ?m)\<^sup>*\<^sup>* (program_start s1 []) q"
    and q: "sent (pg_net q) = [SendChunk (Some 2) (ex_ck 3)]"
    using ex_sends [of s1] s1 s(1) peers by metis
  have r: "(some_step ex_deliver ?m)\<^sup>*\<^sup>* (program_start s [ex_message]) q"
    using r1 r2 by (rule rtranclp_trans)
  then have "send_one ex_deliver (pg_net q) 1 = Inl (UB Out_Of_Bounds)"
    using at_most_one_chunk_sent [OF o r] q by auto
  then show ?thesis using o r q by blast
qed


text \<open>
  C18. The numbers of the messages, with the race on \<open>transId\<close>: in any interleaving the offers,
  with the one that is about to be sent, are numbered 1, 2, ..., \<open>a\<close> modulo $2^{16}$ and then
  go on from \<open>k + 1\<close>, where \<open>k\<close> is the number of the login's request and at most \<open>a + 1\<close>: the
  numbers fall back at most once, to what the login thread loaded.  With an output module
  that secures no login nothing is requested and the numbers never fall back.
\<close>

theorem transaction_ids:
  assumes "p2p_plugin_open u g ask p (start_net lib peers) = Inr (1, p', s)"
    and "(some_step g m)\<^sup>*\<^sup>* (program_start s ms) q"
    and "offers = offer_ids (nt_log (pg_net q)) @ pending (pg_pc q Offer_Chunk)"
  shows "(\<exists>a b k. offers = map (\<lambda>i. (1 + int i) mod 2 ^ 16) [0..<a]
          @ map (\<lambda>i. (k + 1 + int i) mod 2 ^ 16) [0..<b]
        \<and> 1 \<le> k \<and> k \<le> int a + 1 \<and> login_ids (nt_log (pg_net q)) \<in> {[], [k mod 2 ^ 16]}
        \<and> (b = 0 \<and> nt_transId (pg_net q) = int a + 1 \<or> nt_transId (pg_net q) = k + 1 + int b))
    \<and> ((\<forall>w. oi_secured_data_enabled_login m w \<noteq> 1) \<longrightarrow> login_ids (nt_log (pg_net q)) = []
        \<and> offers = map (\<lambda>i. (1 + int i) mod 2 ^ 16) [0..<nat (nt_transId (pg_net q) - 1)])"
proof -
  obtain a k b where o: "offers_ok (nt_transId (pg_net q)) offers (loaded (pg_pc q Offer_Chunk)) a k b"
    and l: "login_ok (nt_transId (pg_net q)) (loaded (pg_pc q Offer_Chunk)) a k b
      (pg_pc q Request_Login) (login_ids (nt_log (pg_net q)))"
    using numbering_run [OF assms(1,2)] assms(3) by (auto simp: numbering_def numbers_ok_def)
  have ids: "login_ids (nt_log (pg_net q)) \<in> {[], [k mod 2 ^ 16]}"
    using l by (cases "pg_pc q Request_Login") auto
  have "login_ids (nt_log (pg_net q)) = [] \<and> fresh (nt_transId (pg_net q))
      (loaded (pg_pc q Offer_Chunk)) a b" if "\<forall>w. oi_secured_data_enabled_login m w \<noteq> 1"
    using no_login_run [OF assms(2) that] opened_fields(5) [OF assms(1)] l by auto
  then show ?thesis
    using o ids unfolding offers_ok_def fresh_def count_up_def by (intro conjI exI) auto
qed

theorem transaction_ids_witness:
  "\<exists>p' s q. p2p_plugin_open ex_outup ex_deliver (\<lambda>k. Inr ()) ex_plugin (start_net [] (\<lambda>r. Freed))
        = Inr (1, p', s)
    \<and> (some_step ex_deliver (output_ffmpeg (\<lambda>k. Inr ())))\<^sup>*\<^sup>* (program_start s []) q
    \<and> offer_ids (nt_log (pg_net q)) = [1] \<and> login_ids (nt_log (pg_net q)) = []"
proof -
  obtain p' s where o: "p2p_plugin_open ex_outup ex_deliver (\<lambda>k. Inr ()) ex_plugin
        (start_net [] (\<lambda>r. Freed)) = Inr (1, p', s)"
    and s: "nt_lib s = []" "nt_serverSocket s = Some 1" "nt_stopThreads s = 0"
      "nt_transId s = 1" "nt_peerChunksSize s = 0"
    by (rule ex_opened [of ex_deliver]) simp_all
  obtain s1 where r: "(some_step ex_deliver (output_ffmpeg (\<lambda>k. Inr ())))\<^sup>*\<^sup>*
      (program_start s []) (program_start s1 [])" and n: "nt_transId s1 = 2"
    using ex_offer [OF s] .
  have "\<forall>w. oi_secured_data_enabled_login (output_ffmpeg (\<lambda>k. Inr ())) w \<noteq> 1"
    by (simp add: output_ffmpeg_def output_ffmpeg_secured_data_enabled_login_def)
  then show ?thesis
    using transaction_ids [OF o r refl] o r n by auto
qed

text \<open>
  C19. The race on \<open>transId\<close>: with an output module that secures the login, whenever one of the
  first ten neighbours is not the server, a run lets both threads load the same value, so that
  an offer and the request of the login carry the same number, and the two increments count
  as one.
\<close>

theorem transId_race:
  assumes "p2p_plugin_open u g ask p (start_net lib peers) = Inr (1, p', s)"
    and "nt_output s = Some w" and "oi_secured_data_enabled_login m w = 1"
    and "psample_get_cache g (nt_lib s) = xs @ n # ns" and "length xs < 10"
    and "\<forall>x\<in>set xs. nodeid_equal g (nt_serverSocket s) x \<noteq> 0"
    and "nodeid_equal g (nt_serverSocket s) n = 0"
    and "network_chunkBuffer_to_buffermap g s = Inr cset"
  shows "\<exists>q. (some_step g m)\<^sup>*\<^sup>* (program_start s ms) q \<and> offer_ids (nt_log (pg_net q)) = [1]
    \<and> login_ids (nt_log (pg_net q)) = [1] \<and> nt_transId (pg_net q) = 2"
proof -
  note start = opened_fields [OF assms(1)]
  let ?s0 = "emit (Lock chunkBufferMutex) (emit (Lock topologyMutex) s)"
  let ?s1 = "?s0\<lparr>nt_transId := 2\<rparr>"
  let ?s2 = "emit (OfferChunks n cset 50 1) ?s1"
  let ?ns = "take (9 - length xs) ns"
  let ?p0 = "move Request_Login (Login_Loaded 1) s (program_start s ms)"
  let ?p1 = "move Offer_Chunk Working s ?p0"
  let ?p2 = "move Offer_Chunk (Offering (xs @ n # ?ns)) ?s0 ?p1"
  let ?p3 = "move Offer_Chunk (Offering (n # ?ns)) ?s0 ?p1"
  let ?p4 = "move Offer_Chunk (Offer_Loaded 1 n cset ?ns) ?s0 ?p1"
  let ?p5 = "move Offer_Chunk (Offer_Stored 1 n cset ?ns) ?s1 ?p1"
  let ?p6 = "move Offer_Chunk (Offering ?ns) ?s2 ?p1"
  let ?p7 = "move Request_Login (Login_Stored 1) ?s2 ?p6"
  let ?p8 = "move Request_Login Finished (emit (RequestSecuredDataLogin (nt_serverSocket s) 1) ?s2) ?p6"
  have c: "cint 2 = Inr 2" by (simp add: cint_def INT_MIN_def INT_MAX_def)
  have map: "network_chunkBuffer_to_buffermap g ?s0 = Inr cset"
    using assms(8) by (simp add: network_chunkBuffer_to_buffermap_def)
  have l: "take 10 (xs @ n # ns) = xs @ n # ?ns"
    using assms(5) by (simp add: take_Cons' numeral_eq_Suc Suc_diff_le)
  have "program_step g m Request_Login (program_start s ms) ?p0"
    using login_loads [of "program_start s ms" w m g] assms(2,3) start(2) by simp
  moreover have "program_step g m Offer_Chunk ?p0 ?p1"
    using goes_on [of ?p0 Offer_Chunk g m] start(3) by simp
  moreover have "program_step g m Offer_Chunk ?p1 ?p2"
    using offer_locks [of ?p1 "xs @ n # ?ns" g m] assms(4) l
    by (simp add: unblocked_def first_pc_free)
  moreover have "(some_step g m)\<^sup>*\<^sup>* ?p2 ?p3"
    using skips_run [of ?p2 xs "n # ?ns" g m] assms(6) by simp
  moreover have "program_step g m Offer_Chunk ?p3 ?p4"
    using offer_loads [of ?p3 Offer_Chunk n ?ns g cset m] assms(7) map start(2) by simp
  moreover have "program_step g m Offer_Chunk ?p4 ?p5"
    using offer_stores [of ?p4 Offer_Chunk 1 n cset ?ns 2 g m] c by simp
  moreover have "program_step g m Offer_Chunk ?p5 ?p6"
    using offer_sends [of ?p5 Offer_Chunk 1 n cset ?ns g m] by simp
  moreover have "program_step g m Request_Login ?p6 ?p7"
    using login_stores [of ?p6 Request_Login 1 2 g m] c by (simp add: emit_transId)
  moreover have "program_step g m Request_Login ?p7 ?p8"
    using login_sends [of ?p7 Request_Login 1 g m] by simp
  ultimately have "(some_step g m)\<^sup>*\<^sup>* (program_start s ms) ?p8"
    by (meson some_stepI converse_rtranclp_into_rtranclp rtranclp_trans rtranclp.rtrancl_refl)
  then show ?thesis using start(4,5) by (intro exI [of _ ?p8]) simp
qed

theorem transId_race_witness:
  "\<exists>p' s q. p2p_plugin_open ex_outup ex_deliver (\<lambda>k. Inr ()) ex_plugin (start_net [] (\<lambda>r. Freed))
        = Inr (1, p', s)
    \<and> (some_step ex_deliver ((output_ffmpeg (\<lambda>k. Inr ()))\<lparr>oi_secured_data_enabled_login := \<lambda>w. 1\<rparr>))\<^sup>*\<^sup>*
        (program_start s []) q
    \<and> offer_ids (nt_log (pg_net q)) = login_ids (nt_log (pg_net q))"
proof -
  obtain p' s where o: "p2p_plugin_open ex_outup ex_deliver (\<lambda>k. Inr ()) ex_plugin
        (start_net [] (\<lambda>r. Freed)) = Inr (1, p', s)"
    and s: "nt_lib s = []" "nt_serverSocket s = Some 1"
    by (rule ex_opened [of ex_deliver]) simp_all
  obtain w where w: "nt_output s = Some w"
    using opened_output [OF o] by (auto simp: ex_outup_def ex_config_def)
  have "psample_get_cache ex_deliver (nt_lib s) = [1] @ 2 # []"
    and "\<forall>x\<in>set [1]. nodeid_equal ex_deliver (nt_serverSocket s) x \<noteq> 0"
    and "nodeid_equal ex_deliver (nt_serverSocket s) 2 = 0"
    and "network_chunkBuffer_to_buffermap ex_deliver s = Inr (Some [])"
    by (simp_all add: ex_grapes_def s network_chunkBuffer_to_buffermap_def)
  then show ?thesis
    using transId_race [OF o w, of "(output_ffmpeg (\<lambda>k. Inr ()))\<lparr>oi_secured_data_enabled_login := \<lambda>w. 1\<rparr>"
      "[1]" 2 "[]" "Some []" "[]"] o by auto
qed


text \<open>
  What never changes again: between any two states of the running program the server and
  the plugin's own chunk id set stay the same, so the answers to requests for the buffer map
  are about the empty set from the start; \<open>firstChunk\<close>, once set by an offer, keeps its value;
  and \<open>stopThreads\<close>, once 1, stays 1.
\<close>

lemma program_settled:
  assumes "(some_step g m)\<^sup>*\<^sup>* p q"
  shows "nt_serverSocket (pg_net q) = nt_serverSocket (pg_net p)
    \<and> nt_chunkIDSet (pg_net q) = nt_chunkIDSet (pg_net p)
    \<and> (nt_firstChunk (pg_net p) \<noteq> - 1 \<longrightarrow> nt_firstChunk (pg_net q) = nt_firstChunk (pg_net p))
    \<and> (nt_stopThreads (pg_net p) = 1 \<longrightarrow> nt_stopThreads (pg_net q) = 1)"
  using fields.run [OF assms] by (auto simp: settled_def)

text \<open>
  C17. The stop: once \<open>stopThreads\<close> is 1, the whole program takes at most 45 more steps (the
  offering thread may be in a round with ten neighbours left).  Where it can take no further
  step, every thread has finished, or its next access has no result, or it waits for a mutex
  of a thread whose next access has no result, or it is the receiving thread and waits in
  \<open>recv_from_peer\<close> for a message that does not come.  The stop does not end this wait: a
  receiving thread that waits for a message, when no more arrive, waits in every later state.
\<close>

theorem program_stops:
  assumes "p2p_plugin_open u g ask p (start_net lib peers) = Inr (1, p', s)"
    and "(some_step g m)\<^sup>*\<^sup>* (program_start s ms) q"
    and "nt_stopThreads (pg_net q) = 1" and "(some_step g m ^^ n) q r"
  shows "n \<le> 45 \<and> nt_stopThreads (pg_net r) = 1
    \<and> ((\<forall>r'. \<not> some_step g m r r') \<longrightarrow>
         (\<forall>t. pg_pc r t = Finished \<or> t = Receive_Data \<and> waits_for_message r \<or> no_result g m r t
            \<or> pg_pc r t = Working \<and> (\<exists>u. held (pg_pc r u) \<noteq> {} \<and> no_result g m r u)))
    \<and> (waits_for_message q \<longrightarrow> waits_for_message r)"
proof -
  have run: "(some_step g m)\<^sup>*\<^sup>* q r" using assms(4) by (rule relpowp_imp_rtranclp)
  then have reach: "(some_step g m)\<^sup>*\<^sup>* (program_start s ms) r"
    using assms(2) by (meson rtranclp_trans)
  then have ok: "numbering r" "pcs_ok r" "sending_ok r"
    using numbering_run [OF assms(1)] pcs_ok_run sending_ok_run [OF assms(1)] by blast+
  have "sending_ok x" if "(some_step g m)\<^sup>*\<^sup>* q x" for x
    using sending_ok_run [OF assms(1)] assms(2) that by (meson rtranclp_trans)
  then have "n \<le> 45 \<and> nt_stopThreads (pg_net r) = 1"
    using stopped_run [OF assms(4,3)] all_left_bound [OF pcs_ok_run [OF assms(2)]] by fastforce
  then show ?thesis using no_step [OF _ ok] waits_forever [OF run] by blast
qed

theorem program_stops_witness:
  "\<exists>p' s q r. p2p_plugin_open ex_outup ex_lonely (\<lambda>k. Inr ()) ex_plugin (start_net [] (\<lambda>r. Freed))
        = Inr (1, p', s)
    \<and> (some_step ex_lonely (output_ffmpeg (\<lambda>k. Inr ())))\<^sup>*\<^sup>* (program_start s []) q
    \<and> nt_stopThreads (pg_net q) = 1
    \<and> (some_step ex_lonely (output_ffmpeg (\<lambda>k. Inr ())) ^^ 1) q r
    \<and> pg_pc r Offer_Chunk = Finished \<and> nt_stopThreads (pg_net r) = 1 \<and> waits_for_message r"
proof -
  let ?m = "output_ffmpeg (\<lambda>k. Inr ())"
  obtain p' s q where o: "p2p_plugin_open ex_outup ex_lonely (\<lambda>k. Inr ()) ex_plugin
        (start_net [] (\<lambda>r. Freed)) = Inr (1, p', s)"
    and run: "(some_step ex_lonely ?m)\<^sup>*\<^sup>* (program_start s []) q"
    and q: "nt_stopThreads (pg_net q) = 1" "waits_for_message q" "pg_pc q Offer_Chunk = Testing"
    by (rule ex_stopped)
  let ?r = "move Offer_Chunk Finished (pg_net q) q"
  have "program_step ex_lonely ?m Offer_Chunk q ?r"
    using stops [of q Offer_Chunk ex_lonely ?m] q by simp
  then have r: "(some_step ex_lonely ?m ^^ 1) q ?r"
    by (simp only: relpowp_1 some_stepI)
  have "nt_stopThreads (pg_net ?r) = 1" and "waits_for_message ?r"
    using program_stops [OF o run q(1) r] q(2) by blast+
  moreover have "pg_pc ?r Offer_Chunk = Finished" by simp
  ultimately show ?thesis using o run r q(1) by blast
qed

end
