(* ===== verification/Put_Pointer.thy ===== *)
theory Put_Pointer
  imports Playout
begin

text \<open>
  What the player gets when \<open>output_ffmpeg_write_chunk\<close> of \<open>src/output_ffmpeg.c\<close> has moved
  the put pointer by the size of the whole chunk although only the payload was copied: the
  bytes of the ring after any number of chunks in a row.
\<close>

section \<open>Lemmas on memory and contents\<close>

lemma mem_get_split:
  assumes "0 \<le> n" and "0 \<le> k"
  shows "mem_get m a (n + k) = mem_get m a n @ mem_get m (a + n) k"
proof (rule nth_equalityI)
  fix i assume "i < length (mem_get m a (n + k))"
  then show "mem_get m a (n + k) ! i = (mem_get m a n @ mem_get m (a + n) k) ! i"
    using assms by (auto simp: nth_append nat_add_distrib algebra_simps of_nat_diff)
qed (use assms in \<open>simp add: nat_add_distrib\<close>)

lemma mem_get_cong:
  assumes "\<And>b. a \<le> b \<Longrightarrow> b < a + n \<Longrightarrow> m b = m' b"
  shows "mem_get m a n = mem_get m' a n"
  unfolding mem_get_def by (rule map_cong [OF refl]) (use assms in auto)

lemma mem_get_put_take:
  assumes "0 \<le> n" and "n \<le> int (length xs)"
  shows "mem_get (mem_put m a xs) a n = take (nat n) xs"
  using assms by (intro nth_equalityI) (auto simp: mem_put_in)

text \<open>The last \<open>n\<close> bytes of the contents, when they do not go around the end of the ring.\<close>

lemma contents_tail:
  assumes "0 \<le> rb_count r" and "0 \<le> n" and "0 \<le> a" and "a + n \<le> BUFFER_SIZE"
    and "0 < n \<Longrightarrow> a = (rb_get r + rb_count r) mod BUFFER_SIZE"
  shows "contents (r\<lparr>rb_count := rb_count r + n\<rparr>) = contents r @ mem_get (rb_mem r) a n"
proof (rule nth_equalityI)
  fix k
  assume k: "k < length (contents (r\<lparr>rb_count := rb_count r + n\<rparr>))"
  show "contents (r\<lparr>rb_count := rb_count r + n\<rparr>) ! k = (contents r @ mem_get (rb_mem r) a n) ! k"
  proof (cases "int k < rb_count r")
    case True
    then show ?thesis using assms(2) by (simp add: nth_contents nth_append zless_nat_eq_int_zless)
  next
    case False
    define j where "j = int k - rb_count r"
    have j: "0 \<le> j" "j < n" "int k = rb_count r + j" "nat j = k - nat (rb_count r)"
      using k False assms(1) by (auto simp: j_def)
    have "(rb_get r + int k) mod BUFFER_SIZE = (a + j) mod BUFFER_SIZE"
      using assms(5) j by (simp add: mod_add_left_eq add.assoc)
    also have "\<dots> = a + j" using assms(3,4) j by simp
    finally show ?thesis
      using False j assms(1) by (auto simp: nth_contents nth_append)
  qed
qed (use assms in \<open>simp add: nat_add_distrib\<close>)

text \<open>Bytes of the ring outside its contents may change.\<close>

lemma contents_free:
  assumes "ring_ok r" and "n + rb_count r \<le> BUFFER_SIZE"
    and "a mod BUFFER_SIZE = (rb_get r + rb_count r) mod BUFFER_SIZE" and "0 \<le> a"
    and "\<And>b. b < a \<or> a + n \<le> b \<Longrightarrow> m b = rb_mem r b"
    and "a + n \<le> BUFFER_SIZE"
  shows "contents (r\<lparr>rb_mem := m\<rparr>) = contents r"
proof (rule nth_equalityI)
  fix k
  assume "k < length (contents (r\<lparr>rb_mem := m\<rparr>))"
  then have k: "int k < rb_count r" by simp
  let ?b = "(rb_get r + int k) mod BUFFER_SIZE"
  have "?b < a \<or> a + n \<le> ?b"
  proof (rule ccontr)
    assume "\<not> (?b < a \<or> a + n \<le> ?b)"
    then have j: "0 \<le> ?b - a" "?b - a < n" by simp_all
    have "(rb_get r + rb_count r + (?b - a)) mod BUFFER_SIZE = (rb_get r + int k) mod BUFFER_SIZE"
      using assms(3) by (metis add.commute add_diff_cancel_left' diff_add_cancel mod_add_left_eq
          mod_mod_trivial)
    then have "BUFFER_SIZE dvd rb_count r + (?b - a) - int k"
      by (simp add: mod_eq_dvd_iff algebra_simps)
    moreover have "0 < rb_count r + (?b - a) - int k" "rb_count r + (?b - a) - int k < BUFFER_SIZE"
      using j k assms(2) by linarith+
    ultimately show False using zdvd_not_zless by blast
  qed
  then show "contents (r\<lparr>rb_mem := m\<rparr>) ! k = contents r ! k"
    using k assms(5) by (simp add: nth_contents)
qed simp

section \<open>Chunks in a row\<close>

text \<open>The ring after a copy that stays before its end.\<close>

definition straight_put :: "byte list \<Rightarrow> int \<Rightarrow> int \<Rightarrow> ring \<Rightarrow> ring" where
  "straight_put d csize offset r =
     r\<lparr>rb_mem := mem_put (rb_mem r) (rb_put r) (payload d csize offset),
       rb_put := rb_put r + csize, rb_count := rb_count r + (csize - offset)\<rparr>"

lemma straight_put_simps [simp]:
  "rb_put (straight_put d csize offset r) = rb_put r + csize"
  "rb_count (straight_put d csize offset r) = rb_count r + (csize - offset)"
  "rb_get (straight_put d csize offset r) = rb_get r"
  "rb_max (straight_put d csize offset r) = rb_max r"
  "rb_mem (straight_put d csize offset r) = mem_put (rb_mem r) (rb_put r) (payload d csize offset)"
  by (simp_all add: straight_put_def)

lemma write_straight_put:
  assumes "playable c d" and "ring_ok (os_ring s)" and "os_sched s = []"
    and "0 \<le> rb_put (os_ring s)" and "rb_put (os_ring s) + ck_size c \<le> BUFFER_SIZE"
    and "rb_count (os_ring s) + ck_size c \<le> BUFFER_SIZE"
  shows "output_ffmpeg_write_chunk s c =
      Inr (s\<lparr>os_ring := straight_put d (ck_size c) (chunk_offset d) (os_ring s), os_sched := [],
             os_written := os_written s @ [c]\<rparr>)"
    and "ring_ok (straight_put d (ck_size c) (chunk_offset d) (os_ring s))"
proof -
  let ?r = "os_ring s"
  have o: "10 \<le> chunk_offset d" "chunk_offset d \<le> ck_size c" "ck_size c \<le> INT_MAX"
    using chunk_offset_range [of d] assms(1) by (auto simp: playable_def)
  have f: "fits d (ck_size c) (chunk_offset d) ?r"
    using playable_fits assms(1,2,6) by (simp add: ring_ok_def)
  have "ring_put d (ck_size c) (chunk_offset d) ?r = Inr (straight_put d (ck_size c) (chunk_offset d) ?r)"
    unfolding straight_put_def
    by (rule ring_put_straight [OF f o(3) assms(4)]) (use o assms(5) in simp)
  then show "output_ffmpeg_write_chunk s c =
      Inr (s\<lparr>os_ring := straight_put d (ck_size c) (chunk_offset d) (os_ring s), os_sched := [],
             os_written := os_written s @ [c]\<rparr>)"
    using write_room [OF assms(1-3)] assms(6) by simp
  show "ring_ok (straight_put d (ck_size c) (chunk_offset d) ?r)"
    using assms(2,6) o by (auto simp: ring_ok_def)
qed

text \<open>A chunk's bytes; the ring after a row of copies, and how much it then counts.\<close>

definition data_of :: "chunk \<Rightarrow> byte list" where
  "data_of c = (case ck_data c of None \<Rightarrow> [] | Some d \<Rightarrow> d)"

definition header_of :: "chunk \<Rightarrow> int" where
  "header_of c = chunk_offset (data_of c)"

definition payload_of :: "chunk \<Rightarrow> byte list" where
  "payload_of c = payload (data_of c) (ck_size c) (header_of c)"

fun put_chunks :: "chunk list \<Rightarrow> ring \<Rightarrow> ring" where
  "put_chunks [] r = r"
| "put_chunks (c # cs) r = put_chunks cs (straight_put (data_of c) (ck_size c) (header_of c) r)"

definition row_size :: "chunk list \<Rightarrow> int" where
  "row_size cs = sum_list (map ck_size cs)"

definition row_count :: "chunk list \<Rightarrow> int" where
  "row_count cs = (\<Sum>c\<leftarrow>cs. ck_size c - header_of c)"

text \<open>
  What lies in the ring from address \<open>p\<close> on, when it held \<open>m\<close> before: each payload, and behind
  it as many of the old bytes as the chunk has bytes of header.
\<close>

fun layout :: "bytes \<Rightarrow> int \<Rightarrow> chunk list \<Rightarrow> byte list" where
  "layout m p [] = []"
| "layout m p (c # cs) =
     payload_of c @ mem_get m (p + (ck_size c - header_of c)) (header_of c)
       @ layout m (p + ck_size c) cs"

abbreviation all_playable :: "chunk list \<Rightarrow> bool" where
  "all_playable cs \<equiv> \<forall>c\<in>set cs. \<exists>d. playable c d"

lemma row_simps [simp]:
  "row_size [] = 0" "row_size (c # cs) = ck_size c + row_size cs"
  "row_count [] = 0" "row_count (c # cs) = ck_size c - header_of c + row_count cs"
  by (simp_all add: row_size_def row_count_def)

lemma playable_data:
  assumes "playable c d"
  shows "data_of c = d" and "10 \<le> header_of c" and "header_of c \<le> ck_size c"
    and "int (length (payload_of c)) = ck_size c - header_of c"
  using assms chunk_offset_range [of d]
  by (auto simp: playable_def data_of_def header_of_def payload_of_def payload_def)

lemma row_bounds: "all_playable cs \<Longrightarrow> 0 \<le> row_count cs \<and> row_count cs \<le> row_size cs"
proof (induction cs)
  case (Cons c cs)
  then obtain d where "playable c d" by auto
  then show ?case using Cons playable_data [of c d] by auto
qed simp

lemma put_chunks_fields:
  "rb_get (put_chunks cs r) = rb_get r" "rb_max (put_chunks cs r) = rb_max r"
  "rb_put (put_chunks cs r) = rb_put r + row_size cs"
  "rb_count (put_chunks cs r) = rb_count r + row_count cs"
  by (induction cs arbitrary: r) simp_all

lemma put_chunks_below:
  "all_playable cs \<Longrightarrow> b < rb_put r \<Longrightarrow> rb_mem (put_chunks cs r) b = rb_mem r b"
proof (induction cs arbitrary: r)
  case (Cons c cs)
  then obtain d where d: "playable c d" by auto
  then show ?case
    using Cons playable_data [OF d] by (simp add: mem_put_out)
qed simp

lemma put_chunks_above:
  "all_playable cs \<Longrightarrow> rb_put r + row_size cs \<le> b \<Longrightarrow> rb_mem (put_chunks cs r) b = rb_mem r b"
proof (induction cs arbitrary: r)
  case (Cons c cs)
  then obtain d where d: "playable c d" by auto
  have "0 \<le> row_size cs" using row_bounds Cons.prems(1) by force
  then show ?case
    using Cons playable_data [OF d] by (simp add: mem_put_out payload_of_def)
qed simp

lemma layout_cong: "(\<And>b. p \<le> b \<Longrightarrow> m b = m' b) \<Longrightarrow> all_playable cs \<Longrightarrow> layout m p cs = layout m' p cs"
proof (induction cs arbitrary: p)
  case (Cons c cs)
  then obtain d where d: "playable c d" by auto
  have "mem_get m (p + (ck_size c - header_of c)) (header_of c)
      = mem_get m' (p + (ck_size c - header_of c)) (header_of c)"
    by (rule mem_get_cong) (use Cons.prems(1) playable_data [OF d] in simp)
  moreover have "layout m (p + ck_size c) cs = layout m' (p + ck_size c) cs"
    using Cons.IH [of "p + ck_size c"] Cons.prems playable_data [OF d] by simp
  ultimately show ?case by simp
qed simp

lemma put_chunks_mem:
  "all_playable cs \<Longrightarrow>
     mem_get (rb_mem (put_chunks cs r)) (rb_put r) (row_size cs) = layout (rb_mem r) (rb_put r) cs"
proof (induction cs arbitrary: r)
  case (Cons c cs)
  then obtain d where d: "playable c d" by auto
  note f = playable_data [OF d]
  let ?k = "ck_size c - header_of c" and ?p = "rb_put r"
  let ?r1 = "straight_put (data_of c) (ck_size c) (header_of c) r"
  let ?m = "rb_mem (put_chunks cs ?r1)"
  have m1: "rb_mem ?r1 = mem_put (rb_mem r) ?p (payload_of c)" by (simp add: payload_of_def)
  have low: "?m b = rb_mem ?r1 b" if "b < ?p + ck_size c" for b
    by (rule put_chunks_below) (use Cons.prems that in simp_all)
  have "mem_get ?m ?p (ck_size c + row_size cs)
      = mem_get ?m ?p ?k @ mem_get ?m (?p + ?k) (header_of c) @ mem_get ?m (?p + ck_size c) (row_size cs)"
    using mem_get_split [of "ck_size c" "row_size cs" ?m ?p] mem_get_split [of ?k "header_of c" ?m ?p]
      f row_bounds [of cs] Cons.prems by simp
  moreover have "mem_get ?m ?p ?k = mem_get (rb_mem ?r1) ?p ?k"
    by (rule mem_get_cong) (use low f in simp)
  moreover have "mem_get (rb_mem ?r1) ?p ?k = payload_of c"
    unfolding m1 f(4) [symmetric] by (rule mem_get_put)
  moreover have "mem_get ?m (?p + ?k) (header_of c) = mem_get (rb_mem r) (?p + ?k) (header_of c)"
    by (rule mem_get_cong) (use low f m1 in \<open>simp add: mem_put_out\<close>)
  moreover have "mem_get ?m (?p + ck_size c) (row_size cs) = layout (rb_mem r) (?p + ck_size c) cs"
  proof -
    have "mem_get ?m (?p + ck_size c) (row_size cs) = layout (rb_mem ?r1) (?p + ck_size c) cs"
      using Cons.IH [of ?r1] Cons.prems by simp
    also have "\<dots> = layout (rb_mem r) (?p + ck_size c) cs"
      by (rule layout_cong) (use Cons.prems f m1 in \<open>simp_all add: mem_put_out\<close>)
    finally show ?thesis .
  qed
  ultimately show ?case by simp
qed simp

lemma mem_get_take: "k \<le> n \<Longrightarrow> mem_get m a k = take (nat k) (mem_get m a n)"
  by (simp add: mem_get_def take_map min_absorb1 nat_mono)

lemma contents_put_chunks:
  assumes "ring_ok r" and "synced r" and "all_playable cs"
    and "rb_put r + row_size cs \<le> BUFFER_SIZE" and "rb_count r + row_size cs \<le> BUFFER_SIZE"
  shows "contents (put_chunks cs r)
    = contents r @ take (nat (row_count cs)) (layout (rb_mem r) (rb_put r) cs)"
proof -
  let ?p = "rb_put r" and ?n = "row_count cs" and ?m = "rb_mem (put_chunks cs r)"
  let ?q = "r\<lparr>rb_mem := ?m\<rparr>"
  have p: "0 \<le> ?p" "?p mod BUFFER_SIZE = (rb_get r + rb_count r) mod BUFFER_SIZE"
    using assms(2) by (auto simp: synced_def)
  have n: "0 \<le> ?n" "?n \<le> row_size cs" and c: "0 \<le> rb_count r"
    using row_bounds [OF assms(3)] assms(1) by (auto simp: ring_ok_def)
  have pp: "?p = (rb_get r + rb_count r) mod BUFFER_SIZE" if "0 < ?n"
  proof -
    have "?p < BUFFER_SIZE" using that n(2) assms(4) by linarith
    then have "?p mod BUFFER_SIZE = ?p" using p(1) by simp
    then show ?thesis using p(2) by simp
  qed
  have old: "contents ?q = contents r"
    by (rule contents_free [OF assms(1) _ p(2,1), of "row_size cs"])
      (use assms(3-5) put_chunks_below put_chunks_above in auto)
  have "contents (put_chunks cs r) = contents (?q\<lparr>rb_count := rb_count ?q + ?n\<rparr>)"
    by (simp add: contents_def put_chunks_fields)
  also have "\<dots> = contents ?q @ mem_get (rb_mem ?q) ?p ?n"
    by (rule contents_tail) (use assms(4) n c p(1) pp in auto)
  finally show ?thesis
    using old put_chunks_mem [OF assms(3), of r] mem_get_take [OF n(2), of ?m ?p] by simp
qed

text \<open>Deliveries of chunks in order make exactly these copies.\<close>

lemma deliver_row:
  assumes "in_order (oc_playedChunk (os_ctx s)) cs" and "stream_room (total_size cs) s"
  shows "\<exists>s'. deliver_all (output_ffmpeg ask) cs s = Inr s'
    \<and> os_ring s' = put_chunks (map snd cs) (os_ring s)"
  using assms
proof (induction cs arbitrary: s)
  case (Cons a cs)
  obtain fc c where a: "a = (fc, c)" by (cases a)
  let ?p = "oc_playedChunk (os_ctx s)"
  obtain d where d: "playable c d" and k: "ck_id c = ?p + 1" "ck_id c \<le> INT_MAX"
    and io: "in_order (?p + 1) cs"
    using Cons.prems(1) a by auto
  have ts: "0 \<le> total_size cs" using total_size_nonneg io by blast
  have room: "stream_room (ck_size c + total_size cs) s" using Cons.prems(2) a by simp
  obtain s1 where dl: "output_ffmpeg_deliver ask fc s c = Inr (0, s1)"
    and s1: "stream_room (total_size cs) s1" "oc_playedChunk (os_ctx s1) = ck_id c"
    using deliver_in_order_step [OF room ts d k] by metis
  have "output_ffmpeg_write_chunk (seen c s) c = Inr ((seen c s)\<lparr>
      os_ring := straight_put d (ck_size c) (chunk_offset d) (os_ring s), os_sched := [],
      os_written := os_written s @ [c]\<rparr>)"
    using write_straight_put(1) [OF d, of "seen c s"] room ts by (simp add: stream_room_def)
  then have "os_ring s1 = straight_put (data_of c) (ck_size c) (header_of c) (os_ring s)"
    using dl deliver_next [of s c fc ask] room k playable_data(1) [OF d]
    by (auto simp: stream_room_def header_of_def)
  then show ?case
    using Cons.IH [of s1] dl s1 io k(1) a by (auto simp: output_ffmpeg_def)
qed simp

lemma in_order_playable: "in_order p cs \<Longrightarrow> all_playable (map snd cs)"
  by (induction p cs rule: in_order.induct) auto

lemma row_total: "row_size (map snd cs) = total_size cs"
  by (induction cs) auto

section \<open>Properties\<close>

text \<open>
  C25. What the player gets of a row of chunks delivered in order, of any length, into a ring
  in step with room for all of them before its end: behind the old contents the payloads,
  each followed by as many stale bytes of the ring as its chunk had bytes of header, and of
  these only as many bytes as the payloads have, so that every chunk after the first is
  shifted further and the end is missing.
\<close>

theorem chunks_shifted:
  assumes "in_order (oc_playedChunk (os_ctx s)) cs" and "ctx_ok (os_ctx s)"
    and "ring_ok (os_ring s)" and "synced (os_ring s)" and "os_sched s = []"
    and "rb_put (os_ring s) + total_size cs \<le> BUFFER_SIZE"
    and "rb_count (os_ring s) + total_size cs \<le> BUFFER_SIZE"
  shows "\<exists>s'. deliver_all (output_ffmpeg ask) cs s = Inr s'
    \<and> contents (os_ring s') = contents (os_ring s)
        @ take (nat (row_count (map snd cs)))
            (layout (rb_mem (os_ring s)) (rb_put (os_ring s)) (map snd cs))"
proof -
  have "stream_room (total_size cs) s"
    using assms by (simp add: stream_room_def synced_def)
  then obtain s' where "deliver_all (output_ffmpeg ask) cs s = Inr s'"
    and "os_ring s' = put_chunks (map snd cs) (os_ring s)"
    using deliver_row [OF assms(1)] by blast
  then show ?thesis
    using contents_put_chunks [OF assms(3,4) in_order_playable [OF assms(1)]] assms(6,7)
    by (simp add: row_total)
qed

text \<open>A chunk whose payload is longer than its header.\<close>

definition ex_long :: "int \<Rightarrow> chunk" where
  "ex_long k = \<lparr>ck_id = k, ck_size = 22, ck_data = Some ([1, 0, 16, 0, 16, 0, 25, 0, 1, 0]
     @ [65, 66, 67, 68, 69, 70, 71, 72, 73, 74, 75, 76]), ck_attributes = None\<rparr>"

theorem chunks_shifted_witness:
  "\<exists>s'. deliver_all (output_ffmpeg (\<lambda>k. Inr ())) [(0, ex_chunk 0), (0, ex_long 1)] (ex_out 0) = Inr s'
    \<and> contents (os_ring s') = [65, 66] @ [0, 0, 0, 0, 0, 0, 0, 0, 0, 0] @ [65, 66]"
proof -
  let ?d = "[1, 0, 16, 0, 16, 0, 25, 0, 1, 0] @ [65, 66, 67, 68, 69, 70, 71, 72, 73, 74, 75, 76] :: byte list"
  let ?cs = "[(0, ex_chunk 0), (0, ex_long 1)]"
  have long: "playable (ex_long 1) ?d" and o: "chunk_offset ?d = 10"
    by (simp_all add: playable_def ex_long_def chunk_offset_def INT_MAX_def)
  have h: "header_of (ex_chunk 0) = 10" "payload_of (ex_chunk 0) = [65, 66]"
    "header_of (ex_long 1) = 10" "payload_of (ex_long 1) = drop 10 ?d"
    using ex_offset o playable_data(1) [OF ex_playable [of 0]] playable_data(1) [OF long]
    by (simp_all add: header_of_def payload_of_def payload_def ex_long_def)
  have io: "in_order (oc_playedChunk (os_ctx (ex_out 0))) ?cs"
    using ex_playable [of 0] long by (auto simp: INT_MAX_def ex_long_def)
  have c: "contents (os_ring (ex_out 0)) = []" by (simp add: contents_def)
  have z: "mem_get (rb_mem (os_ring (ex_out 0))) 2 10 = [0, 0, 0, 0, 0, 0, 0, 0, 0, 0]"
    by (simp add: ex_out_def ring_new_def mem_get_def upt_rec)
  show ?thesis
    using chunks_shifted [OF io ex_ctx_ok, of "\<lambda>k. Inr ()"] ex_ring_out [of 0] c z h
    by (auto simp: BUFFER_SIZE_def ex_long_def)
qed

end
