(* ===== verification/Player_Stream.thy ===== *)
theory Player_Stream
  imports Player_Receiver Put_Pointer
begin

text \<open>
  The bytes the player gets from the interleaved system of \<open>Player_Receiver\<close>: a run is followed
  together with the list of the copies that \<open>output_ffmpeg_write_chunk\<close> has made in it.
\<close>

section \<open>Runs with their copies\<close>

type_synonym copy = "byte list \<times> int \<times> int"

text \<open>A copy ends the writer's stay in the loop.\<close>

fun copied :: "writer \<Rightarrow> writer \<Rightarrow> copy list" where
  "copied (Writer_Locking d n k) Writer_Idle = [(d, n, k)]"
| "copied t t' = []"

inductive copying :: "shared \<Rightarrow> copy list \<Rightarrow> shared \<Rightarrow> bool" for s0 where
  no_step: "copying s0 [] s0"
| a_step: "copying s0 cs s \<Longrightarrow> shared_step l s s' \<Longrightarrow>
     copying s0 (cs @ copied (sh_writer s) (sh_writer s')) s'"

lemma copying_run: "copying s0 cs s \<Longrightarrow> any_step\<^sup>*\<^sup>* s0 s"
  by (induction rule: copying.induct) (auto simp: any_step_def intro: rtranclp.rtrancl_into_rtrancl)

lemma run_copying: "any_step\<^sup>*\<^sup>* s0 s \<Longrightarrow> \<exists>cs. copying s0 cs s"
  by (induction rule: rtranclp_induct) (auto simp: any_step_def intro: copying.intros)

text \<open>How far the copies move the put pointer, what they count, and what they leave in the ring.\<close>

definition put_total :: "copy list \<Rightarrow> int" where
  "put_total cs = (\<Sum>(d, n, k)\<leftarrow>cs. n)"

definition counted :: "copy list \<Rightarrow> int" where
  "counted cs = (\<Sum>(d, n, k)\<leftarrow>cs. n - k)"

definition payloads :: "copy list \<Rightarrow> byte list" where
  "payloads cs = concat (map (\<lambda>(d, n, k). payload d n k) cs)"

fun with_gaps :: "bytes \<Rightarrow> int \<Rightarrow> copy list \<Rightarrow> byte list" where
  "with_gaps m p [] = []"
| "with_gaps m p ((d, n, k) # cs) =
     payload d n k @ mem_get m (p + (n - k)) k @ with_gaps m (p + n) cs"

fun copy_ok :: "copy \<Rightarrow> bool" where
  "copy_ok (d, n, k) = (0 \<le> k \<and> k \<le> n \<and> n \<le> int (length d))"

lemma sums_simps [simp]:
  "put_total [] = 0" "put_total ((d, n, k) # cs) = n + put_total cs" "put_total (cs @ cs') = put_total cs + put_total cs'"
  "counted [] = 0" "counted ((d, n, k) # cs) = n - k + counted cs"
  "counted (cs @ cs') = counted cs + counted cs'"
  "payloads [] = []" "payloads ((d, n, k) # cs) = payload d n k @ payloads cs"
  "payloads (cs @ cs') = payloads cs @ payloads cs'"
  by (simp_all add: put_total_def counted_def payloads_def)

lemma copied_bounds: "\<forall>c\<in>set cs. copy_ok c \<Longrightarrow> 0 \<le> counted cs \<and> counted cs \<le> put_total cs"
  by (induction cs) auto

lemma with_gaps_append:
  "with_gaps m p (cs @ cs') = with_gaps m p cs @ with_gaps m (p + put_total cs) cs'"
  by (induction cs arbitrary: p) (auto simp: add.assoc)

lemma copied_shape: "copied t t' = [] \<or> (\<exists>d n k. t = Writer_Locking d n k \<and> t' = Writer_Idle
    \<and> copied t t' = [(d, n, k)])"
  by (cases "(t, t')" rule: copied.cases) auto

lemma not_copied [simp]:
  "copied t t = []" "copied t (signal_writer t) = []" "copied Writer_Idle t = []"
  "copied (Writer_Waiting d n k) t = []" "copied t (Writer_Locking d n k) = []"
  "copied t (Writer_Waiting d n k) = []"
  by (cases t; simp add: signal_writer_def)+

section \<open>Where the put pointer is\<close>

text \<open>The put pointer after the copies, and the headers of those that did not go around the end.\<close>

fun put_end :: "int \<Rightarrow> copy list \<Rightarrow> int" where
  "put_end p [] = p"
| "put_end p ((d, n, k) # cs) =
     put_end (if n - k \<le> BUFFER_SIZE - p then p + n else n - k - (BUFFER_SIZE - p)) cs"

fun gap_total :: "int \<Rightarrow> copy list \<Rightarrow> int" where
  "gap_total p [] = 0"
| "gap_total p ((d, n, k) # cs) =
     (if n - k \<le> BUFFER_SIZE - p then k + gap_total (p + n) cs
      else gap_total (n - k - (BUFFER_SIZE - p)) cs)"

lemma put_end_append: "put_end p (cs @ cs') = put_end (put_end p cs) cs'"
  by (induction p cs rule: put_end.induct) simp_all

lemma put_end_gaps: "\<exists>q. put_end p cs = p + counted cs + gap_total p cs + q * BUFFER_SIZE"
proof (induction p cs rule: put_end.induct)
  case (1 p)
  show ?case by (intro exI [of _ 0]) simp
next
  case (2 p d n k cs)
  let ?w = "n - k - (BUFFER_SIZE - p)"
  show ?case
  proof (cases "n - k \<le> BUFFER_SIZE - p")
    case True
    then show ?thesis using 2 by (auto simp: algebra_simps)
  next
    case False
    then obtain q where "put_end ?w cs = ?w + counted cs + gap_total ?w cs + q * BUFFER_SIZE"
      using 2 by auto
    then show ?thesis
      using False by (intro exI [of _ "q - 1"]) (simp add: algebra_simps)
  qed
qed

definition place_ok :: "copy list \<Rightarrow> shared \<Rightarrow> bool" where
  "place_ok cs s \<longleftrightarrow> rb_put (sh_ring s) = put_end 0 cs
     \<and> rb_get (sh_ring s) = int (length (sh_out s)) mod BUFFER_SIZE
     \<and> sh_in s = payloads cs \<and> int (length (payloads cs)) = counted cs"

lemma place_same:
  "place_ok cs s \<Longrightarrow> sh_ring s' = sh_ring s \<Longrightarrow> sh_out s' = sh_out s \<Longrightarrow> sh_in s' = sh_in s \<Longrightarrow>
     place_ok cs s'"
  by (simp add: place_ok_def)

lemma place_step:
  assumes "shared_step l s s'" and "shared_ok s" and "place_ok cs s"
  shows "place_ok (cs @ copied (sh_writer s) (sh_writer s')) s'"
  using assms(1)
proof cases
  case (read_takes n bs r)
  have ok: "ring_ok (sh_ring s)" and n: "0 \<le> n"
    using assms(2) read_takes by (auto simp: shared_ok_def)
  obtain j where j: "0 \<le> j" "j \<le> rb_count (sh_ring s)" "bs = take (nat j) (contents (sh_ring s))"
    and r: "r = (sh_ring s)\<lparr>rb_get := (rb_get (sh_ring s) + j) mod BUFFER_SIZE,
      rb_count := rb_count (sh_ring s) - j\<rparr>"
    using ok n read_takes(4) by (rule ring_takeE)
  then have "int (length bs) = j" by simp
  then have "rb_put r = rb_put (sh_ring s)"
    and "rb_get r = (rb_get (sh_ring s) + int (length bs)) mod BUFFER_SIZE"
    using r by simp_all
  then show ?thesis
    using assms(3) read_takes by (simp add: place_ok_def mod_add_left_eq)
next
  case (write_puts d n k r)
  then have "fits d n k (sh_ring s)" using assms(2) by (simp add: shared_ok_def fits_def)
  then have "int (length (payload d n k)) = n - k" by (rule length_payload)
  moreover have "rb_put r = put_end (rb_put (sh_ring s)) [(d, n, k)]" and "rb_get r = rb_get (sh_ring s)"
    using write_puts by (auto simp: ring_put_def Let_def cint_Inr split: if_splits)
  ultimately show ?thesis
    using assms(3) write_puts by (simp add: place_ok_def put_end_append)
qed (auto intro!: place_same [OF assms(3)])

lemma place_run: "copying (shared_start m) cs s \<Longrightarrow> place_ok cs s"
proof (induction rule: copying.induct)
  case no_step
  show ?case by (simp add: place_ok_def shared_start_def ring_new_def)
next
  case (a_step cs s l s')
  then show ?case
    using place_step shared_ok_reachable [OF copying_run [OF a_step.hyps(1)]] by blast
qed

section \<open>The bytes, before the end of the ring\<close>

definition stream_ok :: "bytes \<Rightarrow> copy list \<Rightarrow> shared \<Rightarrow> bool" where
  "stream_ok m cs s \<longleftrightarrow> (\<forall>c\<in>set cs. copy_ok c) \<and> rb_put (sh_ring s) = put_total cs
     \<and> mem_get (rb_mem (sh_ring s)) 0 (put_total cs) = with_gaps m 0 cs
     \<and> (\<forall>b\<ge>put_total cs. rb_mem (sh_ring s) b = m b)
     \<and> sh_out s = mem_get (rb_mem (sh_ring s)) 0 (int (length (sh_out s)))
     \<and> rb_get (sh_ring s) = int (length (sh_out s)) mod BUFFER_SIZE
     \<and> int (length (sh_out s)) + rb_count (sh_ring s) = counted cs
     \<and> sh_in s = payloads cs"

lemma stream_contents:
  assumes "stream_ok m cs s" and "put_total cs \<le> BUFFER_SIZE" and "shared_ok s"
  shows "contents (sh_ring s)
    = mem_get (rb_mem (sh_ring s)) (int (length (sh_out s))) (rb_count (sh_ring s))"
proof (rule nth_equalityI)
  fix i
  assume "i < length (contents (sh_ring s))"
  then have i: "int i < rb_count (sh_ring s)" by simp
  have "int (length (sh_out s)) + rb_count (sh_ring s) \<le> BUFFER_SIZE"
    using copied_bounds assms(1,2) by (fastforce simp: stream_ok_def)
  then have "(int (length (sh_out s)) + int i) mod BUFFER_SIZE = int (length (sh_out s)) + int i"
    using i by simp
  then show "contents (sh_ring s) ! i
      = mem_get (rb_mem (sh_ring s)) (int (length (sh_out s))) (rb_count (sh_ring s)) ! i"
    using assms(1) i by (simp add: nth_contents stream_ok_def mod_add_left_eq)
qed simp

lemma stream_total:
  assumes "stream_ok m cs s" and "put_total cs \<le> BUFFER_SIZE" and "shared_ok s"
  shows "sh_out s @ contents (sh_ring s) = take (nat (counted cs)) (with_gaps m 0 cs)"
proof -
  let ?m = "rb_mem (sh_ring s)"
  have n: "int (length (sh_out s)) + rb_count (sh_ring s) = counted cs" "0 \<le> rb_count (sh_ring s)"
    and out: "sh_out s = mem_get ?m 0 (int (length (sh_out s)))"
    and g: "mem_get ?m 0 (put_total cs) = with_gaps m 0 cs" and ok: "\<forall>c\<in>set cs. copy_ok c"
    using assms(1,3) by (simp_all add: stream_ok_def shared_ok_def ring_ok_def)
  have "sh_out s @ contents (sh_ring s) = mem_get ?m 0 (counted cs)"
    using mem_get_split [of "int (length (sh_out s))" "rb_count (sh_ring s)" ?m 0] out n
    by (simp add: stream_contents [OF assms])
  also have "\<dots> = take (nat (counted cs)) (with_gaps m 0 cs)"
    using mem_get_take copied_bounds [OF ok] g by metis
  finally show ?thesis .
qed

text \<open>A take moves the first bytes of the ring to the player.\<close>

lemma stream_takes:
  assumes "stream_ok m cs s" and "put_total cs \<le> BUFFER_SIZE" and "shared_ok s" and "0 \<le> n"
    and "ring_take (sh_ring s) n = Inr (bs, r)"
  shows "stream_ok m cs (s\<lparr>sh_ring := r, sh_out := sh_out s @ bs, sh_reader := t, sh_writer := t'\<rparr>)"
proof -
  have ok: "ring_ok (sh_ring s)" using assms(3) by (simp add: shared_ok_def)
  show ?thesis
    using ok assms(4,5)
  proof (rule ring_takeE)
    fix k
    assume k: "0 \<le> k" "k \<le> rb_count (sh_ring s)" "bs = take (nat k) (contents (sh_ring s))"
      and r: "r = (sh_ring s)\<lparr>rb_get := (rb_get (sh_ring s) + k) mod BUFFER_SIZE,
        rb_count := rb_count (sh_ring s) - k\<rparr>"
    have l: "int (length bs) = k" using k by simp
    let ?m = "rb_mem (sh_ring s)" and ?o = "int (length (sh_out s))"
    have "bs = mem_get ?m ?o k"
      using k stream_contents [OF assms(1-3)] mem_get_take by metis
    then have "sh_out s @ bs = mem_get ?m 0 (?o + k)"
      using mem_get_split [of ?o k ?m 0] k(1) assms(1) by (simp add: stream_ok_def)
    then show ?thesis
      using assms(1) l unfolding r by (auto simp: stream_ok_def mod_add_left_eq)
  qed
qed

text \<open>A copy that stays before the end of the ring adds its payload and a gap.\<close>

lemma stream_puts:
  assumes "stream_ok m cs s" and "put_total cs + n \<le> BUFFER_SIZE" and "shared_ok s"
    and "copy_ok (d, n, k)" and "n \<le> rb_max (sh_ring s) - rb_count (sh_ring s)"
    and "ring_put d n k (sh_ring s) = Inr r"
  shows "stream_ok m (cs @ [(d, n, k)]) (s\<lparr>sh_ring := r, sh_in := sh_in s @ payload d n k,
    sh_writer := t, sh_reader := t'\<rparr>)"
proof -
  let ?m = "rb_mem (sh_ring s)" and ?p = "put_total cs" and ?o = "int (length (sh_out s))"
  let ?bs = "payload d n k"
  have ok: "\<forall>c\<in>set cs. copy_ok c" and put: "rb_put (sh_ring s) = ?p"
    and g: "mem_get ?m 0 ?p = with_gaps m 0 cs" and above: "\<forall>b\<ge>?p. ?m b = m b"
    and out: "sh_out s = mem_get ?m 0 ?o" and cnt: "?o + rb_count (sh_ring s) = counted cs"
    using assms(1) by (simp_all add: stream_ok_def)
  have p: "0 \<le> ?p" "?o \<le> ?p"
    using copied_bounds [OF ok] cnt assms(3) by (auto simp: shared_ok_def ring_ok_def)
  have f: "fits d n k (sh_ring s)" using assms(4,5) by (simp add: fits_def)
  have l: "int (length ?bs) = n - k" using length_payload [OF f] .
  have "n \<le> INT_MAX" using assms(2) p(1) by (simp add: INT_MAX_def BUFFER_SIZE_def)
  then have r: "r = straight_put d n k (sh_ring s)"
    using ring_put_straight [OF f] assms(2,4,6) p put by (simp add: straight_put_def)
  let ?m' = "mem_put ?m ?p ?bs"
  have low: "mem_get ?m' 0 a = mem_get ?m 0 a" if "a \<le> ?p" for a
    by (rule mem_get_cong) (use that in \<open>simp add: mem_put_out\<close>)
  have k: "0 \<le> n - k" "0 \<le> k" using assms(4) by auto
  have "mem_get ?m' ?p n = mem_get ?m' ?p (n - k) @ mem_get ?m' (?p + (n - k)) k"
    using mem_get_split [OF k, of ?m' ?p] by simp
  also have "mem_get ?m' ?p (n - k) = ?bs" using mem_get_put [of ?m ?p ?bs] l by simp
  also have "mem_get ?m' (?p + (n - k)) k = mem_get m (?p + (n - k)) k"
    by (rule mem_get_cong) (use l k above in \<open>simp add: mem_put_out\<close>)
  finally have new: "mem_get ?m' ?p n = with_gaps m ?p [(d, n, k)]" by simp
  have "mem_get ?m' 0 (?p + n) = mem_get ?m' 0 ?p @ mem_get ?m' ?p n"
    using mem_get_split [of ?p n ?m' 0] p(1) assms(4) by simp
  then have "mem_get ?m' 0 (?p + n) = with_gaps m 0 (cs @ [(d, n, k)])"
    using low [of ?p] g new by (simp add: with_gaps_append)
  moreover have "\<forall>b\<ge>?p + n. ?m' b = m b" using above l k assms(4) by (auto simp: mem_put_out)
  ultimately show ?thesis
    using assms(1,4) r put low [OF p(2)] out by (simp add: stream_ok_def)
qed

lemma stream_same:
  "stream_ok m cs s \<Longrightarrow> sh_ring s' = sh_ring s \<Longrightarrow> sh_out s' = sh_out s \<Longrightarrow> sh_in s' = sh_in s \<Longrightarrow>
     stream_ok m cs s'"
  unfolding stream_ok_def by (elim conjE, intro conjI) (simp_all only:)

lemma stream_step:
  assumes "shared_step l s s'" and "shared_ok s" and "stream_ok m cs s"
    and "put_total (cs @ copied (sh_writer s) (sh_writer s')) \<le> BUFFER_SIZE"
  shows "stream_ok m (cs @ copied (sh_writer s) (sh_writer s')) s'"
  using assms(1)
proof cases
  case (read_takes n bs r)
  then have "0 \<le> n" using assms(2) by (auto simp: shared_ok_def)
  then show ?thesis
    using stream_takes [OF assms(3) _ assms(2), of n bs r] assms(4) read_takes by simp
next
  case (write_puts d n k r)
  then have c: "copy_ok (d, n, k)" using assms(2) by (simp add: shared_ok_def)
  show ?thesis
    using stream_puts [OF assms(3) _ assms(2) c, of r] assms(4) write_puts by simp
qed (auto intro!: stream_same [OF assms(3)])

lemma stream_run:
  assumes "copying (shared_start m) cs s" and "put_total cs \<le> BUFFER_SIZE"
  shows "stream_ok m cs s"
  using assms
proof (induction rule: copying.induct)
  case no_step
  show ?case by (simp add: stream_ok_def shared_start_def ring_new_def)
next
  case (a_step cs s l s')
  have ok: "shared_ok s" using copying_run [OF a_step.hyps(1)] by (rule shared_ok_reachable)
  have "0 \<le> put_total (copied (sh_writer s) (sh_writer s'))"
    using copied_shape [of "sh_writer s" "sh_writer s'"] ok by (auto simp: shared_ok_def)
  then have "stream_ok m cs s" using a_step.IH a_step.prems by simp
  then show ?case using stream_step [OF a_step.hyps(2) ok] a_step.prems by blast
qed

section \<open>Properties\<close>

text \<open>
  C7. What the player gets, whatever the interleaving: the bytes read and the bytes in the
  ring are as many as the payloads copied, but the put pointer is ahead of the end of the
  stream by the headers of all the chunks copied without going around the end of the ring.
  As long as the copies fit before the end of the ring, the bytes the player has read followed
  by those in the ring are the payloads, each with a gap of old bytes of the ring behind it
  that is as long as its chunk's header, cut off after as many bytes as the payloads have; no
  read, wake-up or timeout changes this stream.
\<close>

theorem player_gets_stream:
  assumes "copying (shared_start m) cs s"
  shows "sh_in s = payloads cs
    \<and> int (length (sh_out s)) + rb_count (sh_ring s) = int (length (payloads cs))
    \<and> rb_put (sh_ring s) mod BUFFER_SIZE
        = (rb_get (sh_ring s) + rb_count (sh_ring s) + gap_total 0 cs) mod BUFFER_SIZE
    \<and> (put_total cs \<le> BUFFER_SIZE \<longrightarrow>
        sh_out s @ contents (sh_ring s) = take (length (payloads cs)) (with_gaps m 0 cs))"
proof -
  have ok: "shared_ok s" using copying_run [OF assms] by (rule shared_ok_reachable)
  note pl = place_run [OF assms, unfolded place_ok_def]
  have n: "int (length (sh_out s)) + rb_count (sh_ring s) = int (length (payloads cs))"
    using ok pl by (simp add: shared_ok_def)
  obtain q where q: "rb_put (sh_ring s) = counted cs + gap_total 0 cs + q * BUFFER_SIZE"
    using put_end_gaps [of 0 cs] pl by auto
  have "rb_put (sh_ring s) mod BUFFER_SIZE = (counted cs + gap_total 0 cs) mod BUFFER_SIZE"
    unfolding q by (rule mod_mult_self1)
  also have "counted cs + gap_total 0 cs
      = int (length (sh_out s)) + (rb_count (sh_ring s) + gap_total 0 cs)"
    using n pl by simp
  finally have "rb_put (sh_ring s) mod BUFFER_SIZE
      = (int (length (sh_out s)) + (rb_count (sh_ring s) + gap_total 0 cs)) mod BUFFER_SIZE" .
  then have "rb_put (sh_ring s) mod BUFFER_SIZE
      = (rb_get (sh_ring s) + (rb_count (sh_ring s) + gap_total 0 cs)) mod BUFFER_SIZE"
    using pl by (simp only: mod_add_left_eq)
  moreover have "sh_out s @ contents (sh_ring s) = take (length (payloads cs)) (with_gaps m 0 cs)"
    if "put_total cs \<le> BUFFER_SIZE"
  proof -
    have "nat (counted cs) = length (payloads cs)" using pl by linarith
    then show ?thesis using stream_total [OF stream_run [OF assms that] that ok] by simp
  qed
  ultimately show ?thesis using n pl by (simp add: add.assoc)
qed

text \<open>Two chunks are copied, then the player takes bytes.\<close>

definition ex_long_bytes :: "byte list" where
  "ex_long_bytes = [1, 0, 16, 0, 16, 0, 25, 0, 1, 0, 65, 66, 67, 68, 69, 70, 71, 72, 73, 74, 75, 76]"

lemma copying_write:
  assumes "copying s0 cs s" and "sh_writer s = Writer_Idle" and "sh_reader s = Reader_Idle"
    and "0 \<le> k" and "k \<le> n" and "n \<le> int (length d)" and "n \<le> BUFFER_SIZE"
    and "n \<le> rb_max (sh_ring s) - rb_count (sh_ring s)" and "ring_put d n k (sh_ring s) = Inr r"
  shows "copying s0 (cs @ [(d, n, k)]) (s\<lparr>sh_ring := r, sh_in := sh_in s @ payload d n k\<rparr>)"
proof -
  let ?s1 = "s\<lparr>sh_writer := Writer_Locking d n k\<rparr>"
  have "shared_step Call s ?s1" using call_write assms(2,4-7) by blast
  then have c: "copying s0 cs ?s1" using a_step [OF assms(1)] assms(2) by fastforce
  have "shared_step Work ?s1 (?s1\<lparr>sh_ring := r, sh_in := sh_in ?s1 @ payload d n k,
      sh_writer := Writer_Idle, sh_reader := signal_reader (sh_reader ?s1)\<rparr>)" (is "shared_step _ _ ?s2")
    by (rule write_puts) (use assms(8,9) in simp_all)
  then have "copying s0 (cs @ [(d, n, k)]) ?s2"
    using a_step [OF c, of Work ?s2] by simp
  moreover have "?s2 = s\<lparr>sh_ring := r, sh_in := sh_in s @ payload d n k\<rparr>"
    using assms(2,3) by (simp add: signal_reader_def)
  ultimately show ?thesis by simp
qed

theorem player_gets_stream_witness:
  "\<exists>s. copying (shared_start (\<lambda>_. 0)) [(ex_data_bytes, 12, 10), (ex_long_bytes, 22, 10)] s
    \<and> sh_in s = [65, 66] @ drop 10 ex_long_bytes
    \<and> sh_out s @ contents (sh_ring s) = [65, 66] @ [0, 0, 0, 0, 0, 0, 0, 0, 0, 0] @ [65, 66]"
proof -
  let ?s0 = "shared_start (\<lambda>_. 0)" and ?cs = "[(ex_data_bytes, 12, 10), (ex_long_bytes, 22, 10)]"
  obtain r1 where r1: "ring_put ex_data_bytes 12 10 (sh_ring ?s0) = Inr r1" "rb_count r1 = 2"
      "rb_max r1 = BUFFER_SIZE" "rb_put r1 = 12"
    by (simp add: ring_put_def shared_start_def ring_new_def ex_data_bytes_def BUFFER_SIZE_def
        cint_def INT_MIN_def INT_MAX_def sub_bytes_def store_def)
  obtain r2 where r2: "ring_put ex_long_bytes 22 10 r1 = Inr r2"
    by (simp add: ring_put_def r1 ex_long_bytes_def BUFFER_SIZE_def
        cint_def INT_MIN_def INT_MAX_def sub_bytes_def store_def)
  let ?s1 = "?s0\<lparr>sh_ring := r1, sh_in := sh_in ?s0 @ payload ex_data_bytes 12 10\<rparr>"
  let ?s2 = "?s1\<lparr>sh_ring := r2, sh_in := sh_in ?s1 @ payload ex_long_bytes 22 10\<rparr>"
  have "copying ?s0 ([] @ [(ex_data_bytes, 12, 10)]) ?s1"
    by (rule copying_write [OF no_step])
      (use r1 in \<open>simp_all add: shared_start_def ring_new_def ex_data_bytes_def BUFFER_SIZE_def\<close>)
  then have c: "copying ?s0 ([] @ [(ex_data_bytes, 12, 10)]) ?s1" .
  have "copying ?s0 (([] @ [(ex_data_bytes, 12, 10)]) @ [(ex_long_bytes, 22, 10)]) ?s2"
    by (rule copying_write [OF c])
      (use r1 r2 in \<open>simp_all add: shared_start_def ex_long_bytes_def BUFFER_SIZE_def\<close>)
  then have run: "copying ?s0 ?cs ?s2" by simp
  have "mem_get (\<lambda>_. 0) a 10 = ([0, 0, 0, 0, 0, 0, 0, 0, 0, 0] :: byte list)" for a
    by (simp add: mem_get_def upt_rec)
  then have "take (length (payloads ?cs)) (with_gaps (\<lambda>_. 0) 0 ?cs)
      = [65, 66] @ [0, 0, 0, 0, 0, 0, 0, 0, 0, 0] @ [65, 66]"
    by (simp add: payload_def ex_data_bytes_def ex_long_bytes_def)
  moreover have "payloads ?cs = [65, 66] @ drop 10 ex_long_bytes"
    by (simp add: payload_def ex_data_bytes_def ex_long_bytes_def)
  moreover have "put_total ?cs \<le> BUFFER_SIZE" by (simp add: BUFFER_SIZE_def)
  ultimately show ?thesis using player_gets_stream [OF run] run by metis
qed

end
