(* ===== verification/Spec2Isabelle.thy ===== *)
theory Spec2Isabelle
  imports Streamer Flush_Order Plugin_Calls Debug_Output Program Player_Stream Schedules
begin

text \<open>
  A verification library for \<open>p2pxineplugin\<close>, a xine input plugin that plays a live stream
  from a peer-to-peer network built on the library GRAPES.

  \<^bold>\<open>The program.\<close>  xine asks \<open>p2p_class_get_instance\<close> (\<open>src/input_p2p.c\<close>) for a plugin object
  for an MRL \<open>p2p://host:port\<close>.  \<open>p2p_plugin_open\<close> runs \<open>init\<close> (\<open>src/streamer.c\<close>) and starts
  the threads of \<open>src/threads.c\<close>.  The receiving thread takes messages off the network: chunks
  go through \<open>src/network.c\<close> to the output module (\<open>src/output_factory.c\<close>,
  \<open>src/output_ffmpeg.c\<close>), which puts those that are ahead of their turn into a reorder buffer
  and copies the payload of the others into a ring of bytes inside the plugin object; the
  player's thread takes the bytes out with \<open>p2p_plugin_read\<close>.  Signalling messages are answered
  from the chunk buffer.  The other threads send the topology, offer buffer maps, send the
  chunks peers asked for, and request the data of the login.

  \<^bold>\<open>Theories.\<close>
  \<^item> \<open>Prelude\<close>: results of steps (\<open>'a res\<close>, with undefined behaviour, blocking and \<open>exit\<close> as
    values), C's 32-bit \<open>int\<close> with overflow and \<open>%\<close>, byte memory with bounds, loops.
  \<^item> \<open>Ring_Buffer\<close>: the fields \<open>buffer\<close>, \<open>buffer_put_ptr\<close>, \<open>buffer_get_ptr\<close>,
    \<open>buffer_count\<close> and \<open>buffer_max_size\<close> of \<open>p2p_input_plugin_t\<close> (record \<open>ring\<close>); one
    round of the reader (\<open>ring_take\<close>), the wait and the copy of the writer (\<open>wait_space\<close>,
    \<open>ring_put\<close>).  The locales \<open>byte_queue\<close> and \<open>byte_fifo\<close> state the queue the two sides rely
    on; both are interpreted on these operations.
  \<^item> \<open>Input_P2p\<close>: the object and the methods of \<open>src/input_p2p.c\<close>; \<open>Mrl\<close>: the construction
    of the object, with its strings in a heap of blocks; \<open>Plugin_Calls\<close>: sequences of calls.
  \<^item> \<open>Byte_Order\<close>: \<open>int_rcpy\<close> and \<open>int16_rcpy\<close>.
  \<^item> \<open>Output_Interface\<close>: \<open>src/output_interface.h\<close>, the table of functions, and the contract
    of a module as the locale \<open>output_contract\<close>; \<open>Output_Ffmpeg\<close>: the module of
    \<open>src/output_ffmpeg.c\<close> (context \<open>octx\<close>, state \<open>ostate\<close>) and its interpretation of the
    contract; \<open>Output_Factory\<close>: \<open>src/output_factory.c\<close>.
  \<^item> \<open>Playout\<close>, \<open>Put_Pointer\<close> and \<open>Flush_Order\<close>: what the module plays: the copy into the ring,
    any number of copies in a row, and the order in which a flush of the reorder buffer plays.
  \<^item> \<open>Network\<close>: \<open>src/network.c\<close> on the global state of \<open>src/streamer.c\<close> (record \<open>net\<close>);
    GRAPES is the record of functions \<open>grapes\<close>.
  \<^item> \<open>Locking\<close>: interleavings of threads that lock in the order of a rank, with the locale
    \<open>lock_client\<close>; \<open>Threads\<close>: \<open>src/threads.c\<close>, one function per message handler and per round
    of a thread, the loops, the start, and the interpretation of \<open>lock_client\<close> on what these
    functions log.
  \<^item> \<open>Rounds\<close>: the five threads' rounds as one function and the locales \<open>round_relation\<close>,
    \<open>numbering_relation\<close> and \<open>thread_relation\<close>, in which a relation kept by the primitive steps of
    the handlers is kept by the rounds of the receiving and the topology thread, with or without
    the answer at its end, then by the steps of the offering and the login thread, then by
    those of the sending thread.
  \<^item> \<open>Streamer\<close>: command line, \<open>init\<close> and \<open>main\<close> of \<open>src/streamer.c\<close>, and \<open>p2p_plugin_open\<close>;
    the contract of an output module as a sublocale of \<open>thread_relation\<close>.
  \<^item> \<open>Interleaving\<close>: the running program as a step relation: the tests of \<open>stopThreads\<close>, the
    regions of the mutexes, the answers sent after a region, each entry the sending thread
    sends, and each load and store of \<open>transId\<close>; the messages still to arrive are part of the
    state (\<open>pg_inbox\<close>).  An uninterrupted round is the function of \<open>Threads\<close> (\<open>round_runs\<close>).
  \<^item> \<open>Program\<close>: what holds in every reachable state of it; the locales are interpreted on the
    fields the threads leave alone, the numbers of the messages, and the list of chunks to send.
  \<^item> \<open>Player_Receiver\<close> and \<open>Schedules\<close>: reader and writer of the ring as one labelled step
    relation, and its relation to the functions of the two sides; \<open>Player_Stream\<close>: the bytes
    that go through it.
  \<^item> \<open>Debug_Output\<close>: the two listings for debugging.
  \<^item> This theory: the properties that span components.

  \<^bold>\<open>Concurrency.\<close>  A function that takes \<open>buffer_ring_mutex\<close> gets a schedule: a list with, for
  each stay inside the mutex, what other threads did to the ring before it, and whether a wait
  ended by its timeout.  A property for all schedules (or for all that keep the ring well
  formed, or that only append to it) is one for all behaviours of the other
  threads.  Theory \<open>Schedules\<close> relates this to the interleaved system of \<open>Player_Receiver\<close>:
  every call of the reader is a run of the function on some schedule, and every call of the
  writer is the run on the schedule of what the reader took between the writer's stays in the
  mutex, which is draining.  The three mutexes of
  \<open>src/threads.c\<close> are recorded in a log by every handler; \<open>threads_no_deadlock\<close> is about all
  interleavings of such logs, of any number of threads.  On the globals the steps of
  \<open>Interleaving\<close> are as small as the mutexes leave them: a region is one step, and an access
  that no mutex protects is a step of its own.  The rounds of the offering and the sending
  thread are taken apart further, into one step that takes their mutexes, one per neighbour or
  entry and more, and one that unlocks: a thread that takes one of these mutexes meanwhile has
  no step (\<open>held\<close>, \<open>unblocked\<close>), and what was sent before an undefined access stays sent.  A
  region of the receiving or the topology thread with an undefined access, or with a wait for
  room in the ring that does not end, is no step: the thread would keep its mutexes for ever.

  \<^bold>\<open>What the properties show.\<close>  The way of a chunk and of a session from the network to the
  player (here); that the ring is a queue of bytes while the put pointer is in step, that no
  schedule makes a read lose or double bytes, how many bytes a read returns and touches, when
  it ends, and that calls of the plugin have no undefined behaviour (\<open>Ring_Buffer\<close>, \<open>Input_P2p\<close>,
  \<open>Plugin_Calls\<close>); that reader and writer neither deadlock nor miss a wake-up, and which bytes
  the player gets in any interleaving (\<open>Player_Receiver\<close>, \<open>Player_Stream\<close>); that the reorder
  buffer stays well formed, loses no chunk it holds, and plays exactly the runs of \<open>flush_plan\<close> (\<open>Playout\<close>, \<open>Flush_Order\<close>); what offers, requests and
  rounds of the threads send (\<open>Threads\<close>, \<open>Network\<close>); what opening the plugin does
  (\<open>Streamer\<close>); what holds in every state of the running program, how its messages are
  numbered in spite of the race on \<open>transId\<close>, and how it stops (\<open>Program\<close>).  Where
  the code goes wrong the theorem says exactly how: the put pointer that is advanced by header and payload (\<open>write_chunk_put_pointer\<close>, \<open>write_chunk_overruns\<close>,
  \<open>chunks_shifted\<close>, \<open>player_gets_stream\<close>), chunks played early or dropped (\<open>deliver_plays_early\<close>,
  \<open>deliver_full_slot_drops\<close>), the slot -1 (\<open>deliver_cleanup_underrun\<close>), the list of chunks to
  send (\<open>peerChunks_overrun\<close>, \<open>at_most_one_chunk_sent\<close>), the answer to a request (\<open>request_ignores_ids\<close>), the numbers of the messages
  (\<open>transId_race\<close>), the strings of the MRL (\<open>get_instance_undefined\<close>), the preview
  (\<open>p2p_plugin_read_overwrites_preview\<close>), a chunk larger than the ring (\<open>write_chunk_too_big\<close>).

  \<^bold>\<open>Bounds.\<close>  A counted loop runs over the list of its indices up to the first at which its
  condition must fail, so no run is cut short.  The loop of \<open>p2p_plugin_read\<close> and the wait of
  the writer end on every finite schedule; a run that waits past the end of its schedule is
  \<open>Inl Blocked\<close>, and \<open>p2p_plugin_read_returns\<close> gives a schedule length that suffices.  The
  receiving thread runs over the list of messages that arrive; the other threads' loops run for
  a given number of rounds (\<open>thread_rounds\<close>), or in \<open>Interleaving\<close> any number of steps until
  \<open>stopThreads\<close> ends them; \<open>program_stops\<close> bounds the steps after that by 45: three for the
  receiving and the login thread, two for the topology thread, four for the sending thread,
  which cannot get beyond the second round of its loop, and 33 for the thread that offers
  chunks to ten neighbours.  A receiving thread with no message left takes none: it waits.

  \<^bold>\<open>Not modelled.\<close>  The build files.  GRAPES, xine, the C library's sockets and the clock are
  parameters: their results are arguments of the definitions, or drawn from \<open>os_env\<close>.  The
  values of \<open>off_t\<close>, \<open>long\<close> and \<open>size_t\<close> are unbounded integers; \<open>int\<close> has its width.  Memory
  that is never freed is not counted (so the peer that \<open>network_add_to_peerChunk\<close> allocates and
  forgets does not show, and its allocations are taken to succeed).  A failed
  \<open>recv_from_peer\<close> counts as a message with length -1, the old buffer and any sender, although
  the code's \<open>remote\<close> may then be a wild pointer.  The peers that GRAPES's peer set hands out
  are in the heap from the start, whichever they are (\<open>start_net\<close>); no address is used again
  after a \<open>free\<close>.  A chunk's id is an \<open>int\<close>: properties about chunks from
  the network say so (\<open>int_id\<close>, \<open>parses_ints\<close>).  \<open>buffer_ring_mutex\<close> is not in the lock log: the code
  takes it last and takes no other mutex inside it.  Two regions of different mutexes are steps
  in some order, although the code may run them at once: this rests on the peer sampler, the
  chunk buffer and the list of chunks to send being separate data, and on the chunk buffer
  being changed by the receiving thread alone, which looks it up with \<open>peerChunkMutex\<close> only
  when a peer accepts chunks.  \<open>firstChunk\<close> and the output
  module are used by the receiving thread alone.  Messages printed for debugging in the middle
  of other functions have no effect in the model; the code inside the comment at the end of \<open>output_ffmpeg_deliver\<close>
  is not part of the program.
\<close>

section \<open>From the network to the player\<close>

text \<open>
  C1. The whole way of a chunk: a chunk message with the chunk next in turn, received while
  the ring has room and its put pointer is in step, makes the next read of the player, of as
  many bytes as are then in the ring, return the bytes that were in the ring before followed
  by the payload of the chunk, whatever is appended to the ring while it reads; and the
  chunk is handed to the chunk buffer.
\<close>

theorem chunk_reaches_player:
  assumes "parseChunkMsg g (drop 1 buffer) (n - 1) = (res, c, transid)" and "0 < res"
    and "nt_output s = Some w" and "ctx_ok (os_ctx w)"
    and "ck_id c = oc_playedChunk (os_ctx w) + 1" and "ck_id c \<le> INT_MAX" and "playable c d"
    and "ring_ok (os_ring w)" and "synced (os_ring w)" and "os_sched w = []"
    and "ck_size c \<le> BUFFER_SIZE - rb_count (os_ring w)"
    and "len = rb_count (os_ring w) + (ck_size c - chunk_offset d)" and "len \<le> cap"
    and "pl_preview_size p \<le> pl_curpos p" and "\<forall>(t, f)\<in>set es. appending f"
  shows "\<exists>s' w' dst' p' es'.
      network_handle_chunk_message g (output_ffmpeg ask) remote buffer n s = Inr s'
    \<and> nt_lib s' = snd (cb_add_chunk g (nt_lib s) c)
    \<and> nt_output s' = Some w' \<and> oc_playedChunk (os_ctx w') = ck_id c
    \<and> p2p_plugin_read x own cap dst len es (p\<lparr>pl_ring := os_ring w'\<rparr>) = Inr (len, dst', p', es')
    \<and> mem_get dst' 0 len = contents (os_ring w) @ payload d (ck_size c) (chunk_offset d)"
proof -
  let ?r = "os_ring w"
  have rng: "rb_max ?r = BUFFER_SIZE" "0 \<le> rb_count ?r" "0 \<le> rb_put ?r" "rb_put ?r \<le> BUFFER_SIZE"
    using assms(8,9) by (auto simp: ring_ok_def synced_def)
  have f: "fits d (ck_size c) (chunk_offset d) ?r"
    using playable_fits [OF assms(7)] assms(11) rng(1) by simp
  obtain r2 where q: "ring_put d (ck_size c) (chunk_offset d) ?r = Inr r2"
    using ring_put_cases [OF assms(8) rng(3,4) f] by metis
  have r2: "contents r2 = contents ?r @ payload d (ck_size c) (chunk_offset d)" "ring_ok r2"
    using ring_put_append_aux [OF assms(8,9) f q] by simp_all
  have "length (contents r2) = nat len"
    using r2(1) length_payload [OF f] assms(12) rng(2) by simp
  then have cnt: "rb_count r2 = len" and tot: "0 \<le> len"
    using r2(2) f rng(2) assms(12) by (auto simp: ring_ok_def fits_def)
  have w1: "output_ffmpeg_write_chunk (seen c w) c = Inr ((seen c w)\<lparr>os_ring := r2,
      os_sched := [], os_written := os_written w @ [c]\<rparr>)" (is "_ = Inr ?w1")
    using write_room [OF assms(7), of "seen c w"] assms(8,10,11) q by simp
  let ?w2 = "set_played (ck_id c) ?w1"
  have d: "output_ffmpeg_deliver ask (nt_firstChunk s) w c = Inr (0, ?w2)"
    using deliver_next [OF assms(4) _ assms(6)] assms(5) w1 by simp
  obtain added lib where cb: "cb_add_chunk g (nt_lib s) c = (added, lib)" by (metis surj_pair)
  obtain s' where h: "network_handle_chunk_message g (output_ffmpeg ask) remote buffer n s = Inr s'"
    and s': "nt_lib s' = lib" "nt_output s' = Some ?w2"
    using assms(1-3) d cb
    by (simp add: network_handle_chunk_message_def output_ffmpeg_def
        output_ffmpeg_secured_data_enabled_chunk_def Let_def)
  have "\<exists>dst' p' es'. p2p_plugin_read x own cap dst len es (p\<lparr>pl_ring := r2\<rparr>)
      = Inr (len, dst', p', es') \<and> mem_get dst' 0 len = take (nat len) (contents r2)"
    using p2p_plugin_read_prefix_aux [of "p\<lparr>pl_ring := r2\<rparr>" len cap es x own dst]
      r2(2) assms(13-15) cnt tot by auto
  moreover have "take (nat len) (contents r2) = contents r2"
    using cnt by simp
  ultimately show ?thesis
    using h s' cb r2(1) by auto
qed

theorem chunk_reaches_player_witness:
  "\<exists>s' w' dst' p' es'. network_handle_chunk_message (ex_grapes (ex_chunk 0) undefined)
        (output_ffmpeg (\<lambda>k. Inr ())) 2 [17] 1 ((ex_net [])\<lparr>nt_output := Some (ex_out 0)\<rparr>) = Inr s'
    \<and> nt_output s' = Some w'
    \<and> p2p_plugin_read ex_xine False 8 (\<lambda>_. 0) 2 [] (ex_plugin\<lparr>pl_ring := os_ring w'\<rparr>)
        = Inr (2, dst', p', es')
    \<and> mem_get dst' 0 2 = [65, 66]"
proof -
  let ?d = "[1, 0, 16, 0, 16, 0, 25, 0, 1, 0, 65, 66] :: byte list"
  have pre: "parseChunkMsg (ex_grapes (ex_chunk 0) undefined) (drop 1 [17]) (1 - 1) = (1, ex_chunk 0, 7)"
    by (simp add: ex_grapes_def)
  have c: "contents (os_ring (ex_out 0)) = []" and pl: "payload ?d 12 10 = [65, 66]"
    by (simp_all add: contents_def payload_def)
  show ?thesis
    using chunk_reaches_player [OF pre, of "(ex_net [])\<lparr>nt_output := Some (ex_out 0)\<rparr>" "ex_out 0" ?d
        2 8 ex_plugin "[]" "\<lambda>k. Inr ()" 2 ex_xine False "\<lambda>_. 0"]
      ex_ctx_ok [of 0] ex_playable [of 0] ex_ring_out [of 0] c pl
    by (auto simp: ex_offset INT_MAX_def BUFFER_SIZE_def)
qed

section \<open>A session\<close>

text \<open>
  The messages \<open>(remote, buffer, n)\<close> carry the chunks \<open>cs\<close>, which follow the chunk \<open>p\<close> and
  each other.
\<close>

fun carry ::
  "('g, 'c, 'n) grapes \<Rightarrow> int \<Rightarrow> ('n \<times> byte list \<times> int) list \<Rightarrow> chunk list \<Rightarrow> bool"
where
  "carry g p [] cs = (cs = [])"
| "carry g p ((remote, buffer, n) # ms) [] = False"
| "carry g p ((remote, buffer, n) # ms) (c # cs) =
     (byte_at buffer 0 = Inr (msg_CHUNK g)
      \<and> (\<exists>res t. parseChunkMsg g (drop 1 buffer) (n - 1) = (res, c, t) \<and> 0 < res)
      \<and> ck_id c = p + 1 \<and> ck_id c \<le> INT_MAX \<and> (\<exists>d. playable c d) \<and> carry g (p + 1) ms cs)"

definition sizes :: "chunk list \<Rightarrow> int" where
  "sizes cs = sum_list (map ck_size cs)"

lemma sizes_simps [simp]: "sizes [] = 0" "sizes (c # cs) = ck_size c + sizes cs"
  by (simp_all add: sizes_def)

lemma carry_sizes: "carry g p ms cs \<Longrightarrow> 0 \<le> sizes cs"
proof (induction g p ms cs rule: carry.induct)
  case (3 g p remote buffer n ms c cs)
  then obtain d where "playable c d" by auto
  then have "0 \<le> ck_size c"
    using chunk_offset_range [of d] by (simp add: playable_def)
  then show ?case using 3 by simp
qed simp_all

text \<open>One chunk message, with the locks around it.\<close>

lemma receive_chunk:
  assumes "byte_at buffer 0 = Inr (msg_CHUNK g)" and "msg_CHUNK g \<noteq> msg_TOPOLOGY g"
    and "parseChunkMsg g (drop 1 buffer) (n - 1) = (res, c, t)" and "0 < res"
    and "nt_output s = Some w"
    and "output_ffmpeg_deliver ask (nt_firstChunk s) w c = Inr (v, w')"
  obtains s' where "receive_message g (output_ffmpeg ask) remote buffer n s = Inr s'"
    and "nt_output s' = Some w'" and "nt_lib s' = snd (cb_add_chunk g (nt_lib s) c)"
    and "nt_firstChunk s' = nt_firstChunk s" and "nt_stopThreads s' = nt_stopThreads s"
    and "lock_actions (nt_log s') = lock_actions (nt_log s) @ [Acq chunkBufferMutex, Rel chunkBufferMutex]"
proof -
  obtain added lib where cb: "cb_add_chunk g (nt_lib s) c = (added, lib)" by (metis surj_pair)
  show ?thesis
    using assms cb that
    by (simp add: receive_message_def locked_def network_handle_chunk_message_def output_ffmpeg_def
        output_ffmpeg_secured_data_enabled_chunk_def Let_def)
qed

text \<open>
  C2. A session: chunk messages that arrive in order, with room for all their chunks before
  the end of the ring, are all handled by the receiving thread, whatever \<open>firstChunk\<close> is;
  their chunks are copied to the player's ring in this order and handed to the chunk buffer
  in this order, each inside one locked region of \<open>chunkBufferMutex\<close>.
\<close>

theorem session_in_order:
  assumes "carry g (oc_playedChunk (os_ctx w)) ms cs" and "msg_CHUNK g \<noteq> msg_TOPOLOGY g"
    and "nt_output s = Some w" and "nt_stopThreads s \<noteq> 1" and "stream_room (sizes cs) w"
  shows "\<exists>s' w'. threads_receive_data g (output_ffmpeg ask) ms s = Inr s'
    \<and> nt_output s' = Some w' \<and> os_written w' = os_written w @ cs
    \<and> oc_playedChunk (os_ctx w') = oc_playedChunk (os_ctx w) + int (length cs)
    \<and> nt_lib s' = fold (\<lambda>c lib. snd (cb_add_chunk g lib c)) cs (nt_lib s)
    \<and> lock_actions (nt_log s') = lock_actions (nt_log s)
        @ concat (replicate (length cs) [Acq chunkBufferMutex, Rel chunkBufferMutex])"
  using assms(1,3-)
proof (induction ms arbitrary: cs s w)
  case (Cons a ms)
  obtain remote buffer n where a: "a = (remote, buffer, n)" by (cases a)
  then obtain c cs1 where cs: "cs = c # cs1" using Cons.prems(1) by (cases cs) auto
  let ?p = "oc_playedChunk (os_ctx w)"
  obtain res t d where m: "byte_at buffer 0 = Inr (msg_CHUNK g)"
      "parseChunkMsg g (drop 1 buffer) (n - 1) = (res, c, t)" "0 < res"
    and d: "playable c d" and k: "ck_id c = ?p + 1" "ck_id c \<le> INT_MAX"
    and rest: "carry g (?p + 1) ms cs1"
    using Cons.prems(1) a cs by auto
  obtain w1 where dl: "output_ffmpeg_deliver ask (nt_firstChunk s) w c = Inr (0, w1)"
    and w1: "stream_room (sizes cs1) w1" "os_written w1 = os_written w @ [c]"
      "oc_playedChunk (os_ctx w1) = ck_id c"
    using deliver_in_order_step [OF _ carry_sizes [OF rest] d k] Cons.prems(4) cs by auto
  obtain s1 where r: "receive_message g (output_ffmpeg ask) remote buffer n s = Inr s1"
    and s1: "nt_output s1 = Some w1" "nt_lib s1 = snd (cb_add_chunk g (nt_lib s) c)"
      "nt_stopThreads s1 = nt_stopThreads s"
      "lock_actions (nt_log s1) = lock_actions (nt_log s) @ [Acq chunkBufferMutex, Rel chunkBufferMutex]"
    using receive_chunk [OF m(1) assms(2) m(2,3) Cons.prems(2) dl] by metis
  show ?case
    using Cons.IH [of w1 cs1 s1] rest w1 s1 k(1) r Cons.prems(3) a cs by (simp add: add.assoc)
qed simp

theorem session_in_order_witness:
  "\<exists>s' w'. threads_receive_data (ex_grapes (ex_chunk 0) undefined) (output_ffmpeg (\<lambda>k. Inr ()))
        [(2, [17], 1)] ((ex_net [])\<lparr>nt_output := Some (ex_out 0)\<rparr>) = Inr s'
    \<and> nt_output s' = Some w' \<and> os_written w' = [ex_chunk 0]"
proof -
  let ?g = "ex_grapes (ex_chunk 0) undefined" and ?s = "(ex_net [])\<lparr>nt_output := Some (ex_out 0)\<rparr>"
  have 1: "carry ?g (oc_playedChunk (os_ctx (ex_out 0))) [(2, [17], 1)] [ex_chunk 0]"
    using ex_playable [of 0] by (auto simp: ex_grapes_def INT_MAX_def byte_at_def)
  have 2: "msg_CHUNK ?g \<noteq> msg_TOPOLOGY ?g" by (simp add: ex_grapes_def)
  have 3: "nt_output ?s = Some (ex_out 0)" "nt_stopThreads ?s \<noteq> 1" by (simp_all add: ex_net_def)
  have 4: "stream_room (sizes [ex_chunk 0]) (ex_out 0)"
    using ex_ctx_ok [of 0] ex_ring_out [of 0] by (simp add: stream_room_def BUFFER_SIZE_def)
  have "os_written (ex_out 0) @ [ex_chunk 0] = [ex_chunk 0]" by simp
  then show ?thesis
    using session_in_order [OF 1 2 3 4, of "\<lambda>k. Inr ()"] by metis
qed

end
